(* ===== verification/Prelude.thy ===== *)
theory Prelude
  imports Main "HOL-Library.Word" "HOL-Library.Multiset"
begin

text \<open>
  What the components share: the faults a C or C++ program can run into, a sequencing
  operator that stops at the first fault, checked reads and writes of arrays by a signed
  index, the C rules for signed division, decimal printing, and the theorem collections
  the component theories fill.
\<close>

section \<open>Faults as values\<close>

text \<open>
  Undefined behaviour and run-time failures of the source are values, so that a theorem
  that a routine returns a result also says that none of them happens.
\<close>

datatype fault =
    NullDeref          \<comment> \<open>a read or write through NULL\<close>
  | Dangling           \<comment> \<open>a read or write through a pointer to no live object\<close>
  | OutOfBounds        \<comment> \<open>an index outside its array\<close>
  | DivByZero          \<comment> \<open>the right operand of / or % is 0\<close>
  | InvalidParameter   \<comment> \<open>a bounds-checked CRT function rejects its arguments\<close>
  | BadFree            \<comment> \<open>free of a pointer that malloc did not return\<close>
  | Uninitialised      \<comment> \<open>use of an object that was never assigned\<close>
  | StackOverflow      \<comment> \<open>recursion deeper than the stack\<close>
  | SignedOverflow     \<comment> \<open>signed arithmetic outside the range of int\<close>
  | Thrown             \<comment> \<open>a C++ exception leaves the function\<close>

fun and_then :: "fault + 'a \<Rightarrow> ('a \<Rightarrow> fault + 'b) \<Rightarrow> fault + 'b" where
  "and_then (Inl e) f = Inl e"
| "and_then (Inr x) f = f x"

lemma and_then_Inr_iff:
  "and_then m f = Inr y \<longleftrightarrow> (\<exists>x. m = Inr x \<and> f x = Inr y)"
  by (cases m) auto

lemma and_then_Inl_iff:
  "and_then m f = Inl e \<longleftrightarrow> m = Inl e \<or> (\<exists>x. m = Inr x \<and> f x = Inl e)"
  by (cases m) auto

lemma and_then_assoc: "and_then (and_then m f) g = and_then m (\<lambda>x. and_then (f x) g)"
  by (cases m) simp_all

lemma and_then_cong [fundef_cong]:
  "m = m' \<Longrightarrow> (\<And>x. m' = Inr x \<Longrightarrow> f x = g x) \<Longrightarrow> and_then m f = and_then m' g"
  by (cases m') auto

text \<open>
  Sequencing for code with a loop that may not end: \<open>None\<close> is a run that does not return.
\<close>

fun run_then :: "(fault + 'a) option \<Rightarrow> ('a \<Rightarrow> (fault + 'b) option) \<Rightarrow> (fault + 'b) option" where
  "run_then None f = None"
| "run_then (Some (Inl e)) f = Some (Inl e)"
| "run_then (Some (Inr x)) f = f x"

lemma run_then_cong [fundef_cong]:
  "m = m' \<Longrightarrow> (\<And>x. m' = Some (Inr x) \<Longrightarrow> f x = g x) \<Longrightarrow> run_then m f = run_then m' g"
  by (cases "(m', f)" rule: run_then.cases) auto

lemma run_then_Some_Inr: "run_then m f = Some (Inr y) \<longleftrightarrow> (\<exists>x. m = Some (Inr x) \<and> f x = Some (Inr y))"
  by (cases "(m, f)" rule: run_then.cases) auto

section \<open>Arrays read and written by a C index\<close>

definition in_range :: "'a list \<Rightarrow> int \<Rightarrow> bool" where
  "in_range a i \<longleftrightarrow> 0 \<le> i \<and> i < int (length a)"

definition rd :: "'a list \<Rightarrow> int \<Rightarrow> fault + 'a" where
  "rd a i = (if in_range a i then Inr (a ! nat i) else Inl OutOfBounds)"

definition wr :: "'a list \<Rightarrow> int \<Rightarrow> 'a \<Rightarrow> fault + 'a list" where
  "wr a i x = (if in_range a i then Inr (a[nat i := x]) else Inl OutOfBounds)"

lemma rd_nat [simp]: "n < length a \<Longrightarrow> rd a (int n) = Inr (a ! n)"
  by (simp add: rd_def in_range_def)

lemma wr_nat [simp]: "n < length a \<Longrightarrow> wr a (int n) x = Inr (a[n := x])"
  by (simp add: wr_def in_range_def)

lemma rd_Inr [simp]: "0 \<le> i \<Longrightarrow> i < int (length a) \<Longrightarrow> rd a i = Inr (a ! nat i)"
  by (simp add: rd_def in_range_def)

lemma wr_Inr [simp]: "0 \<le> i \<Longrightarrow> i < int (length a) \<Longrightarrow> wr a i x = Inr (a[nat i := x])"
  by (simp add: wr_def in_range_def)

lemma rd_out [simp]: "i < 0 \<or> int (length a) \<le> i \<Longrightarrow> rd a i = Inl OutOfBounds"
  by (auto simp: rd_def in_range_def)

lemma wr_out [simp]: "i < 0 \<or> int (length a) \<le> i \<Longrightarrow> wr a i x = Inl OutOfBounds"
  by (auto simp: wr_def in_range_def)

text \<open>Swapping two cells keeps the multiset: used by every routine that moves elements.\<close>

lemma mset_swap_cells:
  "i < length a \<Longrightarrow> j < length a \<Longrightarrow> mset (a[i := a ! j, j := a ! i]) = mset a"
  by (rule mset_swap)

section \<open>Signed arithmetic\<close>

text \<open>C's division truncates towards 0, and the remainder has the sign of the dividend.\<close>

definition c_div :: "int \<Rightarrow> int \<Rightarrow> int" where
  "c_div a b = sgn a * sgn b * (\<bar>a\<bar> div \<bar>b\<bar>)"

definition c_mod :: "int \<Rightarrow> int \<Rightarrow> int" where
  "c_mod a b = a - b * c_div a b"

lemma c_div_nonneg [simp]: "0 \<le> a \<Longrightarrow> 0 < b \<Longrightarrow> c_div a b = a div b"
  by (cases "a = 0") (auto simp: c_div_def sgn_if)

lemma c_mod_nonneg [simp]: "0 \<le> a \<Longrightarrow> 0 < b \<Longrightarrow> c_mod a b = a mod b"
  by (simp add: c_mod_def minus_mult_div_eq_mod)

definition checked_mod :: "int \<Rightarrow> int \<Rightarrow> fault + int" where
  "checked_mod a b = (if b = 0 then Inl DivByZero else Inr (c_mod a b))"

text \<open>The result of an operation of type int, which is undefined outside the range of the type.\<close>

definition fit_int :: "int \<Rightarrow> fault + int" where
  "fit_int v = (if - (2 ^ 31) \<le> v \<and> v < 2 ^ 31 then Inr v else Inl SignedOverflow)"

lemma fit_int_Inr [simp]: "- (2 ^ 31) \<le> v \<Longrightarrow> v < 2 ^ 31 \<Longrightarrow> fit_int v = Inr v"
  by (simp add: fit_int_def)

lemma fit_int_big: "2 ^ 31 \<le> v \<Longrightarrow> fit_int v = Inl SignedOverflow"
  by (simp add: fit_int_def)

lemma fit_int_iff: "fit_int v = Inr w \<longleftrightarrow> w = v \<and> - (2 ^ 31) \<le> v \<and> v < 2 ^ 31"
  by (auto simp: fit_int_def)

section \<open>Decimal digits\<close>

definition digit_char :: "nat \<Rightarrow> char" where
  "digit_char d = char_of (48 + d)"

fun dec_nat :: "nat \<Rightarrow> string" where
  "dec_nat n = (if n < 10 then [digit_char n] else dec_nat (n div 10) @ [digit_char (n mod 10)])"

declare dec_nat.simps [simp del]

text \<open>What printf writes for a signed conversion.\<close>

definition dec_int :: "int \<Rightarrow> string" where
  "dec_int i = (if i < 0 then CHR ''-'' # dec_nat (nat (- i)) else dec_nat (nat i))"

definition is_digit :: "char \<Rightarrow> bool" where
  "is_digit c \<longleftrightarrow> 48 \<le> (of_char c :: nat) \<and> (of_char c :: nat) \<le> 57"

definition digit_val :: "char \<Rightarrow> nat" where
  "digit_val c = of_char c - 48"

lemma digit_char_roundtrip [simp]: "d < 10 \<Longrightarrow> digit_val (digit_char d) = d"
  by (simp add: digit_char_def digit_val_def)

lemma digit_char_is_digit [simp]: "d < 10 \<Longrightarrow> is_digit (digit_char d)"
  by (simp add: digit_char_def is_digit_def)

lemma dec_nat_digits: "\<forall>c \<in> set (dec_nat n). is_digit c"
proof (induction n rule: dec_nat.induct)
  case (1 n)
  then show ?case
    by (cases "n < 10") (auto simp: dec_nat.simps [of n])
qed

lemma dec_nat_not_empty [simp]: "dec_nat n \<noteq> []"
  by (subst dec_nat.simps) simp

text \<open>Reading decimal digits back.\<close>

fun read_digits :: "nat \<Rightarrow> string \<Rightarrow> nat" where
  "read_digits acc [] = acc"
| "read_digits acc (c # cs) = (if is_digit c then read_digits (10 * acc + digit_val c) cs else acc)"

lemma read_digits_append:
  "\<forall>c \<in> set xs. is_digit c \<Longrightarrow> read_digits acc (xs @ ys) = read_digits (read_digits acc xs) ys"
  by (induction xs arbitrary: acc) auto

lemma read_digits_dec_nat [simp]: "read_digits 0 (dec_nat n) = n"
proof (induction n rule: dec_nat.induct)
  case (1 n)
  show ?case
  proof (cases "n < 10")
    case True
    then show ?thesis by (subst dec_nat.simps) simp
  next
    case False
    have "read_digits 0 (dec_nat (n div 10) @ [digit_char (n mod 10)]) = n"
      using "1" False by (simp add: read_digits_append dec_nat_digits)
    with False show ?thesis by (subst dec_nat.simps) simp
  qed
qed

lemma length_dec_nat_le: "n < 10 ^ k \<Longrightarrow> 0 < k \<Longrightarrow> length (dec_nat n) \<le> k"
proof (induction n arbitrary: k rule: dec_nat.induct)
  case (1 n)
  show ?case
  proof (cases "n < 10")
    case True
    with "1.prems" show ?thesis by (subst dec_nat.simps) simp
  next
    case False
    with "1.prems" obtain k' where k': "k = Suc k'" "0 < k'"
      by (cases k; cases "k - 1") auto
    with "1.prems" have "n div 10 < 10 ^ k'" by (auto simp: less_mult_imp_div_less mult.commute)
    with False k' "1.IH" have "length (dec_nat (n div 10)) \<le> k'" by blast
    with False k' show ?thesis by (subst dec_nat.simps) simp
  qed
qed

lemma replicate_4: "replicate 4 x = [x, x, x, x]"
  by (simp add: eval_nat_numeral)

lemma sum_list_update_less:
  "i < length xs \<Longrightarrow> f y < f (xs ! i) \<Longrightarrow> sum_list (map f (xs[i := y])) < sum_list (map (f :: 'a \<Rightarrow> nat) xs)"
  by (induction xs arbitrary: i) (auto split: nat.split)

section \<open>C strings in a buffer\<close>

text \<open>
  A buffer of characters holds the C string that ends at the first NUL;
  \<open>cstr\<close> is what strlen, strcpy and the string conversions see.
\<close>

definition NUL :: char where
  "NUL = CHR 0x00"

definition cstr :: "string \<Rightarrow> string" where
  "cstr buf = takeWhile (\<lambda>c. c \<noteq> NUL) buf"

lemma cstr_no_nul: "NUL \<notin> set (cstr buf)"
  by (auto simp: cstr_def dest: set_takeWhileD)

lemma cstr_append_nul [simp]: "NUL \<notin> set s \<Longrightarrow> cstr (s @ NUL # rest) = s"
  unfolding cstr_def by (subst takeWhile_append2) auto

lemma cstr_id: "NUL \<notin> set s \<Longrightarrow> cstr s = s"
  unfolding cstr_def by (subst takeWhile_eq_all_conv) auto

text \<open>sprintf_s of a formatted text into a buffer it is told to have \<open>n\<close> bytes.\<close>

definition sprintf_s :: "nat \<Rightarrow> string \<Rightarrow> fault + string" where
  "sprintf_s n s = (if length s < n then Inr s else Inl InvalidParameter)"

section \<open>Fact collections\<close>

named_theorems pres "operations keep their component's invariant"
named_theorems op_simps "results of the operations on well-formed states"

end
