(* ===== verification/Linked_List.thy ===== *)
theory Linked_List
  imports Prelude "HOL-Library.Monad_Syntax"
begin

text \<open>
  Project1/MyList.c and MyList.h: a singly linked list of malloc'ed nodes with head and tail
  pointers. The nodes live in an explicit store, because insertion and removal mutate nodes
  that several pointers reach. A pointer is \<open>None\<close> for NULL. The result of each malloc is
  an argument: \<open>None\<close> for failure, \<open>Some a\<close> for the address of the block it returned.
  The int that counts the nodes is a mathematical integer: a list has fewer than \<open>2 ^ 31\<close> nodes.
  A list's \<open>match\<close> pointer is assigned by no code and read by none; it has no field.
\<close>

section \<open>Data\<close>

type_synonym addr = nat

record 'd list_elmt =
  e_data :: "'d option"           \<comment> \<open>None for a NULL data pointer\<close>
  e_next :: "addr option"

type_synonym 'd store = "addr \<Rightarrow> 'd list_elmt option"

record my_list =
  l_size :: int
  l_destroy :: bool               \<comment> \<open>whether the destroy function pointer is set\<close>
  l_head :: "addr option"
  l_tail :: "addr option"

section \<open>Operations\<close>

definition list_init :: "bool \<Rightarrow> my_list" where
  "list_init destroy = \<lparr>l_size = 0, l_destroy = destroy, l_head = None, l_tail = None\<rparr>"

text \<open>\<open>element->field\<close>: a NULL pointer and a pointer to a freed node are faults.\<close>

definition deref :: "'d store \<Rightarrow> addr option \<Rightarrow> fault + 'd list_elmt" where
  "deref h p = (case p of None \<Rightarrow> Inl NullDeref
     | Some a \<Rightarrow> (case h a of None \<Rightarrow> Inl Dangling | Some e \<Rightarrow> Inr e))"

text \<open>\<open>list_ins_next\<close>: the status it returns, the store and the list header afterwards.\<close>

definition list_ins_next ::
  "addr option \<Rightarrow> 'd store \<Rightarrow> my_list \<Rightarrow> addr option \<Rightarrow> 'd option \<Rightarrow> fault + int \<times> 'd store \<times> my_list"
where
  "list_ins_next newElement h l element d =
     (case newElement of
        None \<Rightarrow> Inr (-1, h, l)
      | Some n \<Rightarrow>
          (case element of
             None \<Rightarrow>
               (let l1 = (if l_size l = 0 then l\<lparr>l_tail := Some n\<rparr> else l)
                in Inr (0, h(n \<mapsto> \<lparr>e_data = d, e_next = l_head l1\<rparr>),
                        l1\<lparr>l_head := Some n, l_size := l_size l1 + 1\<rparr>))
           | Some a \<Rightarrow>
               and_then (deref h (Some a)) (\<lambda>el.
                 let l1 = (if e_next el = None then l\<lparr>l_tail := Some n\<rparr> else l)
                 in Inr (0, h(n \<mapsto> \<lparr>e_data = d, e_next = e_next el\<rparr>, a \<mapsto> el\<lparr>e_next := Some n\<rparr>),
                         l1\<lparr>l_size := l_size l1 + 1\<rparr>))))"

text \<open>
  \<open>list_rem_next\<close>: the status, what it wrote to \<open>*data\<close> (\<open>None\<close>: nothing), the store
  and the header. The removed node is cleared and freed, so its address leaves the store.
\<close>

definition list_rem_next ::
  "'d store \<Rightarrow> my_list \<Rightarrow> addr option \<Rightarrow> fault + int \<times> 'd option option \<times> 'd store \<times> my_list"
where
  "list_rem_next h l element =
     (if l_size l = 0 then Inr (-1, None, h, l)
      else case element of
        None \<Rightarrow>
          and_then (deref h (l_head l)) (\<lambda>el.
            let l1 = l\<lparr>l_head := e_next el\<rparr>;
                l2 = (if l_size l1 = 1 then l1\<lparr>l_tail := None\<rparr> else l1)
            in Inr (0, Some (e_data el), h(the (l_head l) := None), l2\<lparr>l_size := l_size l2 - 1\<rparr>))
      | Some a \<Rightarrow>
          and_then (deref h (Some a)) (\<lambda>el.
            if e_next el = None then Inr (-1, None, h, l)
            else and_then (deref h (e_next el)) (\<lambda>old.
              let h1 = h(a \<mapsto> el\<lparr>e_next := e_next old\<rparr>);
                  l1 = (if e_next old = None then l\<lparr>l_tail := Some a\<rparr> else l)
              in Inr (0, Some (e_data old), h1(the (e_next el) := None), l1\<lparr>l_size := l_size l1 - 1\<rparr>))))"

lemma list_rem_next_size:
  "list_rem_next h l e = Inr (r, d, h', l') \<Longrightarrow>
     l_size l' = (if r = 0 then l_size l - 1 else l_size l)"
  by (auto simp: list_rem_next_def and_then_Inr_iff Let_def split: if_splits option.splits)

text \<open>
  \<open>list_destroy\<close>: removes at the head while \<open>size > 0\<close>; the list of data pointers is
  what it passed to \<open>destroy\<close>, in order. A removal at the head of a list of positive size
  never returns -1, so the size decreases in every round.
\<close>

lemma list_rem_next_head_zero:
  "list_rem_next h l None = Inr (r, d, h', l') \<Longrightarrow> l_size l \<noteq> 0 \<Longrightarrow> r = 0 \<and> l_size l' = l_size l - 1"
  by (auto simp: list_rem_next_def and_then_Inr_iff Let_def split: if_splits)

function list_destroy :: "'d store \<Rightarrow> my_list \<Rightarrow> fault + 'd option list \<times> 'd store \<times> my_list" where
  "list_destroy h l =
     (if l_size l > 0 then
        and_then (list_rem_next h l None) (\<lambda>(r, d, h', l').
          and_then (list_destroy h' l') (\<lambda>(ds, h'', l'').
            if r = 0 \<and> l_destroy l'
            then (case d of None \<Rightarrow> Inl Uninitialised | Some x \<Rightarrow> Inr (x # ds, h'', l''))
            else Inr (ds, h'', l'')))
      else Inr ([], h, l\<lparr>l_head := None, l_tail := None\<rparr>))"
  by pat_completeness auto
termination
  by (relation "measure (\<lambda>(h, l). nat (l_size l))") (auto dest!: list_rem_next_head_zero)

declare list_destroy.simps [simp del]

text \<open>
  \<open>list_delement_destroy\<close> frees its argument unless it is NULL; the data store holds the
  live data blocks.
\<close>

definition list_delement_destroy :: "(addr \<Rightarrow> 'v option) \<Rightarrow> addr option \<Rightarrow> fault + (addr \<Rightarrow> 'v option)" where
  "list_delement_destroy dh p =
     (case p of None \<Rightarrow> Inr dh
      | Some a \<Rightarrow> (case dh a of None \<Rightarrow> Inl BadFree | Some _ \<Rightarrow> Inr (dh(a := None))))"

section \<open>Printing\<close>

text \<open>
  The text \<open>list_prt\<close> writes for strings as data. The loop follows next pointers until
  NULL and runs forever on a cyclic chain, so the traversal is a partial function:
  \<open>None\<close> is not returning. printf of a NULL string is a fault.
\<close>

definition prt_line :: "char \<Rightarrow> nat \<Rightarrow> string \<Rightarrow> bool \<Rightarrow> string" where
  "prt_line m i s last_one =
     (if m = CHR ''1'' then ''list['' @ dec_nat i @ '']='' @ [CHR 0x22] @ s @ [CHR 0x22, CHR 0x0A]
      else ''idx='' @ dec_nat i @ [CHR 0x0A] @ ''data='' @ [CHR 0x22] @ s @ [CHR 0x22, CHR 0x0A]
           @ ''len='' @ dec_nat (length s) @ (if last_one then [CHR 0x0A] else [CHR 0x0A, CHR 0x0A]))"

partial_function (option) prt_loop ::
  "string store \<Rightarrow> char \<Rightarrow> nat \<Rightarrow> addr option \<Rightarrow> string \<Rightarrow> (fault + string) option"
where
  "prt_loop h m i p out =
     (case p of None \<Rightarrow> Some (Inr out)
      | Some a \<Rightarrow>
          (case h a of None \<Rightarrow> Some (Inl Dangling)
           | Some el \<Rightarrow>
               (case e_data el of None \<Rightarrow> Some (Inl NullDeref)
                | Some s \<Rightarrow> prt_loop h m (Suc i) (e_next el) (out @ prt_line m i s (e_next el = None)))))"

definition list_prt :: "string store \<Rightarrow> my_list option \<Rightarrow> char \<Rightarrow> (fault + int \<times> string) option" where
  "list_prt h lp m =
     (case lp of None \<Rightarrow> Some (Inr (-1, []))
      | Some l \<Rightarrow>
          if l_size l < 1 then Some (Inr (0, ''list is empty'' @ [CHR 0x0A]))
          else if m = CHR ''1'' \<or> m = CHR ''2''
            then map_option (\<lambda>r. and_then r (\<lambda>out. Inr (0, out))) (prt_loop h m 0 (l_head l) [])
          else Some (Inr (0, ''Unsupported mode : '' @ [m])))"

definition list_info :: "my_list option \<Rightarrow> int \<times> string" where
  "list_info lp =
     (case lp of None \<Rightarrow> (0, ''list is NULL'' @ [CHR 0x0A])
      | Some l \<Rightarrow> (0, ''sizeof(list)='' @ dec_int (l_size l) @ [CHR 0x0A]))"

section \<open>The abstract list\<close>

text \<open>
  \<open>lseg h p xs q\<close>: from \<open>p\<close>, the next pointers run through the nodes \<open>xs\<close> (address and
  data of each) and end at \<open>q\<close>. \<open>list_rep\<close> says which abstract sequence a list header
  holds: the chain from head to NULL, no node twice, the right size and the right tail.
\<close>

fun lseg :: "'d store \<Rightarrow> addr option \<Rightarrow> (addr \<times> 'd option) list \<Rightarrow> addr option \<Rightarrow> bool" where
  "lseg h p [] q \<longleftrightarrow> p = q"
| "lseg h p ((a, d) # xs) q \<longleftrightarrow>
     p = Some a \<and> (\<exists>nx. h a = Some \<lparr>e_data = d, e_next = nx\<rparr> \<and> lseg h nx xs q)"

definition addrs :: "(addr \<times> 'd option) list \<Rightarrow> addr list" where
  "addrs xs = map fst xs"

definition list_rep :: "'d store \<Rightarrow> my_list \<Rightarrow> (addr \<times> 'd option) list \<Rightarrow> bool" where
  "list_rep h l xs \<longleftrightarrow>
     lseg h (l_head l) xs None \<and> distinct (addrs xs) \<and> l_size l = int (length xs) \<and>
     l_tail l = (if xs = [] then None else Some (fst (last xs)))"

lemma addrs_simps [simp]:
  "addrs [] = []" "addrs (x # xs) = fst x # addrs xs" "addrs (xs @ ys) = addrs xs @ addrs ys"
  by (simp_all add: addrs_def)

lemma lseg_append:
  "lseg h p (xs @ ys) q \<longleftrightarrow> (\<exists>r. lseg h p xs r \<and> lseg h r ys q)"
  by (induction xs arbitrary: p) (auto, blast+)

lemma lseg_frame [simp]:
  "a \<notin> set (addrs xs) \<Longrightarrow> lseg (h(a := v)) p xs q \<longleftrightarrow> lseg h p xs q"
  by (induction xs arbitrary: p) auto

lemma lseg_live: "lseg h p xs q \<Longrightarrow> a \<in> set (addrs xs) \<Longrightarrow> h a \<noteq> None"
  by (induction xs arbitrary: p) auto

lemma lseg_fresh [simp]: "lseg h p xs q \<Longrightarrow> h n = None \<Longrightarrow> n \<notin> set (addrs xs)"
  using lseg_live by metis

lemma list_rep_fresh: "list_rep h l xs \<Longrightarrow> h n = None \<Longrightarrow> n \<notin> set (addrs xs)"
  by (auto simp: list_rep_def)

lemma list_rep_frame [simp]:
  "a \<notin> set (addrs xs) \<Longrightarrow> list_rep (h(a := v)) l xs \<longleftrightarrow> list_rep h l xs"
  by (simp add: list_rep_def)

lemma list_rep_size: "list_rep h l xs \<Longrightarrow> l_size l = int (length xs)"
  by (simp add: list_rep_def)

lemma list_rep_Nil: "list_rep h l [] \<longleftrightarrow> l_head l = None \<and> l_tail l = None \<and> l_size l = 0"
  by (auto simp: list_rep_def)

lemma list_init_rep [pres]: "list_rep h (list_init f) []"
  by (simp add: list_rep_Nil list_init_def)

lemma last_addr_in: "xs \<noteq> [] \<Longrightarrow> fst (last xs) \<in> set (addrs xs)"
  by (simp add: addrs_def)

section \<open>Insertion and removal on the abstract list\<close>

lemma ins_head [op_simps]:
  assumes "list_rep h l xs" "h n = None"
  obtains h' l' where "list_ins_next (Some n) h l None d = Inr (0, h', l')"
    "list_rep h' l' ((n, d) # xs)" "\<And>b. b \<noteq> n \<Longrightarrow> h' b = h b"
proof -
  have "n \<notin> set (addrs xs)" using assms by (rule list_rep_fresh)
  then show thesis
    using assms that
    by (auto simp: list_ins_next_def list_rep_def Let_def split: if_splits)
qed

lemma ins_after [op_simps]:
  assumes rep: "list_rep h l (ys @ (a, e) # zs)" and fresh: "h n = None"
  obtains h' l' where "list_ins_next (Some n) h l (Some a) d = Inr (0, h', l')"
    "list_rep h' l' (ys @ (a, e) # (n, d) # zs)" "\<And>b. b \<noteq> n \<Longrightarrow> b \<noteq> a \<Longrightarrow> h' b = h b"
proof -
  from rep fresh have n: "n \<notin> set (addrs (ys @ (a, e) # zs))" by (rule list_rep_fresh)
  from rep obtain nx where a: "h a = Some \<lparr>e_data = e, e_next = nx\<rparr>"
    and ys: "lseg h (l_head l) ys (Some a)" and zs: "lseg h nx zs None"
    by (auto simp: list_rep_def lseg_append)
  have nx: "nx = None \<longleftrightarrow> zs = []" using zs by (cases zs) auto
  let ?h = "h(n \<mapsto> \<lparr>e_data = d, e_next = nx\<rparr>, a \<mapsto> \<lparr>e_data = e, e_next = Some n\<rparr>)"
  let ?l = "(if zs = [] then l\<lparr>l_tail := Some n\<rparr> else l)\<lparr>l_size := l_size l + 1\<rparr>"
  have "list_ins_next (Some n) h l (Some a) d = Inr (0, ?h, ?l)"
    using a nx by (simp add: list_ins_next_def deref_def Let_def)
  moreover have "list_rep ?h ?l (ys @ (a, e) # (n, d) # zs)"
    using rep n a ys zs by (auto simp: list_rep_def lseg_append)
  ultimately show thesis by (rule that) auto
qed

lemma rem_head [op_simps]:
  assumes "list_rep h l ((a, d) # xs)"
  obtains l' where "list_rem_next h l None = Inr (0, Some d, h(a := None), l')"
    "list_rep (h(a := None)) l' xs" "l_destroy l' = l_destroy l"
proof -
  have "\<exists>l'. list_rem_next h l None = Inr (0, Some d, h(a := None), l') \<and>
             list_rep (h(a := None)) l' xs \<and> l_destroy l' = l_destroy l"
    using assms by (cases xs) (auto simp: list_rem_next_def deref_def list_rep_def Let_def)
  with that show thesis by blast
qed

lemma rem_after [op_simps]:
  assumes rep: "list_rep h l (ys @ (a, e) # (b, d) # zs)"
  obtains h' l' where "list_rem_next h l (Some a) = Inr (0, Some d, h', l')"
    "list_rep h' l' (ys @ (a, e) # zs)" "h' b = None" "\<And>c. c \<noteq> a \<Longrightarrow> c \<noteq> b \<Longrightarrow> h' c = h c"
proof -
  from rep obtain nx where a: "h a = Some \<lparr>e_data = e, e_next = Some b\<rparr>"
    and b: "h b = Some \<lparr>e_data = d, e_next = nx\<rparr>"
    and ys: "lseg h (l_head l) ys (Some a)" and zs: "lseg h nx zs None"
    by (auto simp: list_rep_def lseg_append)
  have nx: "nx = None \<longleftrightarrow> zs = []" using zs by (cases zs) auto
  let ?h = "h(a \<mapsto> \<lparr>e_data = e, e_next = nx\<rparr>, b := None)"
  let ?l = "(if zs = [] then l\<lparr>l_tail := Some a\<rparr> else l)\<lparr>l_size := l_size l - 1\<rparr>"
  have "l_size l \<noteq> 0" using list_rep_size [OF rep] by simp
  then have "list_rem_next h l (Some a) = Inr (0, Some d, ?h, ?l)"
    using a b nx by (simp add: list_rem_next_def deref_def Let_def)
  moreover have "list_rep ?h ?l (ys @ (a, e) # zs)"
    using rep a b ys zs by (auto simp: list_rep_def lseg_append)
  ultimately show thesis by (rule that) auto
qed

lemma rem_empty [op_simps]: "list_rep h l [] \<Longrightarrow> list_rem_next h l e = Inr (-1, None, h, l)"
  by (simp add: list_rem_next_def list_rep_Nil)

lemma rem_after_tail [op_simps]:
  assumes "list_rep h l (ys @ [(a, e)])"
  shows "list_rem_next h l (Some a) = Inr (-1, None, h, l)"
  using assms by (auto simp: list_rem_next_def deref_def list_rep_def lseg_append)

lemma list_destroy_rep:
  "list_rep h l xs \<Longrightarrow>
     list_destroy h l = Inr (if l_destroy l then map snd xs else [],
       (\<lambda>a. if a \<in> set (addrs xs) then None else h a),
       l\<lparr>l_size := 0, l_head := None, l_tail := None\<rparr>)"
proof (induction xs arbitrary: h l)
  case Nil
  then show ?case by (subst list_destroy.simps) (simp add: list_rep_Nil)
next
  case (Cons x xs)
  obtain a d where x: "x = (a, d)" by (cases x)
  define h1 where "h1 = h(a := None)"
  from Cons.prems x obtain l' where l': "list_rem_next h l None = Inr (0, Some d, h1, l')"
    "list_rep h1 l' xs" "l_destroy l' = l_destroy l"
    unfolding h1_def by (auto elim: rem_head)
  have "l_size l > 0" using list_rep_size [OF Cons.prems] by simp
  moreover have "(\<lambda>b. if b \<in> set (addrs xs) then None else h1 b) =
      (\<lambda>b. if b \<in> set (addrs (x # xs)) then None else h b)"
    using x by (auto simp: fun_eq_iff h1_def)
  moreover have "l'\<lparr>l_size := 0, l_head := None, l_tail := None\<rparr> =
      l\<lparr>l_size := 0, l_head := None, l_tail := None\<rparr>"
    using l'(3) by (cases l; cases l') simp
  ultimately show ?case
    using l'(1,3) Cons.IH [OF l'(2)] x by (subst list_destroy.simps) simp
qed

section \<open>Printing a well-formed list\<close>

fun prt_spec :: "char \<Rightarrow> nat \<Rightarrow> string list \<Rightarrow> string" where
  "prt_spec m i [] = []"
| "prt_spec m i (s # ss) = prt_line m i s (ss = []) @ prt_spec m (Suc i) ss"

lemma prt_loop_rep:
  "lseg h p xs None \<Longrightarrow> map snd xs = map Some ss \<Longrightarrow>
     prt_loop h m i p out = Some (Inr (out @ prt_spec m i ss))"
proof (induction xs arbitrary: p i ss out)
  case Nil
  then show ?case by (simp add: prt_loop.simps)
next
  case (Cons x xs)
  obtain a s ss' where s: "x = (a, Some s)" "ss = s # ss'"
    using Cons.prems(2) by (cases x; cases ss) auto
  with Cons.prems obtain nx where nx: "p = Some a" "h a = Some \<lparr>e_data = Some s, e_next = nx\<rparr>"
    "lseg h nx xs None" "map snd xs = map Some ss'" by auto
  have "nx = None \<longleftrightarrow> ss' = []" using nx by (cases xs) auto
  with nx s Cons.IH [OF nx(3,4)] show ?case by (simp add: prt_loop.simps)
qed

end
