(* ===== verification/Containers.thy ===== *)
theory Containers
  imports Linked_List
begin

text \<open>
  Project1/MyStack.c, MyStack.h, MyQueue.c, MyQueue.h and MyEvents.c over the linked list:
  the stack pushes and pops at the head, the queue inserts after the tail and removes at the
  head, and the event queue copies each event into a block of its own. The interface a client
  of a stack or a queue relies on is a locale; a sequence of client calls is proved once
  inside it to behave like the abstract sequence.
\<close>

section \<open>Stack and queue operations\<close>

text \<open>A list with its node store: what a \<open>List *\<close> reaches.\<close>

type_synonym 'd lstate = "'d store \<times> my_list"

definition stack_push :: "addr option \<Rightarrow> 'd lstate \<Rightarrow> 'd option \<Rightarrow> fault + int \<times> 'd lstate" where
  "stack_push m s d = list_ins_next m (fst s) (snd s) None d"

definition stack_pop :: "'d lstate \<Rightarrow> fault + int \<times> 'd option option \<times> 'd lstate" where
  "stack_pop s = list_rem_next (fst s) (snd s) None"

definition stack_peek :: "'d lstate \<Rightarrow> fault + 'd option" where
  "stack_peek s =
     (if l_head (snd s) = None then Inr None
      else and_then (deref (fst s) (l_head (snd s))) (\<lambda>el. Inr (e_data el)))"

definition queue_enqueue :: "addr option \<Rightarrow> 'd lstate \<Rightarrow> 'd option \<Rightarrow> fault + int \<times> 'd lstate" where
  "queue_enqueue m s d = list_ins_next m (fst s) (snd s) (l_tail (snd s)) d"

definition queue_dequeue :: "'d lstate \<Rightarrow> fault + int \<times> 'd option option \<times> 'd lstate" where
  "queue_dequeue s = list_rem_next (fst s) (snd s) None"

definition queue_peek :: "'d lstate \<Rightarrow> fault + 'd option" where
  "queue_peek s =
     (if l_head (snd s) = None then Inr None
      else and_then (deref (fst s) (l_head (snd s))) (\<lambda>el. Inr (e_data el)))"

definition lrep :: "'d lstate \<Rightarrow> 'd option list \<Rightarrow> bool" where
  "lrep s ds \<longleftrightarrow> finite (dom (fst s)) \<and> (\<exists>xs. list_rep (fst s) (snd s) xs \<and> map snd xs = ds)"

definition lfresh :: "'d lstate \<Rightarrow> addr \<Rightarrow> bool" where
  "lfresh s n \<longleftrightarrow> fst s n = None"

section \<open>Client programs\<close>

text \<open>
  A client inserts and removes in any order; \<open>Put d ok\<close> says whether malloc succeeded, and
  \<open>alloc\<close> chooses the address it returned. The outputs are the status codes with the data
  a removal wrote.
\<close>

datatype 'd cop = Put "'d option" bool | Take

fun client_run ::
  "('s \<Rightarrow> addr) \<Rightarrow> (addr option \<Rightarrow> 's \<Rightarrow> 'd option \<Rightarrow> fault + int \<times> 's) \<Rightarrow>
   ('s \<Rightarrow> fault + int \<times> 'd option option \<times> 's) \<Rightarrow> 's \<Rightarrow> 'd cop list \<Rightarrow>
   fault + (int \<times> 'd option option) list \<times> 's"
where
  "client_run alloc ins rem s [] = Inr ([], s)"
| "client_run alloc ins rem s (Put d ok # ops) =
     and_then (ins (if ok then Some (alloc s) else None) s d) (\<lambda>(r, s').
       and_then (client_run alloc ins rem s' ops) (\<lambda>(out, s''). Inr ((r, None) # out, s'')))"
| "client_run alloc ins rem s (Take # ops) =
     and_then (rem s) (\<lambda>(r, d, s').
       and_then (client_run alloc ins rem s' ops) (\<lambda>(out, s''). Inr ((r, d) # out, s'')))"

text \<open>The same program on an abstract sequence; \<open>put\<close> is where an insertion goes.\<close>

fun seq_run ::
  "('d option list \<Rightarrow> 'd option \<Rightarrow> 'd option list) \<Rightarrow> 'd option list \<Rightarrow> 'd cop list \<Rightarrow>
   (int \<times> 'd option option) list \<times> 'd option list"
where
  "seq_run put xs [] = ([], xs)"
| "seq_run put xs (Put d ok # ops) =
     (let (out, ys) = seq_run put (if ok then put xs d else xs) ops
      in ((if ok then 0 else -1, None) # out, ys))"
| "seq_run put [] (Take # ops) = (let (out, ys) = seq_run put [] ops in ((-1, None) # out, ys))"
| "seq_run put (x # xs) (Take # ops) = (let (out, ys) = seq_run put xs ops in ((0, Some x) # out, ys))"

section \<open>The interface\<close>

locale seq_container =
  fixes ins :: "addr option \<Rightarrow> 's \<Rightarrow> 'd option \<Rightarrow> fault + int \<times> 's"
    and rem :: "'s \<Rightarrow> fault + int \<times> 'd option option \<times> 's"
    and rep :: "'s \<Rightarrow> 'd option list \<Rightarrow> bool"
    and fresh :: "'s \<Rightarrow> addr \<Rightarrow> bool"
    and put :: "'d option list \<Rightarrow> 'd option \<Rightarrow> 'd option list"
  assumes ins_ok: "rep s xs \<Longrightarrow> fresh s n \<Longrightarrow> \<exists>s'. ins (Some n) s d = Inr (0, s') \<and> rep s' (put xs d)"
    and ins_no_memory: "ins None s d = Inr (-1, s)"
    and rem_ok: "rep s (x # xs) \<Longrightarrow> \<exists>s'. rem s = Inr (0, Some x, s') \<and> rep s' xs"
    and rem_nothing: "rep s [] \<Longrightarrow> rem s = Inr (-1, None, s)"
begin

text \<open>Every client program returns, without a fault, what the abstract sequence returns.\<close>

lemma client_refines:
  assumes fresh: "\<And>s xs. rep s xs \<Longrightarrow> fresh s (alloc s)"
  shows "rep s xs \<Longrightarrow>
    \<exists>s'. client_run alloc ins rem s ops = Inr (fst (seq_run put xs ops), s') \<and>
         rep s' (snd (seq_run put xs ops))"
proof (induction ops arbitrary: s xs)
  case Nil
  then show ?case by auto
next
  case (Cons x ops)
  show ?case
  proof (cases x)
    case (Put d ok)
    obtain s1 where s1: "ins (if ok then Some (alloc s) else None) s d = Inr (if ok then 0 else -1, s1)"
      "rep s1 (if ok then put xs d else xs)"
      using ins_ok [OF Cons.prems fresh [OF Cons.prems], of d] ins_no_memory Cons.prems
      by (cases ok) auto
    from Cons.IH [OF s1(2)] s1(1) Put show ?thesis by (auto simp: split_beta)
  next
    case Take
    show ?thesis
    proof (cases xs)
      case Nil
      with Cons.IH [OF Cons.prems] rem_nothing Cons.prems Take show ?thesis by (auto simp: split_beta)
    next
      case (Cons y ys)
      then obtain s1 where s1: "rem s = Inr (0, Some y, s1)" "rep s1 ys"
        using rem_ok Cons.prems by blast
      from Cons.IH [OF s1(2)] s1(1) Cons Take show ?thesis by (auto simp: split_beta)
    qed
  qed
qed

end

text \<open>A queue inserts at the back, a stack at the front.\<close>

locale fifo = seq_container ins rem rep fresh "\<lambda>xs d. xs @ [d]"
  for ins :: "addr option \<Rightarrow> 's \<Rightarrow> 'd option \<Rightarrow> fault + int \<times> 's" and rem rep fresh

locale lifo = seq_container ins rem rep fresh "\<lambda>xs d. d # xs"
  for ins :: "addr option \<Rightarrow> 's \<Rightarrow> 'd option \<Rightarrow> fault + int \<times> 's" and rem rep fresh

section \<open>The list provides both\<close>

lemma lrep_rem_front:
  assumes "lrep s (x # xs)"
  shows "\<exists>s'. list_rem_next (fst s) (snd s) None = Inr (0, Some x, s') \<and> lrep s' xs"
proof -
  obtain ys where ys: "finite (dom (fst s))" "list_rep (fst s) (snd s) ys" "map snd ys = x # xs"
    using assms by (auto simp: lrep_def)
  then obtain a zs where "ys = (a, x) # zs" by (cases ys) auto
  with ys show ?thesis by (auto simp: lrep_def elim!: rem_head)
qed

lemma lrep_rem_empty: "lrep s [] \<Longrightarrow> list_rem_next (fst s) (snd s) None = Inr (-1, None, s)"
  by (cases s) (auto simp: lrep_def rem_empty)

lemma finite_dom_diff: "finite (dom h) \<Longrightarrow> (\<And>b. b \<notin> A \<Longrightarrow> h' b = h b) \<Longrightarrow> finite A \<Longrightarrow> finite (dom h')"
  by (rule finite_subset [of _ "dom h \<union> A"]) (auto simp: dom_def)

lemma stack_push_rep:
  assumes "lrep s xs" "lfresh s n"
  shows "\<exists>s'. stack_push (Some n) s d = Inr (0, s') \<and> lrep s' (d # xs)"
proof -
  obtain ys where ys: "finite (dom (fst s))" "list_rep (fst s) (snd s) ys" "map snd ys = xs"
    using assms(1) by (auto simp: lrep_def)
  obtain h' l' where r: "list_ins_next (Some n) (fst s) (snd s) None d = Inr (0, h', l')"
    "list_rep h' l' ((n, d) # ys)" "\<And>b. b \<noteq> n \<Longrightarrow> h' b = fst s b"
    using ins_head [OF ys(2), of n] assms(2) unfolding lfresh_def by metis
  have "finite (dom h')" by (rule finite_dom_diff [OF ys(1), of "{n}"]) (use r(3) in auto)
  with r(1,2) ys(3) show ?thesis by (fastforce simp: stack_push_def lrep_def)
qed

lemma queue_enqueue_rep:
  assumes "lrep s xs" "lfresh s n"
  shows "\<exists>s'. queue_enqueue (Some n) s d = Inr (0, s') \<and> lrep s' (xs @ [d])"
proof -
  obtain ys where ys: "finite (dom (fst s))" "list_rep (fst s) (snd s) ys" "map snd ys = xs"
    using assms(1) by (auto simp: lrep_def)
  show ?thesis
  proof (cases ys rule: rev_cases)
    case Nil
    then have "l_tail (snd s) = None" using ys(2) by (simp add: list_rep_Nil)
    then show ?thesis using stack_push_rep [OF assms, of d] ys(3) Nil
      by (simp add: stack_push_def queue_enqueue_def)
  next
    case (snoc zs x)
    obtain a e where x: "x = (a, e)" by (cases x)
    have rep: "list_rep (fst s) (snd s) (zs @ (a, e) # [])" using ys(2) snoc x by simp
    then have tail: "l_tail (snd s) = Some a" by (simp add: list_rep_def)
    obtain h' l' where r: "list_ins_next (Some n) (fst s) (snd s) (Some a) d = Inr (0, h', l')"
      "list_rep h' l' (zs @ (a, e) # (n, d) # [])" "\<And>b. b \<noteq> n \<Longrightarrow> b \<noteq> a \<Longrightarrow> h' b = fst s b"
      using ins_after [OF rep, of n] assms(2) unfolding lfresh_def by metis
    have "finite (dom h')" by (rule finite_dom_diff [OF ys(1), of "{n, a}"]) (use r(3) in auto)
    with r(1,2) tail ys(3) snoc x show ?thesis by (fastforce simp: queue_enqueue_def lrep_def)
  qed
qed

lemma no_memory: "stack_push None s d = Inr (-1, s)" "queue_enqueue None s d = Inr (-1, s)"
  by (simp_all add: stack_push_def queue_enqueue_def list_ins_next_def)

lemma pop_rep:
  "lrep s (x # xs) \<Longrightarrow> \<exists>s'. stack_pop s = Inr (0, Some x, s') \<and> lrep s' xs"
  "lrep s [] \<Longrightarrow> stack_pop s = Inr (-1, None, s)"
  unfolding stack_pop_def by (rule lrep_rem_front, assumption) (rule lrep_rem_empty)

lemma queue_dequeue_eq: "queue_dequeue = stack_pop"
  by (simp add: fun_eq_iff queue_dequeue_def stack_pop_def)

interpretation mq: fifo queue_enqueue queue_dequeue lrep lfresh
  unfolding queue_dequeue_eq
  by unfold_locales (rule queue_enqueue_rep no_memory pop_rep; assumption?)+

interpretation ms: lifo stack_push stack_pop lrep lfresh
  by unfold_locales (rule stack_push_rep no_memory pop_rep; assumption?)+

lemma peek_rep:
  "lrep s ds \<Longrightarrow> stack_peek s = Inr (case ds of [] \<Rightarrow> None | d # _ \<Rightarrow> d) \<and> queue_peek s = stack_peek s"
  by (cases ds) (auto simp: lrep_def stack_peek_def queue_peek_def list_rep_Nil list_rep_def deref_def)

section \<open>The event queue\<close>

text \<open>
  MyEvents.c: \<open>receive_event\<close> copies the event into a malloc'ed block (\<open>m\<close> is that malloc's
  result, \<open>m'\<close> that of the node) and enqueues the block; \<open>process_event\<close> dequeues a block,
  dispatches the event in it and frees the block. Its result holds the event it dispatched.
\<close>

record 'e ev_state =
  ev_heap :: "addr \<Rightarrow> 'e option"
  ev_queue :: "addr lstate"

definition receive_event ::
  "addr option \<Rightarrow> addr option \<Rightarrow> 'e ev_state \<Rightarrow> 'e \<Rightarrow> fault + int \<times> 'e ev_state"
where
  "receive_event m m' st event =
     (case m of None \<Rightarrow> Inr (-1, st)
      | Some a \<Rightarrow>
          let st1 = st\<lparr>ev_heap := (ev_heap st)(a \<mapsto> event)\<rparr>
          in and_then (queue_enqueue m' (ev_queue st1) (Some a)) (\<lambda>(r, q).
               Inr (if r \<noteq> 0 then -1 else 0, st1\<lparr>ev_queue := q\<rparr>)))"

definition process_event :: "'e ev_state \<Rightarrow> fault + int \<times> 'e option \<times> 'e ev_state" where
  "process_event st =
     (if l_size (snd (ev_queue st)) < 1 then Inr (-1, None, st)
      else and_then (queue_dequeue (ev_queue st)) (\<lambda>(r, d, q).
        if r \<noteq> 0 then Inr (-1, None, st\<lparr>ev_queue := q\<rparr>)
        else case d of None \<Rightarrow> Inl Uninitialised
          | Some None \<Rightarrow> Inl NullDeref
          | Some (Some a) \<Rightarrow>
              (case ev_heap st a of None \<Rightarrow> Inl Dangling
               | Some event \<Rightarrow>
                   Inr (0, Some event, st\<lparr>ev_queue := q, ev_heap := (ev_heap st)(a := None)\<rparr>))))"

text \<open>
  The pending events of a state: the queue holds the addresses of pairwise distinct blocks,
  the blocks hold the events, and no other block is live.
\<close>

definition ev_rep :: "'e ev_state \<Rightarrow> 'e list \<Rightarrow> bool" where
  "ev_rep st evs \<longleftrightarrow>
     (\<exists>as. lrep (ev_queue st) (map Some as) \<and> distinct as \<and>
           map (ev_heap st) as = map Some evs \<and> dom (ev_heap st) = set as)"

lemma lrep_size: "lrep s ds \<Longrightarrow> l_size (snd s) = int (length ds)"
  by (auto simp: lrep_def dest: list_rep_size)

lemma receive_event_rep:
  assumes "ev_rep st evs" "ev_heap st a = None" "lfresh (ev_queue st) n"
  shows "\<exists>st'. receive_event (Some a) (Some n) st e = Inr (0, st') \<and> ev_rep st' (evs @ [e])"
proof -
  obtain as where as: "lrep (ev_queue st) (map Some as)" "distinct as"
    "map (ev_heap st) as = map Some evs" "dom (ev_heap st) = set as"
    using assms(1) by (auto simp: ev_rep_def)
  have a: "a \<notin> set as" using as(4) assms(2) by auto
  obtain q where q: "queue_enqueue (Some n) (ev_queue st) (Some a) = Inr (0, q)"
    "lrep q (map Some as @ [Some a])"
    using queue_enqueue_rep [OF as(1) assms(3)] by blast
  have "map ((ev_heap st)(a \<mapsto> e)) (as @ [a]) = map Some (evs @ [e])"
    using as(3) a by (auto simp: map_eq_conv)
  then have "ev_rep (st\<lparr>ev_heap := (ev_heap st)(a \<mapsto> e), ev_queue := q\<rparr>) (evs @ [e])"
    unfolding ev_rep_def using q(2) as a by (intro exI [of _ "as @ [a]"]) auto
  with q(1) show ?thesis by (simp add: receive_event_def Let_def)
qed

text \<open>
  When the node cannot be allocated, -1 is returned and the event's block stays live though no
  queue entry reaches it.
\<close>

lemma receive_event_no_node:
  "receive_event (Some a) None st e = Inr (-1, st\<lparr>ev_heap := (ev_heap st)(a \<mapsto> e)\<rparr>)"
  by (simp add: receive_event_def no_memory)

lemma process_event_rep:
  assumes "ev_rep st (e # evs)"
  shows "\<exists>st'. process_event st = Inr (0, Some e, st') \<and> ev_rep st' evs"
proof -
  obtain as where as: "lrep (ev_queue st) (map Some as)" "distinct as"
    "map (ev_heap st) as = Some e # map Some evs" "dom (ev_heap st) = set as"
    using assms unfolding ev_rep_def list.map by (elim exE conjE) (rule that)
  then obtain a bs where bs: "as = a # bs" "ev_heap st a = Some e" "map (ev_heap st) bs = map Some evs"
    by (cases as) auto
  have front: "lrep (ev_queue st) (Some a # map Some bs)" using as(1) bs(1) by simp
  from pop_rep(1) [OF front] obtain q where
    q: "queue_dequeue (ev_queue st) = Inr (0, Some (Some a), q)" "lrep q (map Some bs)"
    unfolding queue_dequeue_eq by blast
  have "map ((ev_heap st)(a := None)) bs = map Some evs"
    using bs as(2) by (auto simp: map_eq_conv)
  then have "ev_rep (st\<lparr>ev_queue := q, ev_heap := (ev_heap st)(a := None)\<rparr>) evs"
    unfolding ev_rep_def using q(2) as(2,4) bs(1) by (intro exI [of _ bs]) auto
  moreover have "l_size (snd (ev_queue st)) \<ge> 1" using lrep_size [OF as(1)] bs(1) by simp
  ultimately show ?thesis using q(1) bs(2) by (simp add: process_event_def)
qed

lemma process_event_none: "ev_rep st [] \<Longrightarrow> process_event st = Inr (-1, None, st)"
  by (auto simp: ev_rep_def process_event_def dest: lrep_size)

text \<open>A loop that processes \<open>n\<close> events, and the events it dispatched.\<close>

fun process_events :: "nat \<Rightarrow> 'e ev_state \<Rightarrow> fault + 'e list \<times> 'e ev_state" where
  "process_events 0 st = Inr ([], st)"
| "process_events (Suc n) st =
     and_then (process_event st) (\<lambda>(r, e, st').
       and_then (process_events n st') (\<lambda>(es, st'').
         Inr ((case e of None \<Rightarrow> es | Some x \<Rightarrow> x # es), st'')))"

lemma process_events_all:
  "ev_rep st evs \<Longrightarrow> \<exists>st'. process_events (length evs) st = Inr (evs, st') \<and> ev_rep st' []"
proof (induction evs arbitrary: st)
  case Nil
  then show ?case by auto
next
  case (Cons e evs)
  from process_event_rep [OF Cons.prems] obtain st1 where
    st1: "process_event st = Inr (0, Some e, st1)" "ev_rep st1 evs" by blast
  from Cons.IH [OF st1(2)] st1(1) show ?case by auto
qed

section \<open>Properties\<close>

text \<open>
  What the C standard promises of malloc: the block it returns is not in use. The least
  address that holds no node is such an allocator.
\<close>

definition malloc_ok :: "('d store \<Rightarrow> addr) \<Rightarrow> bool" where
  "malloc_ok alloc \<longleftrightarrow> (\<forall>h. finite (dom h) \<longrightarrow> h (alloc h) = None)"

definition least_free :: "'d store \<Rightarrow> addr" where
  "least_free h = (LEAST n. h n = None)"

lemma least_free_fresh: "malloc_ok least_free"
  unfolding malloc_ok_def least_free_def
  by (intro allI impI) (rule LeastI_ex, metis domIff ex_new_if_finite infinite_UNIV_nat)

definition empty_state :: "'d lstate" where
  "empty_state = (Map.empty, list_init True)"

lemma lrep_empty_state: "lrep empty_state []"
  by (auto simp: lrep_def empty_state_def intro!: exI [of _ "[]"] list_init_rep)

lemma lrep_fresh: "malloc_ok alloc \<Longrightarrow> lrep s ds \<Longrightarrow> lfresh s (alloc (fst s))"
  by (auto simp: malloc_ok_def lrep_def lfresh_def)

text \<open>Insertion and removal through the pointer interface act on the abstract sequence at the
  position the element pointer names: inserting after a node puts the new data right behind
  it, and removing after that node gives the data back and restores the sequence, leaving
  every node not involved untouched and the removed node freed.
\<close>

theorem list_insert_remove_after:
  assumes "list_rep h l (ys @ (a, e) # zs)" and "h n = None"
  shows "\<exists>h1 l1. list_ins_next (Some n) h l (Some a) d = Inr (0, h1, l1) \<and>
           list_rep h1 l1 (ys @ (a, e) # (n, d) # zs) \<and>
           (\<exists>h2 l2. list_rem_next h1 l1 (Some a) = Inr (0, Some d, h2, l2) \<and>
              list_rep h2 l2 (ys @ (a, e) # zs) \<and> h2 n = None \<and>
              (\<forall>b. b \<noteq> a \<and> b \<noteq> n \<longrightarrow> h2 b = h b))"
proof -
  obtain h1 l1 where i: "list_ins_next (Some n) h l (Some a) d = Inr (0, h1, l1)"
    "list_rep h1 l1 (ys @ (a, e) # (n, d) # zs)" "\<And>b. b \<noteq> n \<Longrightarrow> b \<noteq> a \<Longrightarrow> h1 b = h b"
    using ins_after [OF assms] by metis
  obtain h2 l2 where r: "list_rem_next h1 l1 (Some a) = Inr (0, Some d, h2, l2)"
    "list_rep h2 l2 (ys @ (a, e) # zs)" "h2 n = None" "\<And>c. c \<noteq> a \<Longrightarrow> c \<noteq> n \<Longrightarrow> h2 c = h1 c"
    using rem_after [OF i(2)] by metis
  have "\<forall>b. b \<noteq> a \<and> b \<noteq> n \<longrightarrow> h2 b = h b" using i(3) r(4) by simp
  with i(1,2) r(1-3) show ?thesis by (intro exI conjI)
qed

definition two_nodes :: "nat store" where
  "two_nodes = [0 \<mapsto> \<lparr>e_data = Some 10, e_next = Some 1\<rparr>, 1 \<mapsto> \<lparr>e_data = Some 20, e_next = None\<rparr>]"

definition two_list :: my_list where
  "two_list = \<lparr>l_size = 2, l_destroy = True, l_head = Some 0, l_tail = Some 1\<rparr>"

lemma two_list_rep: "list_rep two_nodes two_list [(0, Some 10), (1, Some 20)]"
  by (simp add: list_rep_def two_nodes_def two_list_def)

theorem list_insert_remove_after_witness:
  "\<exists>h1 l1. list_ins_next (Some 7) two_nodes two_list (Some 0) (Some 15) = Inr (0, h1, l1) \<and>
     list_rep h1 l1 [(0, Some 10), (7, Some 15), (1, Some 20)]"
  using list_insert_remove_after [of two_nodes two_list "[]" 0 "Some 10" "[(1, Some 20)]" 7 "Some 15"]
    two_list_rep by (auto simp: two_nodes_def)

text \<open>Destroying a well-formed list terminates, hands every data pointer to the destroy
  function exactly once in list order, frees every node of the list and no other node, and
  leaves an empty header.
\<close>

theorem list_destroy_frees_all:
  assumes "list_rep h l xs" and "l_destroy l"
  shows "\<exists>h' l'. list_destroy h l = Inr (map snd xs, h', l') \<and> list_rep h' l' [] \<and>
           (\<forall>a. h' a = (if a \<in> set (addrs xs) then None else h a))"
  using list_destroy_rep [OF assms(1)] assms(2) by (simp add: list_rep_Nil)

theorem list_destroy_frees_all_witness:
  "\<exists>h' l'. list_destroy two_nodes two_list = Inr ([Some 10, Some 20], h', l') \<and> h' 0 = None \<and> h' 1 = None"
  using list_destroy_frees_all [OF two_list_rep] by (auto simp: two_list_def)

text \<open>
  C11. Any sequence of enqueues and dequeues on the linked-list queue returns, status by status
  and datum by datum, what the same sequence returns on an abstract first-in-first-out list,
  failed allocations included, and never faults; malloc only has to return a block that is
  not in use.
\<close>

theorem queue_client_fifo:
  assumes "malloc_ok alloc" and "lrep s ds"
  shows "\<exists>s'. client_run (\<lambda>s. alloc (fst s)) queue_enqueue queue_dequeue s ops =
               Inr (fst (seq_run (\<lambda>xs d. xs @ [d]) ds ops), s') \<and>
             lrep s' (snd (seq_run (\<lambda>xs d. xs @ [d]) ds ops))"
  by (rule mq.client_refines [OF lrep_fresh [OF assms(1)] assms(2)])

theorem queue_client_fifo_witness:
  "\<exists>s'. client_run (\<lambda>s. least_free (fst s)) queue_enqueue queue_dequeue (empty_state :: nat lstate)
     [Put (Some 1) True, Put (Some 2) True, Put (Some 3) False, Take, Take, Take] =
     Inr ([(0, None), (0, None), (-1, None), (0, Some (Some 1)), (0, Some (Some 2)), (-1, None)], s')"
  using queue_client_fifo [where alloc = least_free and s = empty_state and ds = "[]" and
      ops = "[Put (Some (1 :: nat)) True, Put (Some 2) True, Put (Some 3) False, Take, Take, Take]",
      OF least_free_fresh lrep_empty_state]
  by (auto simp del: client_run.simps)

text \<open>Any sequence of pushes and pops on the linked-list stack returns what the same sequence
  returns on an abstract last-in-first-out list, failed allocations included, and never faults.
\<close>

theorem stack_client_lifo:
  assumes "malloc_ok alloc" and "lrep s ds"
  shows "\<exists>s'. client_run (\<lambda>s. alloc (fst s)) stack_push stack_pop s ops =
               Inr (fst (seq_run (\<lambda>xs d. d # xs) ds ops), s') \<and>
             lrep s' (snd (seq_run (\<lambda>xs d. d # xs) ds ops))"
  by (rule ms.client_refines [OF lrep_fresh [OF assms(1)] assms(2)])

theorem stack_client_lifo_witness:
  "\<exists>s'. client_run (\<lambda>s. least_free (fst s)) stack_push stack_pop (empty_state :: nat lstate)
     [Put (Some 1) True, Put (Some 2) True, Take, Put (Some 3) True, Take, Take, Take] =
     Inr ([(0, None), (0, None), (0, Some (Some 2)), (0, None), (0, Some (Some 3)),
           (0, Some (Some 1)), (-1, None)], s')"
  using stack_client_lifo [where alloc = least_free and s = empty_state and ds = "[]" and
      ops = "[Put (Some (1 :: nat)) True, Put (Some 2) True, Take, Put (Some 3) True, Take, Take, Take]",
      OF least_free_fresh lrep_empty_state]
  by (auto simp del: client_run.simps)

text \<open>An event that is received is dispatched exactly once, after every event received before
  it, and processing all pending events frees every event block.
\<close>

theorem events_in_order:
  assumes "ev_rep st evs" and "ev_heap st a = None" and "lfresh (ev_queue st) n"
  shows "\<exists>st1 st2. receive_event (Some a) (Some n) st e = Inr (0, st1) \<and>
           process_events (Suc (length evs)) st1 = Inr (evs @ [e], st2) \<and> ev_heap st2 = Map.empty"
proof -
  obtain st1 where st1: "receive_event (Some a) (Some n) st e = Inr (0, st1)" "ev_rep st1 (evs @ [e])"
    using receive_event_rep [OF assms] by blast
  obtain st2 where "process_events (length (evs @ [e])) st1 = Inr (evs @ [e], st2)" "ev_rep st2 []"
    using process_events_all [OF st1(2)] by blast
  with st1(1) show ?thesis by (auto simp: ev_rep_def)
qed

theorem events_in_order_witness:
  "\<exists>st1 st2. receive_event (Some 4) (Some 9) \<lparr>ev_heap = Map.empty, ev_queue = empty_state\<rparr> (5 :: int) = Inr (0, st1) \<and>
     process_events 1 st1 = Inr ([5], st2)"
proof -
  have "ev_rep \<lparr>ev_heap = Map.empty, ev_queue = empty_state\<rparr> ([] :: int list)"
    by (simp add: ev_rep_def lrep_empty_state)
  from events_in_order [OF this, of 4 9 5] show ?thesis
    by (auto simp: lfresh_def empty_state_def)
qed

end
