(* ===== verification/Text_Input.thy ===== *)
theory Text_Input
  imports Prelude "HOL-Library.Sublist"
begin

text \<open>
  The standard library's text functions as the programs use them (atoi, strpbrk, strtok, rfind,
  tolower, extraction of an int from a stream), with the code that is built from them:
  MyUtil/MyString.c (strsep), Project1/Exec02.c (the line tokenizer) and the vowel search in the
  main of Project1/MyTestMain01.cpp.
\<close>

section \<open>Library functions\<close>

definition is_space :: "char \<Rightarrow> bool" where
  "is_space c \<longleftrightarrow> (of_char c :: nat) \<in> {9, 10, 11, 12, 13, 32}"

definition atoi :: "string \<Rightarrow> int" where
  "atoi s =
     (case dropWhile is_space s of
        [] \<Rightarrow> 0
      | c # cs \<Rightarrow> if c = CHR ''-'' then - int (read_digits 0 cs)
                  else if c = CHR ''+'' then int (read_digits 0 cs)
                  else int (read_digits 0 (c # cs)))"

definition to_lower :: "char \<Rightarrow> char" where
  "to_lower c = (if 65 \<le> (of_char c :: nat) \<and> (of_char c :: nat) \<le> 90 then char_of ((of_char c :: nat) + 32) else c)"

text \<open>\<open>string::rfind\<close>: the last position of a non-empty word.\<close>

definition rfind :: "string \<Rightarrow> string \<Rightarrow> nat option" where
  "rfind s w = (let ks = filter (\<lambda>k. prefix w (drop k s)) [0..<length s]
                in if ks = [] then None else Some (last ks))"

text \<open>
  \<open>stream >> int\<close>: at the end of the text the variable keeps its value, text that is no number
  stores 0, a number out of range stores the nearest bound; all three fail.
\<close>

datatype extraction = AtEnd | NotNumber | OutOfRange int | Number int string

definition extract_int :: "string \<Rightarrow> extraction" where
  "extract_int s =
     (let s1 = dropWhile is_space s
      in if s1 = [] then AtEnd
         else let neg = (hd s1 = CHR ''-'');
                  s2 = (if hd s1 = CHR ''-'' \<or> hd s1 = CHR ''+'' then tl s1 else s1);
                  ds = takeWhile is_digit s2;
                  v = (if neg then - int (read_digits 0 ds) else int (read_digits 0 ds))
              in if ds = [] then NotNumber
                 else if v < - (2 ^ 31) then OutOfRange (- (2 ^ 31))
                 else if v \<ge> 2 ^ 31 then OutOfRange (2 ^ 31 - 1)
                 else Number v (dropWhile is_digit s2))"

lemma dropWhile_shorter: "takeWhile P s \<noteq> [] \<Longrightarrow> length (dropWhile P s) < length s"
  by (metis append_Nil length_0_conv length_append less_add_same_cancel2 length_greater_0_conv takeWhile_dropWhile_id)

lemma extract_int_shorter:
  assumes "extract_int s = Number v rest"
  shows "length rest < length s"
proof -
  let ?s1 = "dropWhile is_space s"
  let ?s2 = "if hd ?s1 = CHR ''-'' \<or> hd ?s1 = CHR ''+'' then tl ?s1 else ?s1"
  have "takeWhile is_digit ?s2 \<noteq> []" "rest = dropWhile is_digit ?s2"
    using assms by (auto simp: extract_int_def Let_def split: if_splits)
  then have "length rest < length ?s2" using dropWhile_shorter by blast
  also have "length ?s2 \<le> length ?s1" by (simp add: le_diff_conv)
  also have "\<dots> \<le> length s" by (rule length_dropWhile_le)
  finally show ?thesis .
qed

text \<open>\<open>while (stream >> v)\<close>: the numbers read before the first failure.\<close>

function extract_ints :: "string \<Rightarrow> int list" where
  "extract_ints s = (case extract_int s of Number v rest \<Rightarrow> v # extract_ints rest | _ \<Rightarrow> [])"
  by pat_completeness auto
termination
  by (relation "measure length") (auto dest: extract_int_shorter)

declare extract_ints.simps [simp del]

text \<open>strtok: the next token and what is left of the line after it.\<close>

definition strtok :: "string \<Rightarrow> string \<Rightarrow> (string \<times> string) option" where
  "strtok delims s =
     (let s1 = dropWhile (\<lambda>c. c \<in> set delims) s
      in if s1 = [] then None
         else Some (takeWhile (\<lambda>c. c \<notin> set delims) s1, tl (dropWhile (\<lambda>c. c \<notin> set delims) s1)))"

lemma strtok_shorter:
  assumes "strtok delims s = Some (tok, rest)"
  shows "length rest < length s"
proof -
  let ?s1 = "dropWhile (\<lambda>c. c \<in> set delims) s"
  have ne: "?s1 \<noteq> []" and rest: "rest = tl (dropWhile (\<lambda>c. c \<notin> set delims) ?s1)"
    using assms by (auto simp: strtok_def Let_def split: if_splits)
  have "hd ?s1 \<notin> set delims" using ne hd_dropWhile by blast
  then have "takeWhile (\<lambda>c. c \<notin> set delims) ?s1 \<noteq> []" using ne by (cases ?s1) auto
  then have "length (dropWhile (\<lambda>c. c \<notin> set delims) ?s1) < length ?s1" by (rule dropWhile_shorter)
  then have "length rest < length ?s1" unfolding rest by simp
  also have "\<dots> \<le> length s" by (rule length_dropWhile_le)
  finally show ?thesis .
qed

text \<open>strpbrk from position \<open>i\<close> of a buffer: stops at the NUL or at a character of \<open>key\<close>.\<close>

function strpbrk :: "string \<Rightarrow> int \<Rightarrow> string \<Rightarrow> fault + int option" where
  "strpbrk buf i key =
     and_then (rd buf i) (\<lambda>c.
       if c = NUL then Inr None
       else if c \<in> set key then Inr (Some i)
       else strpbrk buf (i + 1) key)"
  by pat_completeness auto
termination
  by (relation "measure (\<lambda>(buf, i, _). nat (int (length buf) - i))") (auto simp: rd_def in_range_def split: if_splits)

declare strpbrk.simps [simp del]

lemma strpbrk_from: "strpbrk buf i key = Inr (Some q) \<Longrightarrow> i \<le> q"
proof (induction buf i key arbitrary: q rule: strpbrk.induct)
  case (1 buf i key)
  from "1.prems" show ?case
    by (subst (asm) strpbrk.simps) (auto simp: and_then_Inr_iff split: if_splits dest!: "1.IH")
qed

section \<open>The line tokenizer\<close>

text \<open>What Exec02's main prints for one line: every token on a line of its own.\<close>

function puts_tokens :: "string \<Rightarrow> string" where
  "puts_tokens s =
     (case strtok [CHR '' '', CHR 0x0A] s of
        None \<Rightarrow> []
      | Some (tok, rest) \<Rightarrow> tok @ CHR 0x0A # puts_tokens rest)"
  by pat_completeness auto
termination
  by (relation "measure length") (auto dest: strtok_shorter)

declare puts_tokens.simps [simp del]

text \<open>
  fgets hands out at most 499 characters at a time, up to and including a newline; \<open>n\<close> bounds
  the pieces by the length of the input.
\<close>

definition fgets_piece :: "nat \<Rightarrow> string \<Rightarrow> string \<times> string" where
  "fgets_piece siz inp =
     (let line = takeWhile (\<lambda>c. c \<noteq> CHR 0x0A) inp;
          full = (if length line < length inp then line @ [CHR 0x0A] else line);
          piece = take (siz - 1) full
      in (piece, drop (length piece) inp))"

lemma fgets_piece_shorter: "inp \<noteq> [] \<Longrightarrow> 1 < siz \<Longrightarrow> length (snd (fgets_piece siz inp)) < length inp"
  by (cases inp) (auto simp: fgets_piece_def Let_def)

function exec02_main :: "string \<Rightarrow> string" where
  "exec02_main inp =
     (if inp = [] then []
      else puts_tokens (cstr (fst (fgets_piece 500 inp))) @ exec02_main (snd (fgets_piece 500 inp)))"
  by pat_completeness auto
termination
  by (relation "measure length") (auto intro: fgets_piece_shorter)

declare exec02_main.simps [simp del]

section \<open>strsep\<close>

text \<open>
  The buffer and \<open>*string\<close>, a position in it or NULL. The result is the returned pointer, the
  buffer and the new \<open>*string\<close>.
\<close>

definition strsep :: "string \<Rightarrow> int option \<Rightarrow> string \<Rightarrow> fault + int option \<times> string \<times> int option" where
  "strsep buf string delim =
     (let start = string
      in and_then (case start of None \<Rightarrow> Inr None | Some i \<Rightarrow> strpbrk buf i delim) (\<lambda>p.
           case p of
             None \<Rightarrow> Inr (start, buf, None)
           | Some k \<Rightarrow> and_then (wr buf k NUL) (\<lambda>buf1. Inr (start, buf1, Some (k + 1)))))"

section \<open>The vowel search\<close>

text \<open>
  \<open>pch = strpbrk(pch + (i++), key)\<close> until it is NULL, with a line for each hit; a step of the
  loop is bounded by \<open>fuel\<close>, which 24 covers: the positions grow by at least 1. The format \<open>%p:%zu\<close> has an argument
  for the pointer only; \<open>shown\<close> is what it prints at a position.
\<close>

definition vowel_hit :: "(int \<Rightarrow> string) \<Rightarrow> int \<Rightarrow> char \<Rightarrow> int \<Rightarrow> string" where
  "vowel_hit shown i c pch = ''['' @ dec_int i @ '']='' @ [c] @ '' : '' @ shown pch @ [CHR 0x0A]"

fun vowel_loop :: "(int \<Rightarrow> string) \<Rightarrow> nat \<Rightarrow> string \<Rightarrow> string \<Rightarrow> int \<Rightarrow> int \<Rightarrow> string \<Rightarrow> fault + string" where
  "vowel_loop shown 0 str key pch i out = Inr out"
| "vowel_loop shown (Suc fuel) str key pch i out =
     and_then (strpbrk str (pch + i) key) (\<lambda>p.
       case p of
         None \<Rightarrow> Inr out
       | Some q \<Rightarrow> and_then (rd str q) (\<lambda>c. vowel_loop shown fuel str key q (i + 1) (out @ vowel_hit shown (i + 1) c q)))"

definition vowel_str :: string where "vowel_str = ''This is a sample string'' @ [NUL]"

definition vowel_head :: string where
  "vowel_head = ''Vowels '' @ [CHR 0x22] @ ''aeiou'' @ [CHR 0x22] @ '' in '' @ [CHR 0x27] @ cstr vowel_str @ [CHR 0x27] @
     '':'' @ [CHR 0x0A]"

definition vowels_main :: "(int \<Rightarrow> string) \<Rightarrow> fault + string" where
  "vowels_main shown =
     and_then (vowel_loop shown 24 vowel_str ''aeiou'' 0 0 vowel_head) (\<lambda>out. Inr (out @ [CHR 0x0A]))"

text \<open>The loop that is switched off above it.\<close>

function all_vowels :: "string \<Rightarrow> string \<Rightarrow> int \<Rightarrow> fault + string" where
  "all_vowels str key pos =
     and_then (strpbrk str pos key) (\<lambda>p.
       case p of
         None \<Rightarrow> Inr []
       | Some q \<Rightarrow>
           and_then (rd str q) (\<lambda>c.
           and_then (all_vowels str key (q + 1)) (\<lambda>out. Inr (c # CHR '' '' # out))))"
  by pat_completeness auto
termination
  by (relation "measure (\<lambda>(str, _, pos). nat (int (length str) - pos))")
    (auto simp: rd_def in_range_def split: if_splits dest: strpbrk_from)

declare all_vowels.simps [simp del]

section \<open>Fields of a text\<close>

text \<open>The specification of both tokenizers: the text between delimiters, empty fields included.\<close>

fun fields :: "string \<Rightarrow> string \<Rightarrow> string list" where
  "fields delims [] = [[]]"
| "fields delims (c # cs) =
     (if c \<in> set delims then [] # fields delims cs
      else case fields delims cs of [] \<Rightarrow> [[c]] | f # fs \<Rightarrow> (c # f) # fs)"

definition words :: "string \<Rightarrow> string \<Rightarrow> string list" where
  "words delims s = filter (\<lambda>f. f \<noteq> []) (fields delims s)"

lemma fields_not_empty: "fields delims s \<noteq> []"
  by (induction delims s rule: fields.induct) (auto split: list.splits)

lemma fields_plain: "set xs \<inter> set delims = {} \<Longrightarrow> fields delims xs = [xs]"
  by (induction xs) auto

lemma fields_split: "set xs \<inter> set delims = {} \<Longrightarrow> d \<in> set delims \<Longrightarrow> fields delims (xs @ d # ys) = xs # fields delims ys"
  by (induction xs) auto

lemma fields_delim_end:
  "d \<in> set delims \<Longrightarrow> fields delims (xs @ d # ys) = butlast (fields delims (xs @ [d])) @ fields delims ys"
proof (induction xs)
  case (Cons x xs)
  show ?case
  proof (cases "x \<in> set delims")
    case True
    with Cons fields_not_empty show ?thesis by auto
  next
    case False
    obtain f fs where fs: "fields delims (xs @ [d]) = f # fs" using fields_not_empty by (meson list.exhaust)
    have "fs \<noteq> []"
    proof
      assume "fs = []"
      moreover have "length (fields delims (ys @ [d])) \<ge> 2" for ys
        using Cons.prems by (induction ys) (auto split: list.splits simp: fields_not_empty)
      from this [of xs] have "length (f # fs) \<ge> 2" unfolding fs .
      ultimately show False by simp
    qed
    then show ?thesis using False Cons.IH [OF Cons.prems] fs by simp
  qed
qed (use fields_not_empty in auto)

lemma words_delims: "set xs \<subseteq> set delims \<Longrightarrow> words delims (xs @ ys) = words delims ys"
  by (induction xs) (auto simp: words_def)

lemma words_append:
  assumes "d \<in> set delims"
  shows "words delims ((xs @ [d]) @ ys) = words delims (xs @ [d]) @ words delims ys"
proof -
  obtain bs where bs: "fields delims (xs @ [d]) = bs @ [[]]"
    using fields_delim_end [OF assms, of xs "[]"] by simp
  then show ?thesis using fields_delim_end [OF assms, of xs ys] by (simp add: words_def)
qed

text \<open>strtok hands out the words one by one.\<close>

lemma words_strtok:
  "words delims s = (case strtok delims s of None \<Rightarrow> [] | Some (tok, rest) \<Rightarrow> tok # words delims rest)"
proof -
  let ?s1 = "dropWhile (\<lambda>c. c \<in> set delims) s"
  have skip: "words delims s = words delims ?s1"
  proof -
    have "set (takeWhile (\<lambda>c. c \<in> set delims) s) \<subseteq> set delims" by (auto dest: set_takeWhileD)
    from words_delims [OF this, of ?s1] show ?thesis by simp
  qed
  show ?thesis
  proof (cases "?s1 = []")
    case True
    with skip show ?thesis by (simp add: strtok_def words_def)
  next
    case False
    define t where "t = takeWhile (\<lambda>c. c \<notin> set delims) ?s1"
    define r where "r = dropWhile (\<lambda>c. c \<notin> set delims) ?s1"
    have s1: "?s1 = t @ r" by (simp add: t_def r_def)
    have tok: "strtok delims s = Some (t, tl r)" using False unfolding strtok_def t_def r_def Let_def by simp
    have plain: "set t \<inter> set delims = {}" unfolding t_def by (auto dest: set_takeWhileD)
    have ne: "t \<noteq> []" using False hd_dropWhile [OF False] unfolding t_def by (cases ?s1) auto
    have "words delims (t @ r) = t # words delims (tl r)"
    proof (cases r)
      case Nil
      then show ?thesis using fields_plain [OF plain] ne by (simp add: words_def)
    next
      case (Cons d r')
      then have "d \<in> set delims" using hd_dropWhile [of "\<lambda>c. c \<notin> set delims" ?s1] by (auto simp: r_def)
      then have "fields delims (t @ d # r') = t # fields delims r'" by (rule fields_split [OF plain])
      then show ?thesis using Cons ne by (simp add: words_def)
    qed
    then show ?thesis using skip s1 tok by simp
  qed
qed

lemma puts_tokens_words: "puts_tokens s = concat (map (\<lambda>w. w @ [CHR 0x0A]) (words [CHR '' '', CHR 0x0A] s))"
proof (induction s rule: puts_tokens.induct)
  case (1 s)
  then show ?case
    by (subst puts_tokens.simps, subst words_strtok) (auto split: option.splits)
qed

section \<open>strsep hands out the fields\<close>

lemma strpbrk_result:
  assumes "set xs \<inter> set key = {}" "NUL \<notin> set xs" "c = NUL \<or> c \<in> set key"
  shows "strpbrk (pre @ xs @ c # rest) (int (length pre)) key =
         Inr (if c = NUL then None else Some (int (length pre + length xs)))"
  using assms
proof (induction xs arbitrary: pre)
  case Nil
  have "rd (pre @ c # rest) (int (length pre)) = Inr c" by (simp add: nth_append)
  with Nil show ?case by (subst strpbrk.simps) auto
next
  case (Cons x xs)
  have "rd (pre @ x # xs @ c # rest) (int (length pre)) = Inr x" by (simp add: nth_append)
  moreover have "strpbrk ((pre @ [x]) @ xs @ c # rest) (int (length (pre @ [x]))) key =
      Inr (if c = NUL then None else Some (int (length (pre @ [x]) + length xs)))"
    using Cons.IH [of "pre @ [x]"] Cons.prems by simp
  ultimately show ?case using Cons.prems by (subst strpbrk.simps) (auto simp: add.commute)
qed

text \<open>Calling \<open>strsep\<close> until it stores NULL, with the strings returned.\<close>

fun strsep_calls :: "nat \<Rightarrow> string \<Rightarrow> int option \<Rightarrow> string \<Rightarrow> fault + string list" where
  "strsep_calls 0 buf string delim = Inr []"
| "strsep_calls (Suc n) buf string delim =
     (case string of
        None \<Rightarrow> Inr []
      | Some i \<Rightarrow>
          and_then (strsep buf string delim) (\<lambda>(r, buf1, string1).
            and_then (strsep_calls n buf1 string1 delim) (\<lambda>ts.
              Inr (cstr (drop (nat i) buf1) # ts))))"

lemma strsep_step:
  assumes "set f \<inter> set delim = {}" "NUL \<notin> set f" "d = NUL \<or> d \<in> set delim"
  shows "strsep (pre @ f @ d # rest) (Some (int (length pre))) delim =
    Inr (Some (int (length pre)), pre @ f @ NUL # rest,
         if d = NUL then None else Some (int (length (pre @ f @ [NUL]))))"
  using strpbrk_result [OF assms, of pre rest] wr_nat [of "length (pre @ f)" "pre @ f @ d # rest" NUL]
  by (auto simp: strsep_def list_update_append Let_def)

lemma strsep_calls_result:
  assumes "NUL \<notin> set s" "NUL \<notin> set delim" "length (fields delim s) \<le> n"
  shows "strsep_calls n (pre @ s @ NUL # rest) (Some (int (length pre))) delim = Inr (fields delim s)"
  using assms
proof (induction n arbitrary: s pre)
  case 0
  then show ?case using fields_not_empty by simp
next
  case (Suc n)
  define f where "f = takeWhile (\<lambda>c. c \<notin> set delim) s"
  have plain: "set f \<inter> set delim = {}" unfolding f_def by (auto dest: set_takeWhileD)
  have nul: "NUL \<notin> set f" using Suc.prems(1) unfolding f_def by (auto dest: set_takeWhileD)
  show ?case
  proof (cases "s = f")
    case True
    have "strsep (pre @ s @ NUL # rest) (Some (int (length pre))) delim =
        Inr (Some (int (length pre)), pre @ s @ NUL # rest, None)"
      using strsep_step [OF plain nul, of NUL pre rest] True by simp
    moreover have "strsep_calls n (pre @ s @ NUL # rest) None delim = Inr []" by (cases n) auto
    ultimately show ?thesis using fields_plain [OF plain] True Suc.prems(1) by simp
  next
    case False
    then obtain d g where s: "s = f @ d # g" "d \<in> set delim"
    proof -
      have "dropWhile (\<lambda>c. c \<notin> set delim) s \<noteq> []" using False unfolding f_def
        by (metis append_Nil2 takeWhile_dropWhile_id)
      moreover have "s = f @ dropWhile (\<lambda>c. c \<notin> set delim) s" by (simp add: f_def)
      ultimately show ?thesis using that hd_dropWhile by (metis list.collapse)
    qed
    then have dn: "d \<noteq> NUL" using Suc.prems(2) by auto
    let ?pre = "pre @ f @ [NUL]"
    have "strsep (pre @ s @ NUL # rest) (Some (int (length pre))) delim =
        Inr (Some (int (length pre)), pre @ f @ NUL # g @ NUL # rest, Some (int (length ?pre)))"
      using strsep_step [OF plain nul, of d pre "g @ NUL # rest"] s dn by simp
    moreover have fs: "fields delim s = f # fields delim g" using fields_split [OF plain s(2)] s(1) by simp
    moreover have "strsep_calls n (?pre @ g @ NUL # rest) (Some (int (length ?pre))) delim = Inr (fields delim g)"
      using Suc.IH [of g ?pre] Suc.prems s(1) fs by simp
    ultimately show ?thesis using nul by simp
  qed
qed

section \<open>Properties\<close>

text \<open>strsep, called until it stores NULL through its first argument, returns the fields of the
  string between delimiters one after the other, empty ones included, without leaving the buffer.
\<close>

theorem strsep_fields:
  assumes "NUL \<notin> set s" and "NUL \<notin> set delim" and "length (fields delim s) \<le> n"
  shows "strsep_calls n (pre @ s @ NUL # rest) (Some (int (length pre))) delim = Inr (fields delim s)"
  by (rule strsep_calls_result [OF assms])

theorem strsep_fields_witness:
  "strsep_calls 4 (''a,,b'' @ [NUL]) (Some 0) '','' = Inr [''a'', '''', ''b'']"
  using strsep_fields [of "''a,,b''" "'',''" 4 "[]" "[]"] by (simp add: NUL_def)

lemma fgets_piece_line:
  assumes "length l < 499" "CHR 0x0A \<notin> set l"
  shows "fgets_piece 500 (l @ CHR 0x0A # inp) = (l @ [CHR 0x0A], inp)"
proof -
  have "takeWhile (\<lambda>c. c \<noteq> CHR 0x0A) l = l" using assms(2) by (subst takeWhile_eq_all_conv) blast
  then have "takeWhile (\<lambda>c. c \<noteq> CHR 0x0A) (l @ CHR 0x0A # inp) = l"
    by (subst takeWhile_tail) simp_all
  then show ?thesis using assms(1) by (simp add: fgets_piece_def Let_def)
qed

text \<open>For an input of lines of at most 498 characters without NUL, Exec02 prints exactly the
  words of the whole input, each on a line of its own.
\<close>

theorem exec02_prints_words:
  assumes "\<And>l. l \<in> set ls \<Longrightarrow> length l < 499 \<and> CHR 0x0A \<notin> set l \<and> NUL \<notin> set l"
  shows "exec02_main (concat (map (\<lambda>l. l @ [CHR 0x0A]) ls)) =
    concat (map (\<lambda>w. w @ [CHR 0x0A]) (words [CHR '' '', CHR 0x0A] (concat (map (\<lambda>l. l @ [CHR 0x0A]) ls))))"
  using assms
proof (induction ls)
  case Nil
  then show ?case by (simp add: exec02_main.simps words_def)
next
  case (Cons l ls)
  let ?nl = "CHR 0x0A" and ?in = "concat (map (\<lambda>l. l @ [CHR 0x0A]) ls)"
  have l: "length l < 499" "?nl \<notin> set l" "NUL \<notin> set l" using Cons.prems [of l] by auto
  have c: "cstr (l @ [?nl]) = l @ [?nl]" using l(3) by (intro cstr_id) (simp add: NUL_def)
  have "exec02_main ((l @ [?nl]) @ ?in) = puts_tokens (l @ [?nl]) @ exec02_main ?in"
    by (subst exec02_main.simps) (simp add: fgets_piece_line [OF l(1,2)] c)
  then show ?case
    using Cons.IH Cons.prems words_append [of ?nl "[CHR '' '', ?nl]" l ?in] by (simp add: puts_tokens_words)
qed

theorem exec02_prints_words_witness:
  "exec02_main (''ab c'' @ [CHR 0x0A]) = ''ab'' @ [CHR 0x0A] @ ''c'' @ [CHR 0x0A]"
  using exec02_prints_words [of "[''ab c'']"] by (simp add: words_def NUL_def)

text \<open>The loop that is switched off finds the vowels of every string, in order.\<close>

lemma all_vowels_from:
  assumes "NUL \<notin> set s" "NUL \<notin> set key"
  shows "all_vowels (pre @ s @ [NUL]) key (int (length pre)) =
    Inr (concat (map (\<lambda>c. [c, CHR '' '']) (filter (\<lambda>c. c \<in> set key) s)))"
  using assms(1)
proof (induction s arbitrary: pre rule: measure_induct_rule [of length])
  case (less s)
  define xs where "xs = takeWhile (\<lambda>c. c \<notin> set key) s"
  have xs: "set xs \<inter> set key = {}" "NUL \<notin> set xs" using less.prems by (auto simp: xs_def dest: set_takeWhileD)
  have f0: "filter (\<lambda>c. c \<in> set key) xs = []" using xs(1) by (auto simp: filter_empty_conv)
  show ?case
  proof (cases "dropWhile (\<lambda>c. c \<notin> set key) s")
    case Nil
    then have "s = xs" using takeWhile_dropWhile_id [of "\<lambda>c. c \<notin> set key" s] unfolding xs_def by (metis append_Nil2)
    then show ?thesis using strpbrk_result [OF xs, of NUL pre "[]"] f0 by (subst all_vowels.simps) simp
  next
    case (Cons c s1)
    then have s: "s = xs @ c # s1" using takeWhile_dropWhile_id [of "\<lambda>c. c \<notin> set key" s] by (simp add: xs_def)
    have c: "c \<in> set key" using hd_dropWhile [of "\<lambda>c. c \<notin> set key" s] Cons by simp
    have cn: "c \<noteq> NUL" using less.prems by (auto simp: s)
    let ?pre = "pre @ xs @ [c]"
    have "rd (pre @ s @ [NUL]) (int (length pre + length xs)) = Inr c"
      by (subst rd_nat) (simp_all add: s nth_append del: of_nat_add)
    moreover have "all_vowels (?pre @ s1 @ [NUL]) key (int (length ?pre)) =
        Inr (concat (map (\<lambda>c. [c, CHR '' '']) (filter (\<lambda>c. c \<in> set key) s1)))"
      using less.prems by (intro less.IH) (auto simp: s)
    ultimately show ?thesis
      using strpbrk_result [OF xs, of c pre "s1 @ [NUL]"] c cn f0
      by (subst all_vowels.simps) (simp add: s add.commute)
  qed
qed

theorem all_vowels_found:
  assumes "NUL \<notin> set s" and "NUL \<notin> set key"
  shows "all_vowels (s @ [NUL]) key 0 = Inr (concat (map (\<lambda>c. [c, CHR '' '']) (filter (\<lambda>c. c \<in> set key) s)))"
  using all_vowels_from [OF assms, of "[]"] by simp

theorem all_vowels_found_witness:
  "all_vowels (''This is a sample string'' @ [NUL]) ''aeiou'' 0 = Inr ''i i a a e i ''"
  using all_vowels_found [of "''This is a sample string''" "''aeiou''"] by (simp add: NUL_def)

text \<open>
  The vowel search of MyTestMain01 reads outside its string: the skip grows by one with each
  vowel found and passes the terminating NUL after the sixth.
\<close>

theorem vowels_out_of_bounds:
  "vowels_main shown = Inl OutOfBounds \<and>
   vowel_loop shown 5 vowel_str ''aeiou'' 0 0 [] =
     Inr (vowel_hit shown 1 (CHR ''i'') 2 @ vowel_hit shown 2 (CHR ''i'') 5 @ vowel_hit shown 3 (CHR ''a'') 8 @
       vowel_hit shown 4 (CHR ''a'') 11 @ vowel_hit shown 5 (CHR ''e'') 15)"
proof
  show "vowels_main shown = Inl OutOfBounds" by code_simp
  show "vowel_loop shown 5 vowel_str ''aeiou'' 0 0 [] =
     Inr (vowel_hit shown 1 (CHR ''i'') 2 @ vowel_hit shown 2 (CHR ''i'') 5 @ vowel_hit shown 3 (CHR ''a'') 8 @
       vowel_hit shown 4 (CHR ''a'') 11 @ vowel_hit shown 5 (CHR ''e'') 15)" by code_simp simp
qed

end
