(* ===== verification/Chat_Message.thy ===== *)
theory Chat_Message
  imports Text_Input
begin

text \<open>
  MyChat/MyChatMessage.hpp: a chat message is a buffer of 4 header bytes and up to 512 body
  bytes, with the length of the body beside it. The header is the body length printed with
  \<open>%4d\<close>. The CRT functions the code calls (\<open>strncat_s\<close>, \<open>sprintf_s\<close>, \<open>atoi\<close>) are modelled
  as documented, their run-time constraints included.
\<close>

section \<open>The CRT functions it uses\<close>

text \<open>
  \<open>strncat_s (dest, s1max, src, n)\<close>, as C11 K.3.7.2.2 and the Microsoft CRT define it: with
  \<open>m\<close> the room left in \<open>dest\<close>, either \<open>n < m\<close> or the first \<open>m\<close> characters of \<open>src\<close> must hold
  a NUL; otherwise the invalid parameter handler runs, which by default ends the program.
\<close>

definition strncat_s :: "string \<Rightarrow> nat \<Rightarrow> string \<Rightarrow> nat \<Rightarrow> fault + string" where
  "strncat_s dest s1max src n =
     (let k = length (cstr (take s1max dest)); m = s1max - k; s = cstr (take n src)
      in if m = 0 \<or> (m \<le> n \<and> m \<le> length (cstr (take m src))) then Inl InvalidParameter
         else Inr (take k dest @ s @ [NUL] @ drop (k + length s + 1) dest))"

text \<open>\<open>%4d\<close>: padded on the left with blanks to at least four characters.\<close>

definition fmt_4d :: "int \<Rightarrow> string" where
  "fmt_4d i = replicate (4 - length (dec_int i)) (CHR '' '') @ dec_int i"

text \<open>\<open>sprintf_s\<close> into a buffer of \<open>n\<close> characters: the text and its NUL must fit.\<close>

definition sprintf_s :: "nat \<Rightarrow> string \<Rightarrow> fault + string" where
  "sprintf_s n out = (if length out < n then Inr (out @ [NUL]) else Inl InvalidParameter)"

section \<open>The message\<close>

definition header_length :: nat where "header_length = 4"
definition max_body_length :: nat where "max_body_length = 512"

record chat_message =
  msg_data :: string           \<comment> \<open>\<open>data_\<close>\<close>
  msg_body_length :: nat       \<comment> \<open>\<open>body_length_\<close>, a size_t\<close>

text \<open>Conversion of an int to size_t (64 bits).\<close>

definition to_size_t :: "int \<Rightarrow> nat" where
  "to_size_t i = nat (i mod 2 ^ 64)"

text \<open>The constructor leaves \<open>data_\<close> with whatever bytes \<open>raw\<close> the storage holds.\<close>

definition new_chat_message :: "string \<Rightarrow> chat_message" where
  "new_chat_message raw = \<lparr>msg_data = raw, msg_body_length = 0\<rparr>"

definition msg_length :: "chat_message \<Rightarrow> nat" where
  "msg_length m = header_length + msg_body_length m"

definition body :: "chat_message \<Rightarrow> string" where
  "body m = take (msg_body_length m) (drop header_length (msg_data m))"

definition set_body_length :: "nat \<Rightarrow> chat_message \<Rightarrow> chat_message" where
  "set_body_length new_length m =
     m\<lparr>msg_body_length := (if new_length > max_body_length then max_body_length else new_length)\<rparr>"

definition decode_header :: "chat_message \<Rightarrow> fault + bool \<times> chat_message" where
  "decode_header m =
     and_then (strncat_s (replicate (header_length + 1) NUL) header_length (msg_data m) header_length)
       (\<lambda>header.
         let m1 = m\<lparr>msg_body_length := to_size_t (atoi (cstr header))\<rparr>
         in if msg_body_length m1 > max_body_length then Inr (False, m1\<lparr>msg_body_length := 0\<rparr>)
            else Inr (True, m1))"

definition encode_header :: "chat_message \<Rightarrow> fault + chat_message" where
  "encode_header m =
     and_then (sprintf_s (header_length + 1) (fmt_4d (int (msg_body_length m)))) (\<lambda>header.
       Inr (m\<lparr>msg_data := take header_length header @ drop header_length (msg_data m)\<rparr>))"

text \<open>Reads and copies into the buffer: async_read at data() and at body(), memcpy at body().\<close>

definition put_header :: "string \<Rightarrow> chat_message \<Rightarrow> chat_message" where
  "put_header bs m = m\<lparr>msg_data := bs @ drop (length bs) (msg_data m)\<rparr>"

definition put_body :: "string \<Rightarrow> chat_message \<Rightarrow> fault + chat_message" where
  "put_body bs m =
     (if header_length + length bs \<le> length (msg_data m)
      then Inr (m\<lparr>msg_data := take header_length (msg_data m) @ bs @ drop (header_length + length bs) (msg_data m)\<rparr>)
      else Inl OutOfBounds)"

text \<open>The bytes \<open>buffer(data(), length())\<close> puts on the wire.\<close>

definition wire :: "chat_message \<Rightarrow> string" where
  "wire m = take (msg_length m) (msg_data m)"

section \<open>Well-formed messages\<close>

definition msg_ok :: "chat_message \<Rightarrow> bool" where
  "msg_ok m \<longleftrightarrow> length (msg_data m) = header_length + max_body_length \<and> msg_body_length m \<le> max_body_length"

lemmas msg_consts = header_length_def max_body_length_def

lemma new_chat_message_ok [pres]:
  "length raw = header_length + max_body_length \<Longrightarrow> msg_ok (new_chat_message raw)"
  by (simp add: msg_ok_def new_chat_message_def)

lemma set_body_length_ok [pres]: "msg_ok m \<Longrightarrow> msg_ok (set_body_length n m)"
  by (simp add: msg_ok_def set_body_length_def)

lemma put_header_ok [pres]: "msg_ok m \<Longrightarrow> length bs = header_length \<Longrightarrow> msg_ok (put_header bs m)"
  by (simp add: msg_ok_def put_header_def msg_consts)

lemma put_body_ok [pres]:
  "msg_ok m \<Longrightarrow> length bs \<le> max_body_length \<Longrightarrow> \<exists>m'. put_body bs m = Inr m' \<and> msg_ok m'"
  by (simp add: msg_ok_def put_body_def msg_consts)

lemma dec_nat_three: "n \<le> 512 \<Longrightarrow> length (dec_nat n) \<le> 3"
  by (rule length_dec_nat_le) auto

lemma length_fmt_4d: "n \<le> max_body_length \<Longrightarrow> length (fmt_4d (int n)) = 4"
  using dec_nat_three [of n] by (simp add: fmt_4d_def dec_int_def max_body_length_def)

lemma encode_header_result [op_simps]:
  assumes "msg_ok m"
  shows "encode_header m =
    Inr (m\<lparr>msg_data := fmt_4d (int (msg_body_length m)) @ drop header_length (msg_data m)\<rparr>)"
  using length_fmt_4d [of "msg_body_length m"] assms
  by (simp add: encode_header_def sprintf_s_def msg_ok_def header_length_def)

lemma encode_header_ok [pres]: "msg_ok m \<Longrightarrow> \<exists>m'. encode_header m = Inr m' \<and> msg_ok m'"
  using length_fmt_4d [of "msg_body_length m"]
  by (simp add: encode_header_result msg_ok_def header_length_def max_body_length_def)

lemma decode_header_ok [pres]: "msg_ok m \<Longrightarrow> decode_header m = Inr (b, m') \<Longrightarrow> msg_ok m'"
  by (auto simp: decode_header_def and_then_Inr_iff msg_ok_def Let_def split: if_splits)

section \<open>Decoding\<close>

lemma cstr_take_nul:
  assumes "NUL \<in> set (take k xs)"
  shows "cstr (take k xs) = cstr xs" "length (cstr xs) < k"
proof -
  obtain ys zs where t: "take k xs = ys @ NUL # zs" "NUL \<notin> set ys"
    using split_list_first [OF assms] by blast
  then have x: "xs = ys @ NUL # (zs @ drop k xs)"
    by (metis append_Cons append_assoc append_take_drop_id)
  have c: "cstr xs = ys" by (subst x) (simp add: t(2))
  then show "cstr (take k xs) = cstr xs" using t by simp
  have "length ys < length (take k xs)" using t(1) by simp
  then show "length (cstr xs) < k" using c by simp
qed

lemma decode_header_cases:
  assumes "msg_ok m"
  shows "decode_header m =
    (if NUL \<notin> set (take header_length (msg_data m)) then Inl InvalidParameter
     else let n = to_size_t (atoi (cstr (msg_data m)))
          in if n > max_body_length then Inr (False, m\<lparr>msg_body_length := 0\<rparr>)
             else Inr (True, m\<lparr>msg_body_length := n\<rparr>))"
proof -
  let ?h = "take 4 (msg_data m)"
  have len: "length (msg_data m) = 516" using assms by (simp add: msg_ok_def msg_consts)
  have z: "cstr (replicate 4 NUL) = []" by (simp add: cstr_def)
  show ?thesis
  proof (cases "NUL \<in> set ?h")
    case False
    then have "cstr ?h = ?h" by (rule cstr_id)
    with False len z show ?thesis
      by (simp add: decode_header_def strncat_s_def header_length_def)
  next
    case True
    from cstr_take_nul [OF True] have lt: "length (cstr (msg_data m)) < 4"
      and eq: "cstr ?h = cstr (msg_data m)" by auto
    have s: "cstr (cstr (msg_data m) @ NUL # r) = cstr (msg_data m)" for r
      by (simp add: cstr_no_nul)
    from True lt eq z s show ?thesis
      by (simp add: decode_header_def strncat_s_def header_length_def Let_def)
  qed
qed

lemma atoi_fmt_4d: "atoi (fmt_4d (int n)) = int n"
proof -
  have d: "is_digit c" if "c \<in> set (dec_nat n)" for c
    using dec_nat_digits that by blast
  obtain c cs where c: "dec_nat n = c # cs" by (cases "dec_nat n") auto
  with d have dc: "is_digit c" by simp
  then have nsp: "\<not> is_space c" and sg: "c \<noteq> CHR ''-''" "c \<noteq> CHR ''+''"
    by (auto simp: is_digit_def is_space_def)
  have "dropWhile is_space (replicate k (CHR '' '') @ dec_nat n) = dec_nat n" for k
    by (subst dropWhile_append2) (use nsp c in \<open>auto simp: is_space_def\<close>)
  then have "dropWhile is_space (fmt_4d (int n)) = dec_nat n" by (simp add: fmt_4d_def dec_int_def)
  moreover have "read_digits 0 (c # cs) = n" using c read_digits_dec_nat [of n] by simp
  ultimately show ?thesis using c sg by (simp add: atoi_def)
qed

lemma fmt_4d_no_nul: "NUL \<notin> set (fmt_4d (int n))"
  using dec_nat_digits [of n] by (auto simp: fmt_4d_def dec_int_def NUL_def is_digit_def)

lemma digit_val_le: "is_digit c \<Longrightarrow> digit_val c \<le> 9"
  unfolding is_digit_def digit_val_def by linarith

lemma read_digits_bound: "read_digits acc s < (acc + 1) * 10 ^ length s"
proof (induction s arbitrary: acc)
  case Nil
  then show ?case by simp
next
  case (Cons c s)
  show ?case
  proof (cases "is_digit c")
    case True
    have "read_digits (10 * acc + digit_val c) s < (10 * acc + digit_val c + 1) * 10 ^ length s"
      by (rule Cons.IH)
    also have "\<dots> \<le> (10 * acc + 10) * 10 ^ length s"
      using digit_val_le [OF True] by (intro mult_right_mono) auto
    finally show ?thesis using True by (simp add: algebra_simps)
  next
    case False
    have "acc < (acc + 1) * 1" by simp
    also have "\<dots> \<le> (acc + 1) * 10 ^ length (c # s)" by (intro mult_left_mono) auto
    finally show ?thesis using False by simp
  qed
qed

lemma atoi_bound:
  assumes "length s \<le> k"
  shows "\<bar>atoi s\<bar> < 10 ^ k"
proof -
  have r: "read_digits 0 t < 10 ^ k" if "length t \<le> k" for t
  proof -
    have "read_digits 0 t < 10 ^ length t" using read_digits_bound [of 0 t] by simp
    also have "\<dots> \<le> 10 ^ k" using that by (intro power_increasing) auto
    finally show ?thesis .
  qed
  have ri: "int (read_digits 0 t) < 10 ^ k" if "length t \<le> k" for t
    using r [OF that] by (metis of_nat_less_iff of_nat_numeral of_nat_power)
  have len: "length (dropWhile is_space s) \<le> k"
    using assms length_dropWhile_le le_trans by blast
  show ?thesis
  proof (cases "dropWhile is_space s")
    case Nil
    then show ?thesis unfolding atoi_def Nil by simp
  next
    case (Cons c cs)
    with len ri [of cs] ri [of "c # cs"] show ?thesis
      by (simp add: atoi_def del: read_digits.simps)
  qed
qed

lemma to_size_t_cases:
  assumes "\<bar>n\<bar> < 10 ^ 4"
  shows "0 \<le> n \<Longrightarrow> to_size_t n = nat n" "n < 0 \<Longrightarrow> to_size_t n > max_body_length"
proof -
  show "0 \<le> n \<Longrightarrow> to_size_t n = nat n" using assms by (simp add: to_size_t_def)
  assume "n < 0"
  then have "n mod 2 ^ 64 = n + 2 ^ 64"
    using assms by (subst mod_add_self2 [symmetric], subst mod_pos_pos_trivial) auto
  then show "to_size_t n > max_body_length"
    using assms by (simp add: to_size_t_def max_body_length_def)
qed

section \<open>Properties\<close>

text \<open>
  C10. Encoding never fails on a well-formed message, changes only the header bytes, and
  writes a header whose text \<open>atoi\<close> reads back as exactly the body length, so that the bytes
  put on the wire are the decimal length in four columns followed by the body.
\<close>

theorem encode_header_text:
  assumes "msg_ok m"
  shows "\<exists>m'. encode_header m = Inr m' \<and> msg_ok m' \<and> body m' = body m \<and>
           wire m' = take header_length (msg_data m') @ body m \<and>
           atoi (take header_length (msg_data m')) = int (msg_body_length m)"
proof -
  let ?m = "m\<lparr>msg_data := fmt_4d (int (msg_body_length m)) @ drop header_length (msg_data m)\<rparr>"
  have len: "length (fmt_4d (int (msg_body_length m))) = header_length"
    using length_fmt_4d assms by (simp add: msg_ok_def header_length_def)
  have "encode_header m = Inr ?m" using assms by (rule encode_header_result)
  moreover have "msg_ok ?m" using assms len by (simp add: msg_ok_def)
  ultimately show ?thesis using len by (simp add: body_def wire_def msg_length_def atoi_fmt_4d)
qed

definition hello_msg :: chat_message where
  "hello_msg = \<lparr>msg_data = replicate 4 NUL @ ''hello'' @ replicate 507 NUL, msg_body_length = 5\<rparr>"

lemma hello_msg_ok: "msg_ok hello_msg"
  by (simp add: hello_msg_def msg_ok_def msg_consts)

theorem encode_header_text_witness:
  "msg_ok hello_msg \<and> (\<exists>m'. encode_header hello_msg = Inr m' \<and> atoi (take header_length (msg_data m')) = 5)"
  using encode_header_text [OF hello_msg_ok] hello_msg_ok by (auto simp: hello_msg_def)

text \<open>
  C5. \<open>decode_header\<close> on every well-formed buffer: when the four header bytes hold no NUL the
  call of \<open>strncat_s\<close> violates its run-time constraint (the size given leaves no room for the
  terminator); otherwise the text before the first NUL is read by \<open>atoi\<close>, a negative or too
  large length is rejected with the length reset to 0, and an accepted length is at most 512.
\<close>

theorem decode_header_spec:
  assumes "msg_ok m"
  shows "decode_header m =
    (let n = atoi (cstr (msg_data m)) in
     if NUL \<notin> set (take header_length (msg_data m)) then Inl InvalidParameter
     else if 0 \<le> n \<and> n \<le> int max_body_length then Inr (True, m\<lparr>msg_body_length := nat n\<rparr>)
     else Inr (False, m\<lparr>msg_body_length := 0\<rparr>))"
proof (cases "NUL \<in> set (take header_length (msg_data m))")
  case True
  then have "length (cstr (msg_data m)) < 4"
    by (auto simp: header_length_def cstr_take_nul)
  then have "\<bar>atoi (cstr (msg_data m))\<bar> < 10 ^ 4"
    by (intro atoi_bound) simp
  note sz = to_size_t_cases [OF this]
  show ?thesis
  proof (cases "0 \<le> atoi (cstr (msg_data m))")
    case nonneg: True
    with sz(1) True show ?thesis
      by (simp add: decode_header_cases [OF assms] Let_def max_body_length_def) linarith
  next
    case False
    with sz(2) True show ?thesis by (simp add: decode_header_cases [OF assms] Let_def)
  qed
qed (simp add: decode_header_cases [OF assms])

theorem decode_header_spec_witness:
  "decode_header (put_header [CHR ''1'', CHR ''2'', NUL, CHR ''x''] hello_msg) =
     Inr (True, (put_header [CHR ''1'', CHR ''2'', NUL, CHR ''x''] hello_msg)\<lparr>msg_body_length := 12\<rparr>)"
proof -
  let ?m = "put_header [CHR ''1'', CHR ''2'', NUL, CHR ''x''] hello_msg"
  have ok: "msg_ok ?m" by (rule put_header_ok [OF hello_msg_ok]) (simp add: header_length_def)
  have tx: "cstr (msg_data ?m) = ''12''" by (simp add: put_header_def cstr_def NUL_def)
  have "atoi ''12'' = 12" by (simp add: atoi_def is_space_def is_digit_def digit_val_def)
  then show ?thesis
    using decode_header_spec [OF ok] tx
    by (simp add: Let_def max_body_length_def header_length_def put_header_def)
qed

text \<open>The receiving side rejects what the sending side writes: for every well-formed message
  the header that \<open>encode_header\<close> produced has no NUL in its four bytes, and decoding it runs
  into the invalid parameter handler.
\<close>

theorem decode_of_encode_faults:
  assumes "msg_ok m"
  shows "and_then (encode_header m) decode_header = Inl InvalidParameter"
proof -
  let ?m = "m\<lparr>msg_data := fmt_4d (int (msg_body_length m)) @ drop header_length (msg_data m)\<rparr>"
  have len: "length (fmt_4d (int (msg_body_length m))) = header_length"
    using length_fmt_4d assms by (simp add: msg_ok_def header_length_def)
  have "msg_ok ?m" using assms len by (simp add: msg_ok_def)
  then show ?thesis
    using assms len fmt_4d_no_nul by (simp add: encode_header_result decode_header_cases)
qed

theorem decode_of_encode_faults_witness:
  "and_then (encode_header hello_msg) decode_header = Inl InvalidParameter"
  by (rule decode_of_encode_faults [OF hello_msg_ok])

end
