(* ===== verification/Outbox.thy ===== *)
theory Outbox
  imports Prelude
begin

text \<open>
  The write queue that the chat session of MyTCPChatSrv01.cpp and the chat client of
  MyTCPChatCli01.cpp share as a contract: messages are appended to a deque, an asynchronous
  write of the front starts when the deque was empty, and the completion handler pops the
  front and starts the next write. The client of the contract is any interleaving of
  deliveries and completions.
\<close>

section \<open>Interleavings\<close>

datatype 'm oev = Deliver 'm | Done

fun delivered :: "'m oev list \<Rightarrow> 'm list" where
  "delivered [] = []"
| "delivered (Deliver m # es) = m # delivered es"
| "delivered (Done # es) = delivered es"

text \<open>
  \<open>enq\<close> delivers a message and \<open>fin\<close> is the successful completion of a write. A completion
  can only arrive while a write is outstanding: otherwise the event is not possible and the
  state stays.
\<close>

fun orun ::
  "('m \<Rightarrow> 's \<Rightarrow> fault + 's) \<Rightarrow> ('s \<Rightarrow> fault + 's) \<Rightarrow> ('s \<Rightarrow> nat) \<Rightarrow> 's \<Rightarrow> 'm oev list \<Rightarrow> fault + 's"
where
  "orun enq fin pend s [] = Inr s"
| "orun enq fin pend s (Deliver m # es) = and_then (enq m s) (\<lambda>s'. orun enq fin pend s' es)"
| "orun enq fin pend s (Done # es) =
     (if pend s = 0 then orun enq fin pend s es
      else and_then (fin s) (\<lambda>s'. orun enq fin pend s' es))"

section \<open>The contract\<close>

text \<open>
  \<open>queue\<close> is the deque, \<open>pend\<close> the number of outstanding asynchronous writes, \<open>started\<close> the
  messages whose write has been started, in order.
\<close>

locale outbox =
  fixes queue :: "'s \<Rightarrow> 'm list" and pend :: "'s \<Rightarrow> nat" and started :: "'s \<Rightarrow> 'm list"
    and enq :: "'m \<Rightarrow> 's \<Rightarrow> fault + 's" and fin :: "'s \<Rightarrow> fault + 's"
  assumes enq_busy: "queue s \<noteq> [] \<Longrightarrow> \<exists>s'. enq m s = Inr s' \<and> queue s' = queue s @ [m] \<and>
      pend s' = pend s \<and> started s' = started s"
    and enq_idle: "queue s = [] \<Longrightarrow> \<exists>s'. enq m s = Inr s' \<and> queue s' = [m] \<and>
      pend s' = Suc (pend s) \<and> started s' = started s @ [m]"
    and fin_last: "queue s = [m] \<Longrightarrow> \<exists>s'. fin s = Inr s' \<and> queue s' = [] \<and>
      pend s' = pend s - 1 \<and> started s' = started s"
    and fin_more: "queue s = m # m' # ms \<Longrightarrow> 0 < pend s \<Longrightarrow> \<exists>s'. fin s = Inr s' \<and>
      queue s' = m' # ms \<and> pend s' = pend s \<and> started s' = started s @ [m']"
begin

text \<open>A write is outstanding exactly when the deque is not empty, and never two.\<close>

definition in_step :: "'s \<Rightarrow> bool" where
  "in_step s \<longleftrightarrow> pend s = (if queue s = [] then 0 else 1)"

text \<open>What was handed to the outbox so far: the started messages and the waiting ones.\<close>

definition accepted :: "'s \<Rightarrow> 'm list" where
  "accepted s = started s @ tl (queue s)"

lemma enq_step:
  assumes "in_step s"
  obtains s' where "enq m s = Inr s'" "in_step s'" "accepted s' = accepted s @ [m]"
proof (cases "queue s")
  case Nil
  with enq_idle [OF Nil, of m] assms that show thesis by (auto simp: in_step_def accepted_def)
next
  case (Cons x xs)
  then have "queue s \<noteq> []" by simp
  from enq_busy [OF this, of m] Cons assms that show thesis
    by (auto simp: in_step_def accepted_def)
qed

lemma fin_step:
  assumes "in_step s" "pend s \<noteq> 0"
  obtains s' where "fin s = Inr s'" "in_step s'" "accepted s' = accepted s"
proof -
  from assms have ne: "queue s \<noteq> []" by (auto simp: in_step_def)
  show thesis
  proof (cases "tl (queue s)")
    case Nil
    with ne obtain m where m: "queue s = [m]" by (cases "queue s") auto
    from fin_last [OF m] m assms that show thesis by (auto simp: in_step_def accepted_def)
  next
    case (Cons m' ms)
    with ne obtain m where m: "queue s = m # m' # ms" by (cases "queue s") auto
    from fin_more [OF m] m assms that show thesis by (auto simp: in_step_def accepted_def)
  qed
qed

lemma orun_accepted:
  "in_step s \<Longrightarrow> \<exists>s'. orun enq fin pend s es = Inr s' \<and> in_step s' \<and>
     accepted s' = accepted s @ delivered es"
proof (induction es arbitrary: s)
  case Nil
  then show ?case by simp
next
  case (Cons e es)
  show ?case
  proof (cases e)
    case (Deliver m)
    obtain s1 where "enq m s = Inr s1" "in_step s1" "accepted s1 = accepted s @ [m]"
      using Cons.prems by (rule enq_step)
    with Cons.IH [of s1] Deliver show ?thesis by auto
  next
    case Done
    show ?thesis
    proof (cases "pend s = 0")
      case True
      with Cons.IH [OF Cons.prems] Done show ?thesis by simp
    next
      case False
      then obtain s1 where "fin s = Inr s1" "in_step s1" "accepted s1 = accepted s"
        using Cons.prems fin_step by blast
      with Cons.IH [of s1] Done False show ?thesis by auto
    qed
  qed
qed

end

end
