(* ===== verification/Chat_Server.thy ===== *)
theory Chat_Server
  imports Chat_Message Outbox
begin

text \<open>
  MyChat/MyTCPChatSrv01.cpp: the chat room, the sessions and the acceptor of the chat server.
  Every \<open>async_\<close> call leaves an outstanding operation in the state, and its completion handler
  is an operation of the model that boost::asio may run, with an error or with the bytes read,
  while that operation is outstanding. The io_context runs one handler at a time.
\<close>

section \<open>Sessions\<close>

text \<open>The outstanding read of a session.\<close>

datatype read_op = NoRead | ReadHeader | ReadBody

record chat_session =
  read_msg :: chat_message              \<comment> \<open>\<open>read_msg_\<close>\<close>
  write_msgs :: "chat_message list"     \<comment> \<open>\<open>write_msgs_\<close>\<close>
  reading :: read_op                    \<comment> \<open>outstanding async_read\<close>
  writing :: nat                        \<comment> \<open>outstanding async_write operations\<close>
  sent :: "chat_message list"           \<comment> \<open>messages handed to async_write, in order\<close>

definition new_session :: "string \<Rightarrow> chat_session" where
  "new_session raw = \<lparr>read_msg = new_chat_message raw, write_msgs = [], reading = NoRead,
     writing = 0, sent = []\<rparr>"

text \<open>\<open>do_write\<close>: \<open>front()\<close> of an empty deque is undefined.\<close>

definition session_do_write :: "chat_session \<Rightarrow> fault + chat_session" where
  "session_do_write s =
     (case write_msgs s of [] \<Rightarrow> Inl OutOfBounds
      | m # _ \<Rightarrow> Inr (s\<lparr>writing := Suc (writing s), sent := sent s @ [m]\<rparr>))"

definition session_deliver :: "chat_message \<Rightarrow> chat_session \<Rightarrow> fault + chat_session" where
  "session_deliver msg s =
     (let write_in_progress = (write_msgs s \<noteq> []);
          s1 = s\<lparr>write_msgs := write_msgs s @ [msg]\<rparr>
      in if \<not> write_in_progress then session_do_write s1 else Inr s1)"

text \<open>The success branch of the handler of \<open>do_write\<close>: pop the front, write the next.\<close>

definition session_written :: "chat_session \<Rightarrow> fault + chat_session" where
  "session_written s =
     (let s1 = s\<lparr>writing := writing s - 1, write_msgs := tl (write_msgs s)\<rparr>
      in if write_msgs s1 \<noteq> [] then session_do_write s1 else Inr s1)"

definition session_do_read_header :: "chat_session \<Rightarrow> chat_session" where
  "session_do_read_header s = s\<lparr>reading := ReadHeader\<rparr>"

definition session_do_read_body :: "chat_session \<Rightarrow> chat_session" where
  "session_do_read_body s = s\<lparr>reading := ReadBody\<rparr>"

interpretation so: outbox write_msgs writing sent session_deliver session_written
  by unfold_locales
    (auto simp: session_deliver_def session_written_def session_do_write_def Let_def neq_Nil_conv)

section \<open>The room and the server\<close>

text \<open>A session is identified by its address, which orders the set of participants.\<close>

type_synonym sid = nat

record chat_room =
  participants :: "sid list"            \<comment> \<open>\<open>participants_\<close>, in the order of the pointers\<close>
  recent_msgs :: "chat_message list"    \<comment> \<open>\<open>recent_msgs_\<close>\<close>

record chat_server =
  room :: chat_room                     \<comment> \<open>\<open>room_\<close>\<close>
  sessions :: "sid \<Rightarrow> chat_session option"  \<comment> \<open>the session objects\<close>
  accepting :: nat                      \<comment> \<open>outstanding async_accept operations\<close>

definition max_recent_msgs :: nat where "max_recent_msgs = 100"

definition deliver_to ::
  "chat_message \<Rightarrow> sid \<Rightarrow> (sid \<Rightarrow> chat_session option) \<Rightarrow> fault + (sid \<Rightarrow> chat_session option)"
where
  "deliver_to msg p ss =
     (case ss p of None \<Rightarrow> Inl Dangling
      | Some s \<Rightarrow> and_then (session_deliver msg s) (\<lambda>s'. Inr (ss(p \<mapsto> s'))))"

fun deliver_to_all ::
  "chat_message \<Rightarrow> sid list \<Rightarrow> (sid \<Rightarrow> chat_session option) \<Rightarrow> fault + (sid \<Rightarrow> chat_session option)"
where
  "deliver_to_all msg [] ss = Inr ss"
| "deliver_to_all msg (p # ps) ss = and_then (deliver_to msg p ss) (deliver_to_all msg ps)"

fun deliver_all_to ::
  "chat_message list \<Rightarrow> sid \<Rightarrow> (sid \<Rightarrow> chat_session option) \<Rightarrow> fault + (sid \<Rightarrow> chat_session option)"
where
  "deliver_all_to [] p ss = Inr ss"
| "deliver_all_to (m # ms) p ss = and_then (deliver_to m p ss) (deliver_all_to ms p)"

text \<open>\<open>chat_room::join\<close>, \<open>leave\<close> and \<open>deliver\<close>.\<close>

definition room_join :: "sid \<Rightarrow> chat_server \<Rightarrow> fault + chat_server" where
  "room_join p S =
     (let ps = (if p \<in> set (participants (room S)) then participants (room S)
                else insort p (participants (room S)))
      in and_then (deliver_all_to (recent_msgs (room S)) p (sessions S)) (\<lambda>ss.
           Inr (S\<lparr>room := (room S)\<lparr>participants := ps\<rparr>, sessions := ss\<rparr>)))"

definition room_leave :: "sid \<Rightarrow> chat_server \<Rightarrow> chat_server" where
  "room_leave p S =
     S\<lparr>room := (room S)\<lparr>participants := filter (\<lambda>q. q \<noteq> p) (participants (room S))\<rparr>\<rparr>"

fun trim_recent :: "chat_message list \<Rightarrow> chat_message list" where
  "trim_recent ms = (if length ms > max_recent_msgs then trim_recent (tl ms) else ms)"

declare trim_recent.simps [simp del]

definition room_deliver :: "chat_message \<Rightarrow> chat_server \<Rightarrow> fault + chat_server" where
  "room_deliver msg S =
     (let r = (room S)\<lparr>recent_msgs := trim_recent (recent_msgs (room S) @ [msg])\<rparr>
      in and_then (deliver_to_all msg (participants r) (sessions S)) (\<lambda>ss.
           Inr (S\<lparr>room := r, sessions := ss\<rparr>)))"

section \<open>Completion handlers\<close>

text \<open>The bytes an \<open>async_read\<close> delivered, or \<open>None\<close> for an error code.\<close>

definition on_read_header :: "sid \<Rightarrow> string option \<Rightarrow> chat_server \<Rightarrow> fault + chat_server" where
  "on_read_header p r S =
     (case sessions S p of None \<Rightarrow> Inl Dangling
      | Some s0 \<Rightarrow>
          let s = s0\<lparr>reading := NoRead\<rparr>; S0 = S\<lparr>sessions := (sessions S)(p \<mapsto> s)\<rparr>
          in case r of
               None \<Rightarrow> Inr (room_leave p S0)
             | Some bs \<Rightarrow>
                 and_then (decode_header (put_header bs (read_msg s))) (\<lambda>(ok, m).
                   let s1 = s\<lparr>read_msg := m\<rparr>
                   in if ok then Inr (S0\<lparr>sessions := (sessions S0)(p \<mapsto> session_do_read_body s1)\<rparr>)
                      else Inr (room_leave p (S0\<lparr>sessions := (sessions S0)(p \<mapsto> s1)\<rparr>))))"

definition on_read_body :: "sid \<Rightarrow> string option \<Rightarrow> chat_server \<Rightarrow> fault + chat_server" where
  "on_read_body p r S =
     (case sessions S p of None \<Rightarrow> Inl Dangling
      | Some s0 \<Rightarrow>
          let s = s0\<lparr>reading := NoRead\<rparr>; S0 = S\<lparr>sessions := (sessions S)(p \<mapsto> s)\<rparr>
          in case r of
               None \<Rightarrow> Inr (room_leave p S0)
             | Some bs \<Rightarrow>
                 and_then (put_body bs (read_msg s)) (\<lambda>m.
                   and_then (room_deliver m (S0\<lparr>sessions := (sessions S0)(p \<mapsto> s\<lparr>read_msg := m\<rparr>)\<rparr>)) (\<lambda>S1.
                     case sessions S1 p of None \<Rightarrow> Inl Dangling
                     | Some s1 \<Rightarrow> Inr (S1\<lparr>sessions := (sessions S1)(p \<mapsto> session_do_read_header s1)\<rparr>))))"

definition on_write :: "sid \<Rightarrow> bool \<Rightarrow> chat_server \<Rightarrow> fault + chat_server" where
  "on_write p ok S =
     (case sessions S p of None \<Rightarrow> Inl Dangling
      | Some s \<Rightarrow>
          if ok then and_then (session_written s) (\<lambda>s'. Inr (S\<lparr>sessions := (sessions S)(p \<mapsto> s')\<rparr>))
          else Inr (room_leave p (S\<lparr>sessions := (sessions S)(p \<mapsto> s\<lparr>writing := writing s - 1\<rparr>)\<rparr>)))"

text \<open>\<open>chat_session::start\<close>, and the handler of \<open>do_accept\<close> with the new session's address.\<close>

definition session_start :: "sid \<Rightarrow> chat_server \<Rightarrow> fault + chat_server" where
  "session_start p S =
     and_then (room_join p S) (\<lambda>S1.
       case sessions S1 p of None \<Rightarrow> Inl Dangling
       | Some s \<Rightarrow> Inr (S1\<lparr>sessions := (sessions S1)(p \<mapsto> session_do_read_header s)\<rparr>))"

definition do_accept :: "chat_server \<Rightarrow> chat_server" where
  "do_accept S = S\<lparr>accepting := Suc (accepting S)\<rparr>"

definition on_accept :: "(sid \<times> string) option \<Rightarrow> chat_server \<Rightarrow> fault + chat_server" where
  "on_accept r S0 =
     (let S = S0\<lparr>accepting := accepting S0 - 1\<rparr>
      in and_then
           (case r of None \<Rightarrow> Inr S
            | Some (p, raw) \<Rightarrow> session_start p (S\<lparr>sessions := (sessions S)(p \<mapsto> new_session raw)\<rparr>))
           (\<lambda>S1. Inr (do_accept S1)))"

definition new_server :: chat_server where
  "new_server = do_accept \<lparr>room = \<lparr>participants = [], recent_msgs = []\<rparr>,
     sessions = Map.empty, accepting = 0\<rparr>"

section \<open>What delivering does to sessions\<close>

text \<open>
  A session that was handed \<open>ms\<close>: they stand at the end of its queue, its outbox accepted them, and
  its reading side is untouched.
\<close>

definition handed :: "chat_message list \<Rightarrow> chat_session \<Rightarrow> chat_session \<Rightarrow> bool" where
  "handed ms s s' \<longleftrightarrow> so.in_step s' \<and> so.accepted s' = so.accepted s @ ms \<and>
     write_msgs s' = write_msgs s @ ms \<and> read_msg s' = read_msg s \<and> reading s' = reading s"

lemma handed_refl: "so.in_step s \<Longrightarrow> handed [] s s"
  by (simp add: handed_def)

lemma handed_trans: "handed xs s t \<Longrightarrow> handed ys t u \<Longrightarrow> handed (xs @ ys) s u"
  by (simp add: handed_def)

lemma session_deliver_frame:
  "session_deliver m s = Inr s' \<Longrightarrow>
   read_msg s' = read_msg s \<and> reading s' = reading s \<and> write_msgs s' = write_msgs s @ [m]"
  by (auto simp: session_deliver_def session_do_write_def Let_def split: if_splits list.splits)

lemma session_written_frame:
  "session_written s = Inr s' \<Longrightarrow>
   read_msg s' = read_msg s \<and> reading s' = reading s \<and> write_msgs s' = tl (write_msgs s)"
  by (auto simp: session_written_def session_do_write_def Let_def split: if_splits list.splits)

lemma session_deliver_handed:
  assumes "so.in_step s"
  shows "\<exists>s'. session_deliver m s = Inr s' \<and> handed [m] s s'"
proof -
  obtain s' where "session_deliver m s = Inr s'" "so.in_step s'" "so.accepted s' = so.accepted s @ [m]"
    using assms by (rule so.enq_step)
  then show ?thesis using session_deliver_frame by (auto simp: handed_def)
qed

text \<open>A message handed over is given to async_write at once when nothing is queued before it.\<close>

lemma handed_one:
  "handed [m] s s' \<Longrightarrow> write_msgs s' = write_msgs s @ [m] \<and>
     sent s' = (if write_msgs s = [] then sent s @ [m] else sent s)"
  by (auto simp: handed_def so.accepted_def)

lemma handed_new: "handed ms (new_session raw) s \<Longrightarrow> so.accepted s = ms"
  by (simp add: handed_def new_session_def) (simp add: so.accepted_def)

lemma deliver_to_all_handed:
  assumes "distinct ps" "\<And>p. p \<in> set ps \<Longrightarrow> \<exists>s. ss p = Some s \<and> so.in_step s"
  shows "\<exists>ss'. deliver_to_all m ps ss = Inr ss' \<and>
    (\<forall>q. if q \<in> set ps then \<exists>s s'. ss q = Some s \<and> ss' q = Some s' \<and> handed [m] s s' else ss' q = ss q)"
  using assms
proof (induction ps arbitrary: ss)
  case Nil
  then show ?case by simp
next
  case (Cons p ps)
  obtain s where s: "ss p = Some s" "so.in_step s" using Cons.prems(2) by auto
  obtain s' where s': "session_deliver m s = Inr s'" "handed [m] s s'"
    using session_deliver_handed [OF s(2)] by blast
  have "\<exists>t. (ss(p \<mapsto> s')) q = Some t \<and> so.in_step t" if "q \<in> set ps" for q
    using that Cons.prems by auto
  moreover have "distinct ps" using Cons.prems(1) by simp
  ultimately obtain ss' where
    ss': "deliver_to_all m ps (ss(p \<mapsto> s')) = Inr ss'"
    "\<forall>q. if q \<in> set ps then \<exists>t t'. (ss(p \<mapsto> s')) q = Some t \<and> ss' q = Some t' \<and> handed [m] t t'
         else ss' q = (ss(p \<mapsto> s')) q"
    using Cons.IH [of "ss(p \<mapsto> s')"] by blast
  have "if q \<in> set (p # ps) then \<exists>s s'. ss q = Some s \<and> ss' q = Some s' \<and> handed [m] s s'
        else ss' q = ss q" for q
    using ss'(2)[rule_format, of q] s s' Cons.prems(1) by (auto split: if_splits)
  moreover have "deliver_to_all m (p # ps) ss = Inr ss'"
    using s s' ss'(1) by (simp add: deliver_to_def)
  ultimately show ?case by blast
qed

lemma deliver_all_to_handed:
  assumes "ss p = Some s" "so.in_step s"
  shows "\<exists>s'. deliver_all_to ms p ss = Inr (ss(p \<mapsto> s')) \<and> handed ms s s'"
  using assms
proof (induction ms arbitrary: ss s)
  case Nil
  then have "ss(p \<mapsto> s) = ss" by auto
  with Nil show ?case by (auto intro!: exI [of _ s] handed_refl)
next
  case (Cons m ms)
  obtain t where t: "session_deliver m s = Inr t" "handed [m] s t"
    using session_deliver_handed [OF Cons.prems(2)] by blast
  have "so.in_step t" using t(2) by (simp add: handed_def)
  then obtain s' where s': "deliver_all_to ms p (ss(p \<mapsto> t)) = Inr (ss(p \<mapsto> s'))" "handed ms t s'"
    using Cons.IH [of "ss(p \<mapsto> t)" t] unfolding fun_upd_upd fun_upd_same by blast
  have "deliver_all_to (m # ms) p ss = Inr (ss(p \<mapsto> s'))"
    using s'(1) t(1) Cons.prems(1) by (simp only: deliver_all_to.simps deliver_to_def option.case and_then.simps)
  moreover have "handed (m # ms) s s'" using handed_trans [OF t(2) s'(2)] by simp
  ultimately show ?case by blast
qed

lemma trim_recent_drop: "trim_recent ms = drop (length ms - max_recent_msgs) ms"
proof (induction ms rule: trim_recent.induct)
  case (1 ms)
  show ?case
  proof (cases "length ms > max_recent_msgs")
    case True
    with "1" have "trim_recent ms = drop (length (tl ms) - max_recent_msgs) (tl ms)"
      by (simp add: trim_recent.simps [of ms])
    also have "\<dots> = drop (length ms - max_recent_msgs) ms"
      using True by (cases ms) (auto simp: Suc_diff_le)
    finally show ?thesis .
  qed (simp add: trim_recent.simps [of ms])
qed

lemma trim_recent_log:
  "trim_recent (drop (length log - max_recent_msgs) log @ [m]) =
   drop (length (log @ [m]) - max_recent_msgs) (log @ [m])"
proof (cases "length log < max_recent_msgs")
  case False
  then have "Suc (length log - 100) = length log - 99" by (simp add: max_recent_msgs_def)
  with False show ?thesis by (simp add: trim_recent_drop max_recent_msgs_def)
qed (simp add: trim_recent_drop max_recent_msgs_def)

section \<open>The invariant\<close>

text \<open>
  With \<open>log\<close> the messages the room has delivered so far: a session's outbox is in step unless
  a write failed and the session left the room, and what it was handed is a contiguous segment
  of the log, up to the log's end while it participates.
\<close>

definition session_inv :: "chat_message list \<Rightarrow> bool \<Rightarrow> chat_session \<Rightarrow> bool" where
  "session_inv log part s \<longleftrightarrow>
     msg_ok (read_msg s) \<and> (so.in_step s \<or> (writing s = 0 \<and> \<not> part)) \<and>
     set (write_msgs s) \<subseteq> set log \<and>
     (\<exists>i j. i \<le> j \<and> j \<le> length log \<and> so.accepted s = drop i (take j log) \<and> (part \<longrightarrow> j = length log))"

definition server_inv :: "chat_server \<Rightarrow> chat_message list \<Rightarrow> bool" where
  "server_inv S log \<longleftrightarrow>
     accepting S = 1 \<and> sorted (participants (room S)) \<and> distinct (participants (room S)) \<and>
     recent_msgs (room S) = drop (length log - max_recent_msgs) log \<and>
     (\<forall>m \<in> set log. msg_ok m) \<and>
     (\<forall>p \<in> set (participants (room S)). sessions S p \<noteq> None) \<and>
     (\<forall>p s. sessions S p = Some s \<longrightarrow> session_inv log (p \<in> set (participants (room S))) s)"

lemma session_inv_weaken:
  "session_inv log part s \<Longrightarrow> (part' \<Longrightarrow> part) \<Longrightarrow> session_inv log part' s"
  by (auto simp: session_inv_def)

lemma session_inv_log: "session_inv log False s \<Longrightarrow> session_inv (log @ ms) False s"
  unfolding session_inv_def by (fastforce intro: le_trans [OF _ le_add1])

lemma session_inv_frame:
  "session_inv log part s \<Longrightarrow> msg_ok (read_msg s') \<Longrightarrow> write_msgs s' = write_msgs s \<Longrightarrow>
   writing s' = writing s \<Longrightarrow> sent s' = sent s \<Longrightarrow> session_inv log part s'"
  by (simp add: session_inv_def so.in_step_def so.accepted_def)

lemma session_inv_msg: "session_inv log part s \<Longrightarrow> msg_ok (read_msg s)"
  by (simp add: session_inv_def)

lemma session_inv_in_step: "session_inv log True s \<Longrightarrow> so.in_step s"
  by (simp add: session_inv_def)

lemma session_inv_handed:
  assumes "session_inv log True s" "handed [m] s s'"
  shows "session_inv (log @ [m]) True s'"
proof -
  from assms(1) obtain i where i: "i \<le> length log" "so.accepted s = drop i log" "msg_ok (read_msg s)"
    "set (write_msgs s) \<subseteq> set log"
    by (auto simp: session_inv_def)
  with assms(2) have "so.accepted s' = drop i (take (length (log @ [m])) (log @ [m]))"
    "i \<le> length (log @ [m])" by (simp_all add: handed_def)
  moreover have "set (write_msgs s') \<subseteq> set (log @ [m])" using assms(2) i(4) by (auto simp: handed_def)
  ultimately show ?thesis using assms(2) i(3) unfolding session_inv_def handed_def by fastforce
qed

lemma server_inv_session:
  "server_inv S log \<Longrightarrow> sessions S p = Some s \<Longrightarrow> session_inv log (p \<in> set (participants (room S))) s"
  by (simp add: server_inv_def)

text \<open>All messages a session holds or has written were delivered by the room.\<close>

lemma session_inv_messages:
  assumes "session_inv log part s"
  shows "set (write_msgs s) \<union> set (sent s) \<subseteq> set log"
proof -
  obtain i j where "so.accepted s = drop i (take j log)" using assms by (auto simp: session_inv_def)
  then have "set (sent s @ tl (write_msgs s)) \<subseteq> set log"
    by (metis so.accepted_def set_drop_subset set_take_subset subset_trans)
  then show ?thesis using assms by (auto simp: session_inv_def)
qed

text \<open>Replacing one session by one that satisfies the invariant.\<close>

lemma server_inv_upd [pres]:
  assumes "server_inv S log" "session_inv log (p \<in> set (participants (room S))) s"
  shows "server_inv (S\<lparr>sessions := (sessions S)(p \<mapsto> s)\<rparr>) log"
  using assms by (simp add: server_inv_def)

lemma room_leave_inv [pres]:
  assumes "server_inv S log"
  shows "server_inv (room_leave p S) log"
proof -
  have "session_inv log (q \<in> set (participants (room S)) \<and> q \<noteq> p) s" if "sessions S q = Some s" for q s
    using server_inv_session [OF assms that] by (rule session_inv_weaken) simp
  with assms show ?thesis
    by (simp add: server_inv_def room_leave_def sorted_filter [of id, simplified])
qed

lemma leave_upd_inv:
  assumes "server_inv S log" "session_inv log False s"
  shows "server_inv (room_leave p (S\<lparr>sessions := (sessions S)(p \<mapsto> s)\<rparr>)) log"
proof -
  have "session_inv log (q \<in> set (participants (room S)) \<and> q \<noteq> p) t" if "sessions S q = Some t" for q t
    using server_inv_session [OF assms(1) that] by (rule session_inv_weaken) simp
  with assms show ?thesis
    by (auto simp: server_inv_def room_leave_def sorted_filter [of id, simplified])
qed

section \<open>Every handler keeps the invariant\<close>

lemma new_server_inv [pres]: "server_inv new_server []"
  by (simp add: server_inv_def new_server_def do_accept_def max_recent_msgs_def)

lemma room_deliver_inv [pres]:
  assumes inv: "server_inv S log" and m: "msg_ok m"
  shows "\<exists>S'. room_deliver m S = Inr S' \<and> server_inv S' (log @ [m]) \<and>
    participants (room S') = participants (room S) \<and>
    (\<forall>p s. sessions S p = Some s \<longrightarrow> (\<exists>s'. sessions S' p = Some s' \<and>
       (if p \<in> set (participants (room S)) then handed [m] s s' else s' = s)))"
proof -
  let ?ps = "participants (room S)"
  have part: "\<exists>s. sessions S p = Some s \<and> so.in_step s" if "p \<in> set ?ps" for p
    using inv that server_inv_session [OF inv] session_inv_in_step
    by (fastforce simp: server_inv_def)
  obtain ss' where ss': "deliver_to_all m ?ps (sessions S) = Inr ss'"
    and upd: "\<And>q. if q \<in> set ?ps
      then \<exists>s s'. sessions S q = Some s \<and> ss' q = Some s' \<and> handed [m] s s' else ss' q = sessions S q"
    using deliver_to_all_handed [of ?ps "sessions S" m, OF _ part] inv unfolding server_inv_def by blast
  let ?S = "S\<lparr>room := (room S)\<lparr>recent_msgs := trim_recent (recent_msgs (room S) @ [m])\<rparr>, sessions := ss'\<rparr>"
  have "room_deliver m S = Inr ?S" using ss' by (simp add: room_deliver_def Let_def)
  moreover have "session_inv (log @ [m]) (q \<in> set ?ps) t" if "ss' q = Some t" for q t
  proof (cases "q \<in> set ?ps")
    case True
    with upd [of q] that obtain s where s: "sessions S q = Some s" "handed [m] s t" by auto
    with server_inv_session [OF inv s(1)] True show ?thesis by (simp add: session_inv_handed)
  next
    case False
    with upd [of q] that have t: "sessions S q = Some t" by simp
    from server_inv_session [OF inv t] False show ?thesis by (simp add: session_inv_log)
  qed
  moreover have "ss' q \<noteq> None" if "q \<in> set ?ps" for q
    using upd [of q] that by auto
  moreover have "\<exists>s'. ss' q = Some s' \<and> (if q \<in> set ?ps then handed [m] s s' else s' = s)"
    if "sessions S q = Some s" for q s
    using upd [of q] that by (auto split: if_splits)
  ultimately show ?thesis
    using inv m by (auto simp: server_inv_def trim_recent_log)
qed

lemma session_start_inv [pres]:
  assumes inv: "server_inv S log" and new: "sessions S p = None" and raw: "length raw = 516"
  shows "\<exists>S'. session_start p (S\<lparr>sessions := (sessions S)(p \<mapsto> new_session raw)\<rparr>) = Inr S' \<and> server_inv S' log"
proof -
  let ?ps = "participants (room S)" and ?ss = "(sessions S)(p \<mapsto> new_session raw)"
  have p: "p \<notin> set ?ps" using inv new by (auto simp: server_inv_def)
  have "so.in_step (new_session raw)" by (simp add: so.in_step_def new_session_def)
  then obtain s where s: "deliver_all_to (recent_msgs (room S)) p ?ss = Inr (?ss(p \<mapsto> s))"
    "handed (recent_msgs (room S)) (new_session raw) s"
    using deliver_all_to_handed [of ?ss p "new_session raw"] by auto
  let ?S = "S\<lparr>room := (room S)\<lparr>participants := insort p ?ps\<rparr>,
    sessions := (sessions S)(p \<mapsto> session_do_read_header s)\<rparr>"
  have "session_start p (S\<lparr>sessions := ?ss\<rparr>) = Inr ?S"
    using s(1) p by (simp add: session_start_def room_join_def Let_def)
  moreover have "session_inv log True (session_do_read_header s)"
  proof -
    have "so.accepted s = drop (length log - max_recent_msgs) (take (length log) log)"
      using handed_new [OF s(2)] inv by (simp add: server_inv_def)
    moreover have "msg_ok (read_msg s)"
      using s(2) raw new_chat_message_ok [of raw, unfolded msg_consts]
      by (simp add: handed_def new_session_def)
    moreover have "set (write_msgs s) \<subseteq> set log"
      using s(2) inv by (auto simp: handed_def server_inv_def new_session_def dest: in_set_dropD)
    ultimately have si: "session_inv log True s"
      using s(2) unfolding session_inv_def handed_def
      by (intro conjI disjI1 exI [of _ "length log - max_recent_msgs"] exI [of _ "length log"]) auto
    show ?thesis
      by (rule session_inv_frame [OF si])
        (use session_inv_msg [OF si] in \<open>simp_all add: session_do_read_header_def\<close>)
  qed
  ultimately show ?thesis
    using inv p by (auto simp: server_inv_def distinct_insort sorted_insort set_insort_key)
qed

text \<open>Changing only the reading side of a session keeps its invariant.\<close>

lemma session_inv_reading:
  "session_inv log part s \<Longrightarrow> session_inv log part (s\<lparr>reading := r\<rparr>)"
  "session_inv log part s \<Longrightarrow> msg_ok m \<Longrightarrow> session_inv log part (s\<lparr>reading := r, read_msg := m\<rparr>)"
  "session_inv log part s \<Longrightarrow> msg_ok m \<Longrightarrow> session_inv log part (s\<lparr>read_msg := m, reading := r\<rparr>)"
  by (simp_all add: session_inv_def so.in_step_def so.accepted_def)

lemma on_read_header_inv [pres]:
  assumes inv: "server_inv S log" and s: "sessions S p = Some s" and len: "length bs = header_length"
    and nul: "NUL \<in> set bs"
  shows "\<exists>S'. on_read_header p (Some bs) S = Inr S' \<and> server_inv S' log"
proof -
  let ?m = "put_header bs (read_msg s)" and ?part = "p \<in> set (participants (room S))"
  have si: "session_inv log ?part s" using server_inv_session [OF inv s] .
  have ok: "msg_ok ?m" using put_header_ok session_inv_msg [OF si] len by blast
  have "NUL \<in> set (take header_length (msg_data ?m))" using len nul by (simp add: put_header_def)
  then have "\<exists>b m. decode_header ?m = Inr (b, m)"
    by (auto simp: decode_header_cases [OF ok] Let_def)
  then obtain b m where d: "decode_header ?m = Inr (b, m)" by blast
  have m: "msg_ok m" using decode_header_ok [OF ok d] .
  show ?thesis
  proof (cases b)
    case True
    have "server_inv (S\<lparr>sessions := (sessions S)(p \<mapsto> s\<lparr>read_msg := m, reading := ReadBody\<rparr>)\<rparr>) log"
      by (rule server_inv_upd [OF inv session_inv_reading(3) [OF si m]])
    with True d s show ?thesis by (simp add: on_read_header_def session_do_read_body_def)
  next
    case False
    have "server_inv (room_leave p (S\<lparr>sessions := (sessions S)(p \<mapsto> s\<lparr>reading := NoRead, read_msg := m\<rparr>)\<rparr>)) log"
      by (rule leave_upd_inv [OF inv session_inv_weaken [OF session_inv_reading(2) [OF si m]]]) simp
    with False d s show ?thesis by (simp add: on_read_header_def)
  qed
qed

lemma read_error_inv [pres]:
  assumes inv: "server_inv S log" and s: "sessions S p = Some s"
  shows "server_inv (room_leave p (S\<lparr>sessions := (sessions S)(p \<mapsto> s\<lparr>reading := NoRead\<rparr>)\<rparr>)) log"
  by (rule leave_upd_inv [OF inv session_inv_weaken [OF session_inv_reading(1)
        [OF server_inv_session [OF inv s]]]]) simp

text \<open>A message relayed to every participant: queued at the end, or written at once if nothing is queued.\<close>

definition relayed :: "chat_message \<Rightarrow> chat_server \<Rightarrow> chat_server \<Rightarrow> bool" where
  "relayed m S S' \<longleftrightarrow> participants (room S') = participants (room S) \<and>
     (\<forall>q t. sessions S q = Some t \<longrightarrow> (\<exists>t'. sessions S' q = Some t' \<and>
        (if q \<in> set (participants (room S))
         then write_msgs t' = write_msgs t @ [m] \<and> sent t' = (if write_msgs t = [] then sent t @ [m] else sent t)
         else write_msgs t' = write_msgs t \<and> sent t' = sent t)))"

lemma on_read_body_inv [pres]:
  assumes inv: "server_inv S log" and s: "sessions S p = Some s"
    and len: "length bs = msg_body_length (read_msg s)"
  shows "\<exists>S' m. put_body bs (read_msg s) = Inr m \<and> on_read_body p (Some bs) S = Inr S' \<and>
    server_inv S' (log @ [m]) \<and> relayed m S S'"
proof -
  let ?ps = "participants (room S)"
  have si: "session_inv log (p \<in> set ?ps) s" using server_inv_session [OF inv s] .
  then obtain m where m: "put_body bs (read_msg s) = Inr m" "msg_ok m"
    using put_body_ok session_inv_msg len unfolding msg_ok_def by metis
  let ?s = "s\<lparr>reading := NoRead, read_msg := m\<rparr>" let ?S = "S\<lparr>sessions := (sessions S)(p \<mapsto> ?s)\<rparr>"
  have "server_inv ?S log" by (rule server_inv_upd [OF inv session_inv_reading(2) [OF si m(2)]])
  from room_deliver_inv [OF this m(2)] obtain S1 where
    S1: "room_deliver m ?S = Inr S1" "server_inv S1 (log @ [m])" "participants (room S1) = ?ps"
    and all: "\<And>q t. sessions ?S q = Some t \<Longrightarrow> \<exists>t'. sessions S1 q = Some t' \<and>
      (if q \<in> set ?ps then handed [m] t t' else t' = t)" by auto
  from all [of p ?s] obtain s1 where s1: "sessions S1 p = Some s1"
    "if p \<in> set ?ps then handed [m] ?s s1 else s1 = ?s" by auto
  let ?S1 = "S1\<lparr>sessions := (sessions S1)(p \<mapsto> session_do_read_header s1)\<rparr>"
  have "server_inv ?S1 (log @ [m])"
    unfolding session_do_read_header_def
    by (rule server_inv_upd [OF S1(2) session_inv_reading(1) [OF server_inv_session [OF S1(2) s1(1)]]])
  moreover have "\<exists>t'. sessions ?S1 q = Some t' \<and> (if q \<in> set ?ps
      then write_msgs t' = write_msgs t @ [m] \<and> sent t' = (if write_msgs t = [] then sent t @ [m] else sent t)
      else write_msgs t' = write_msgs t \<and> sent t' = sent t)" if t: "sessions S q = Some t" for q t
  proof (cases "q = p")
    case True
    then show ?thesis using s1(2) s t handed_one [of m ?s s1]
      by (cases "p \<in> set ?ps") (simp_all add: session_do_read_header_def)
  next
    case False
    then have "sessions ?S q = Some t" using t by simp
    then obtain t' where "sessions S1 q = Some t'" "if q \<in> set ?ps then handed [m] t t' else t' = t"
      using all by blast
    then show ?thesis using False handed_one [of m t t'] by (cases "q \<in> set ?ps") simp_all
  qed
  ultimately show ?thesis using S1 s1(1) m s by (simp add: on_read_body_def relayed_def)
qed

lemma on_write_inv [pres]:
  assumes inv: "server_inv S log" and s: "sessions S p = Some s" and pending: "0 < writing s"
  shows "\<exists>S'. on_write p ok S = Inr S' \<and> server_inv S' log"
proof -
  let ?part = "p \<in> set (participants (room S))"
  have si: "session_inv log ?part s" using server_inv_session [OF inv s] .
  with pending have step: "so.in_step s" by (auto simp: session_inv_def)
  show ?thesis
  proof (cases ok)
    case True
    obtain s' where s': "session_written s = Inr s'" "so.in_step s'" "so.accepted s' = so.accepted s"
      using so.fin_step [OF step] pending by auto
    have "session_inv log ?part s'"
      using si s' session_written_frame [OF s'(1)]
      by (cases "write_msgs s") (simp_all add: session_inv_def)
    with server_inv_upd [OF inv this] s s'(1) True show ?thesis by (simp add: on_write_def)
  next
    case False
    have "session_inv log False (s\<lparr>writing := writing s - 1\<rparr>)"
      using si step pending by (auto simp: session_inv_def so.in_step_def so.accepted_def split: if_splits)
    from leave_upd_inv [OF inv this, of p] s False show ?thesis by (simp add: on_write_def)
  qed
qed

lemma on_accept_inv [pres]:
  assumes inv: "server_inv S log" and r: "r = None \<or> (\<exists>p raw. r = Some (p, raw) \<and> sessions S p = None \<and> length raw = 516)"
  shows "\<exists>S'. on_accept r S = Inr S' \<and> server_inv S' log"
proof (cases r)
  case None
  with inv show ?thesis by (auto simp: on_accept_def do_accept_def server_inv_def Let_def)
next
  case (Some q)
  with r obtain p raw where q: "r = Some (p, raw)" "sessions S p = None" "length raw = 516" by auto
  obtain S1 where S1: "session_start p (S\<lparr>sessions := (sessions S)(p \<mapsto> new_session raw)\<rparr>) = Inr S1"
    "server_inv S1 log" using session_start_inv [OF inv q(2,3)] by blast
  have start: "session_start p (S\<lparr>accepting := 0, sessions := f\<rparr>) =
      and_then (session_start p (S\<lparr>sessions := f\<rparr>)) (\<lambda>T. Inr (T\<lparr>accepting := 0\<rparr>))" for f
    by (cases "deliver_all_to (recent_msgs (room S)) p f")
      (simp_all add: session_start_def room_join_def Let_def split: option.split)
  have "accepting S = 1" "accepting S1 = 1" using inv S1(2) by (simp_all add: server_inv_def)
  then have "on_accept r S = Inr S1" using q(1) S1(1) start
    by (simp add: on_accept_def do_accept_def Let_def)
  with S1(2) show ?thesis by blast
qed

section \<open>The running server\<close>

text \<open>
  One handler runs: \<open>server_step S ds S'\<close> with \<open>ds\<close> the messages the room delivered in it. A
  handler can run only while its operation is outstanding, async_read hands over exactly the
  bytes asked for, and make_shared returns an address of no live session.
\<close>

inductive server_step :: "chat_server \<Rightarrow> chat_message list \<Rightarrow> chat_server \<Rightarrow> bool" where
  accepted: "0 < accepting S \<Longrightarrow> sessions S p = None \<Longrightarrow> length raw = 516 \<Longrightarrow>
     on_accept (Some (p, raw)) S = Inr S' \<Longrightarrow> server_step S [] S'"
| accept_error: "0 < accepting S \<Longrightarrow> on_accept None S = Inr S' \<Longrightarrow> server_step S [] S'"
| header_read: "sessions S p = Some s \<Longrightarrow> reading s = ReadHeader \<Longrightarrow> length bs = header_length \<Longrightarrow>
     on_read_header p (Some bs) S = Inr S' \<Longrightarrow> server_step S [] S'"
| header_error: "sessions S p = Some s \<Longrightarrow> reading s = ReadHeader \<Longrightarrow>
     on_read_header p None S = Inr S' \<Longrightarrow> server_step S [] S'"
| body_read: "sessions S p = Some s \<Longrightarrow> reading s = ReadBody \<Longrightarrow>
     length bs = msg_body_length (read_msg s) \<Longrightarrow> put_body bs (read_msg s) = Inr m \<Longrightarrow>
     on_read_body p (Some bs) S = Inr S' \<Longrightarrow> server_step S [m] S'"
| body_error: "sessions S p = Some s \<Longrightarrow> reading s = ReadBody \<Longrightarrow>
     on_read_body p None S = Inr S' \<Longrightarrow> server_step S [] S'"
| written: "sessions S p = Some s \<Longrightarrow> 0 < writing s \<Longrightarrow> on_write p ok S = Inr S' \<Longrightarrow> server_step S [] S'"

inductive_cases server_stepE: "server_step S ds S'"

text \<open>The states the server can reach, with everything the room delivered on the way.\<close>

inductive server_reach :: "chat_server \<Rightarrow> chat_message list \<Rightarrow> bool" where
  start: "server_reach new_server []"
| step: "server_reach S log \<Longrightarrow> server_step S ds S' \<Longrightarrow> server_reach S' (log @ ds)"

lemma header_fault:
  assumes "session_inv log part s" "length bs = header_length" "NUL \<notin> set bs" "sessions S p = Some s"
  shows "on_read_header p (Some bs) S = Inl InvalidParameter"
proof -
  have ok: "msg_ok (put_header bs (read_msg s))"
    using put_header_ok session_inv_msg assms(1,2) by blast
  have "decode_header (put_header bs (read_msg s)) = Inl InvalidParameter"
    using decode_header_cases [OF ok] assms(2,3) by (simp add: put_header_def)
  with assms(4) show ?thesis by (simp add: on_read_header_def)
qed

lemma server_step_inv [pres]:
  assumes "server_step S ds S'" "server_inv S log"
  shows "server_inv S' (log @ ds)"
  using assms
proof (cases rule: server_step.cases)
  case (accepted p raw)
  with on_accept_inv [OF assms(2), of "Some (p, raw)"] show ?thesis by auto
next
  case accept_error
  with on_accept_inv [OF assms(2), of None] show ?thesis by auto
next
  case (header_read p s bs)
  note si = server_inv_session [OF assms(2) header_read(2)]
  have "NUL \<in> set bs"
    using header_fault [OF si header_read(4) _ header_read(2)] header_read(5) by auto
  with on_read_header_inv [OF assms(2) header_read(2,4)] header_read show ?thesis by auto
next
  case (header_error p s)
  with read_error_inv [OF assms(2) header_error(2)] show ?thesis
    by (simp add: on_read_header_def)
next
  case (body_read p s bs m)
  with on_read_body_inv [OF assms(2) body_read(2,4)] show ?thesis by auto
next
  case (body_error p s)
  with read_error_inv [OF assms(2) body_error(2)] show ?thesis
    by (simp add: on_read_body_def)
next
  case (written p s ok)
  with on_write_inv [OF assms(2) written(2,3), of ok] show ?thesis by auto
qed

lemma server_reach_inv: "server_reach S log \<Longrightarrow> server_inv S log"
  by (induction rule: server_reach.induct) (blast intro: new_server_inv server_step_inv)+

section \<open>A run for the witnesses\<close>

text \<open>One client connects and sends the three-byte message abc, which comes back to it.\<close>

definition blank :: string where "blank = replicate 516 NUL"

lemma length_blank [simp]: "length blank = 516"
  by (simp add: blank_def)

definition abc_header :: string where "abc_header = [CHR ''3'', NUL, NUL, NUL]"

lemma length_abc_header [simp]: "length abc_header = 4"
  by (simp add: abc_header_def)

definition abc_msg :: chat_message where
  "abc_msg = \<lparr>msg_data = abc_header @ ''abc'' @ drop 7 blank, msg_body_length = 3\<rparr>"

definition demo_server ::
  "read_op \<Rightarrow> chat_message \<Rightarrow> chat_message list \<Rightarrow> chat_message list \<Rightarrow> chat_message list \<Rightarrow> chat_server"
where
  "demo_server ro m ws snt rec = \<lparr>room = \<lparr>participants = [5], recent_msgs = rec\<rparr>,
     sessions = [5 \<mapsto> \<lparr>read_msg = m, write_msgs = ws, reading = ro, writing = length ws, sent = snt\<rparr>],
     accepting = 1\<rparr>"

lemma demo_accept:
  "on_accept (Some (5, blank)) new_server = Inr (demo_server ReadHeader (new_chat_message blank) [] [] [])"
  by (simp add: on_accept_def new_server_def do_accept_def session_start_def room_join_def
      demo_server_def new_session_def session_do_read_header_def Let_def)

lemma demo_decode:
  "decode_header (put_header abc_header (new_chat_message blank)) =
     Inr (True, \<lparr>msg_data = abc_header @ drop 4 blank, msg_body_length = 3\<rparr>)"
proof -
  let ?m = "put_header abc_header (new_chat_message blank)"
  have m: "?m = \<lparr>msg_data = abc_header @ drop 4 blank, msg_body_length = 0\<rparr>"
    by (simp add: put_header_def new_chat_message_def)
  have ok: "msg_ok ?m" by (simp add: m msg_ok_def msg_consts)
  have "cstr (msg_data ?m) = ''3''" unfolding m by (simp add: abc_header_def cstr_def NUL_def)
  moreover have "atoi ''3'' = 3" by (simp add: atoi_def is_space_def is_digit_def digit_val_def)
  moreover have "NUL \<in> set (take header_length (msg_data ?m))"
    by (simp add: m header_length_def) (simp add: abc_header_def)
  ultimately show ?thesis
    using decode_header_cases [OF ok] m by (simp add: to_size_t_def max_body_length_def)
qed

lemma demo_session [simp]:
  "sessions (demo_server ro m ws snt rec) 5 =
     Some \<lparr>read_msg = m, write_msgs = ws, reading = ro, writing = length ws, sent = snt\<rparr>"
  by (simp add: demo_server_def)

lemma demo_header:
  "on_read_header 5 (Some abc_header) (demo_server ReadHeader (new_chat_message blank) [] [] []) =
     Inr (demo_server ReadBody \<lparr>msg_data = abc_header @ drop 4 blank, msg_body_length = 3\<rparr> [] [] [])"
  by (simp add: on_read_header_def demo_server_def demo_decode session_do_read_body_def)

lemma demo_put: "put_body ''abc'' \<lparr>msg_data = abc_header @ drop 4 blank, msg_body_length = 3\<rparr> = Inr abc_msg"
  by (simp add: put_body_def abc_msg_def header_length_def)

lemma demo_body:
  "on_read_body 5 (Some ''abc'') (demo_server ReadBody \<lparr>msg_data = abc_header @ drop 4 blank, msg_body_length = 3\<rparr> [] [] []) =
     Inr (demo_server ReadHeader abc_msg [abc_msg] [abc_msg] [abc_msg])"
  unfolding on_read_body_def demo_server_def
  by (simp add: demo_put room_deliver_def trim_recent.simps max_recent_msgs_def deliver_to_def
      session_deliver_def session_do_write_def session_do_read_header_def Let_def)

lemma demo_reach:
  "server_reach (demo_server ReadHeader abc_msg [abc_msg] [abc_msg] [abc_msg]) [abc_msg]"
proof -
  have "server_step new_server [] (demo_server ReadHeader (new_chat_message blank) [] [] [])"
    by (rule server_step.accepted [OF _ _ _ demo_accept]) (simp_all add: new_server_def do_accept_def)
  from server_reach.step [OF server_reach.start this]
  have 1: "server_reach (demo_server ReadHeader (new_chat_message blank) [] [] []) []" by simp
  have "server_step (demo_server ReadHeader (new_chat_message blank) [] [] []) []
      (demo_server ReadBody \<lparr>msg_data = abc_header @ drop 4 blank, msg_body_length = 3\<rparr> [] [] [])"
    by (rule server_step.header_read [OF demo_session _ _ demo_header]) (simp_all add: header_length_def)
  from server_reach.step [OF 1 this]
  have 2: "server_reach (demo_server ReadBody \<lparr>msg_data = abc_header @ drop 4 blank, msg_body_length = 3\<rparr> [] [] []) []"
    by simp
  have "server_step (demo_server ReadBody \<lparr>msg_data = abc_header @ drop 4 blank, msg_body_length = 3\<rparr> [] [] [])
      [abc_msg] (demo_server ReadHeader abc_msg [abc_msg] [abc_msg] [abc_msg])"
    by (rule server_step.body_read [OF demo_session _ _ _ demo_body]) (simp_all add: demo_put)
  from server_reach.step [OF 2 this] show ?thesis by simp
qed

section \<open>Properties\<close>

text \<open>
  C3. Total order: in every reachable state, whatever interleaving of connections, reads,
  writes and errors led there, the messages a session has written or still has queued are a
  contiguous segment of the one sequence of messages the room has delivered, in that order,
  without loss or duplication; for a session in the room the segment reaches to the end.
\<close>

theorem chat_total_order:
  assumes "server_reach S log" and "sessions S p = Some s"
  shows "\<exists>i j. i \<le> j \<and> j \<le> length log \<and> sent s @ tl (write_msgs s) = drop i (take j log) \<and>
           (p \<in> set (participants (room S)) \<longrightarrow> j = length log)"
  using server_inv_session [OF server_reach_inv [OF assms(1)] assms(2)]
  by (simp add: session_inv_def so.accepted_def)

theorem chat_total_order_witness:
  "server_reach (demo_server ReadHeader abc_msg [abc_msg] [abc_msg] [abc_msg]) [abc_msg] \<and>
   (\<exists>i. [abc_msg] = drop i [abc_msg])"
  using chat_total_order [OF demo_reach, of 5] demo_reach by (auto simp: demo_server_def)

text \<open>
  C23. A session that connects joins the room, is handed the last messages the room delivered
  (all of them, or 100 if there were more), in order, and waits for a header.
\<close>

theorem join_replays_recent:
  assumes "server_reach S log" and "sessions S p = None" and "length raw = 516"
  shows "\<exists>S' s. on_accept (Some (p, raw)) S = Inr S' \<and> sessions S' p = Some s \<and>
           p \<in> set (participants (room S')) \<and> reading s = ReadHeader \<and>
           sent s @ tl (write_msgs s) = drop (length log - max_recent_msgs) log"
proof -
  note inv = server_reach_inv [OF assms(1)]
  let ?S = "S\<lparr>accepting := 0, sessions := (sessions S)(p \<mapsto> new_session raw)\<rparr>"
  have "so.in_step (new_session raw)" by (simp add: so.in_step_def new_session_def)
  then obtain s where s: "deliver_all_to (recent_msgs (room S)) p (sessions ?S) = Inr ((sessions ?S)(p \<mapsto> s))"
    "handed (recent_msgs (room S)) (new_session raw) s"
    using deliver_all_to_handed [of "sessions ?S" p "new_session raw"] by auto
  have acc: "accepting S = 1" and recent: "recent_msgs (room S) = drop (length log - max_recent_msgs) log"
    using inv by (simp_all add: server_inv_def)
  let ?ps = "if p \<in> set (participants (room S)) then participants (room S) else insort p (participants (room S))"
  let ?S' = "?S\<lparr>room := (room S)\<lparr>participants := ?ps\<rparr>,
    sessions := (sessions S)(p \<mapsto> session_do_read_header s), accepting := 1\<rparr>"
  have "on_accept (Some (p, raw)) S = Inr ?S'"
    using s(1) acc by (simp add: on_accept_def session_start_def room_join_def do_accept_def Let_def)
  moreover have "sent s @ tl (write_msgs s) = drop (length log - max_recent_msgs) log"
    using handed_new [OF s(2)] unfolding recent so.accepted_def .
  ultimately show ?thesis
    by (intro exI [of _ ?S'] exI [of _ "session_do_read_header s"])
      (simp add: session_do_read_header_def set_insort_key)
qed

theorem join_replays_recent_witness:
  "\<exists>S' s. on_accept (Some (9, blank)) (demo_server ReadHeader abc_msg [abc_msg] [abc_msg] [abc_msg]) = Inr S' \<and>
     sessions S' 9 = Some s \<and> sent s @ tl (write_msgs s) = [abc_msg]"
  using join_replays_recent [OF demo_reach, of 9 blank] by (auto simp: demo_server_def max_recent_msgs_def)

text \<open>
  C21. In every reachable state a session has at most one write outstanding and then a message
  to write, the room keeps at most 100 recent messages, every message the server holds (the one a
  session reads into, those queued or written by a session, the recent ones) has 516 bytes and a
  length of header and body within them, and exactly one accept is outstanding.
\<close>

theorem server_bounds:
  assumes "server_reach S log"
  shows "accepting S = 1 \<and> length (recent_msgs (room S)) \<le> 100 \<and> distinct (participants (room S)) \<and>
    (\<forall>p s. sessions S p = Some s \<longrightarrow> writing s \<le> 1 \<and> (writing s = 1 \<longrightarrow> write_msgs s \<noteq> []) \<and>
       msg_length (read_msg s) \<le> length (msg_data (read_msg s)) \<and>
       (\<forall>m \<in> {read_msg s} \<union> set (write_msgs s) \<union> set (sent s).
          length (msg_data m) = 516 \<and> msg_length m \<le> 516)) \<and>
    (\<forall>m \<in> set (recent_msgs (room S)). length (msg_data m) = 516 \<and> msg_length m \<le> 516)"
proof -
  note inv = server_reach_inv [OF assms]
  have ok: "length (msg_data m) = 516 \<and> msg_length m \<le> 516" if "msg_ok m" for m
    using that by (simp add: msg_ok_def msg_length_def msg_consts)
  have log: "msg_ok m" if "m \<in> set log" for m using inv that by (simp add: server_inv_def)
  have one: "writing s \<le> 1 \<and> (writing s = 1 \<longrightarrow> write_msgs s \<noteq> [])"
    and all: "\<forall>m \<in> {read_msg s} \<union> set (write_msgs s) \<union> set (sent s). msg_ok m" if "sessions S p = Some s" for p s
    using server_inv_session [OF inv that] session_inv_messages [OF server_inv_session [OF inv that]] log
    by (auto simp: session_inv_def so.in_step_def split: if_splits)
  have "\<forall>m \<in> set (recent_msgs (room S)). msg_ok m"
    using inv log by (auto simp: server_inv_def dest: in_set_dropD)
  moreover have "msg_length (read_msg s) \<le> length (msg_data (read_msg s))" if "sessions S p = Some s" for p s
    using all [OF that] ok [of "read_msg s"] by simp
  ultimately show ?thesis using inv one all ok by (simp add: server_inv_def max_recent_msgs_def)
qed

theorem server_bounds_witness:
  "accepting (demo_server ReadHeader abc_msg [abc_msg] [abc_msg] [abc_msg]) = 1"
  using server_bounds [OF demo_reach] by blast

text \<open>
  C4. No handler that can run in a reachable state faults, with one exception: a header read
  without a NUL among its four bytes makes decode_header violate the run-time constraint of
  strncat_s. An accept is always outstanding, and its handler, for an error or for a new connection
  (a session object of its own with the 516 bytes its memory holds), reading a body of the announced
  length, completing a write, and errors of reads and writes always succeed.
\<close>

theorem server_handlers_total:
  assumes "server_reach S log"
  shows "0 < accepting S \<and> (\<exists>S'. on_accept None S = Inr S') \<and>
    (\<forall>p raw. sessions S p = None \<and> length raw = 516 \<longrightarrow> (\<exists>S'. on_accept (Some (p, raw)) S = Inr S')) \<and>
    (\<forall>p s bs ok. sessions S p = Some s \<longrightarrow>
       (length bs = header_length \<longrightarrow>
          (if NUL \<in> set bs then \<exists>S'. on_read_header p (Some bs) S = Inr S'
           else on_read_header p (Some bs) S = Inl InvalidParameter)) \<and>
       (length bs = msg_body_length (read_msg s) \<longrightarrow> (\<exists>S'. on_read_body p (Some bs) S = Inr S')) \<and>
       (\<exists>S'. on_read_header p None S = Inr S') \<and> (\<exists>S'. on_read_body p None S = Inr S') \<and>
       (0 < writing s \<longrightarrow> (\<exists>S'. on_write p ok S = Inr S')))"
proof -
  note inv = server_reach_inv [OF assms]
  have acc: "0 < accepting S" using inv by (simp add: server_inv_def)
  have none: "\<exists>S'. on_accept None S = Inr S'" using on_accept_inv [OF inv, of None] by auto
  have new: "\<exists>S'. on_accept (Some (p, raw)) S = Inr S'" if "sessions S p = None \<and> length raw = 516" for p raw
    using on_accept_inv [OF inv, of "Some (p, raw)"] that by auto
  have hdr: "if NUL \<in> set bs then \<exists>S'. on_read_header p (Some bs) S = Inr S'
      else on_read_header p (Some bs) S = Inl InvalidParameter"
    if "sessions S p = Some s" "length bs = header_length" for p s bs
    using on_read_header_inv [OF inv that] header_fault [OF server_inv_session [OF inv that(1)] that(2) _ that(1)]
    by auto
  have bdy: "\<exists>S'. on_read_body p (Some bs) S = Inr S'"
    if "sessions S p = Some s" "length bs = msg_body_length (read_msg s)" for p s bs
    using on_read_body_inv [OF inv that] by blast
  have wrt: "\<exists>S'. on_write p ok S = Inr S'" if "sessions S p = Some s" "0 < writing s" for p s ok
    using on_write_inv [OF inv that] by blast
  have err: "(\<exists>S'. on_read_header p None S = Inr S') \<and> (\<exists>S'. on_read_body p None S = Inr S')"
    if "sessions S p = Some s" for p s using that by (simp add: on_read_header_def on_read_body_def)
  show ?thesis using acc none new hdr bdy wrt err by blast
qed

theorem server_handlers_total_witness:
  "on_read_header 5 (Some ''   5'') (demo_server ReadHeader abc_msg [abc_msg] [abc_msg] [abc_msg]) =
     Inl InvalidParameter \<and>
   (\<exists>S'. on_accept (Some (9, blank)) (demo_server ReadHeader abc_msg [abc_msg] [abc_msg] [abc_msg]) = Inr S')"
proof -
  have nul: "NUL \<notin> set ''   5''" by (simp add: NUL_def)
  have len: "length ''   5'' = header_length" by (simp add: header_length_def)
  have fresh: "sessions (demo_server ReadHeader abc_msg [abc_msg] [abc_msg] [abc_msg]) 9 = None"
    by (simp add: demo_server_def)
  from server_handlers_total [OF demo_reach] show ?thesis
    using demo_session nul len fresh length_blank by metis
qed

end
