(* ===== verification/Chat_Client.thy ===== *)
theory Chat_Client
  imports Chat_Message Outbox
begin

text \<open>
  MyChat/MyTCPChatCli01.cpp: the chat client. The main thread turns each input line into a
  message and posts it; the io_context thread runs the posted functions in the order of
  posting and the completion handlers of connect, read and write. Closing the socket makes
  every outstanding operation complete with an error.
\<close>

section \<open>State\<close>

datatype client_read = CNone | CHeader | CBody

datatype posted = PostWrite chat_message | PostClose

record chat_client =
  c_read_msg :: chat_message
  c_write_msgs :: "chat_message list"
  c_reading :: client_read          \<comment> \<open>outstanding async_read\<close>
  c_writing :: nat                  \<comment> \<open>outstanding async_write operations\<close>
  c_sent :: "chat_message list"     \<comment> \<open>messages handed to async_write, in order\<close>
  c_connecting :: bool              \<comment> \<open>async_connect outstanding\<close>
  c_open :: bool                    \<comment> \<open>the socket has not been closed\<close>
  c_posted :: "posted list"         \<comment> \<open>functions posted to the io_context\<close>
  c_out :: string                   \<comment> \<open>what went to std::cout\<close>

text \<open>The constructor calls \<open>do_connect\<close>.\<close>

definition new_client :: "string \<Rightarrow> chat_client" where
  "new_client raw = \<lparr>c_read_msg = new_chat_message raw, c_write_msgs = [], c_reading = CNone,
     c_writing = 0, c_sent = [], c_connecting = True, c_open = True, c_posted = [], c_out = []\<rparr>"

section \<open>The main thread\<close>

text \<open>The body of the input loop for one line: a message with the line as its body.\<close>

definition make_message :: "string \<Rightarrow> string \<Rightarrow> fault + chat_message" where
  "make_message raw line =
     (let m1 = set_body_length (length (cstr line)) (new_chat_message raw)
      in and_then (put_body (take (msg_body_length m1) line) m1) encode_header)"

text \<open>
  The loop: \<open>getline\<close> with a buffer of 513 characters fails on a line of more than 512, which
  ends the loop. Each message starts from whatever its storage holds (\<open>raw\<close>).
\<close>

fun input_loop :: "(string \<times> string) list \<Rightarrow> fault + chat_message list" where
  "input_loop [] = Inr []"
| "input_loop ((raw, line) # ls) =
     (if length line > max_body_length then Inr []
      else and_then (make_message raw line) (\<lambda>m.
             and_then (input_loop ls) (\<lambda>ms. Inr (m # ms))))"

definition client_write :: "chat_message \<Rightarrow> chat_client \<Rightarrow> chat_client" where
  "client_write msg c = c\<lparr>c_posted := c_posted c @ [PostWrite msg]\<rparr>"

definition client_close :: "chat_client \<Rightarrow> chat_client" where
  "client_close c = c\<lparr>c_posted := c_posted c @ [PostClose]\<rparr>"

section \<open>The io thread\<close>

definition client_do_write :: "chat_client \<Rightarrow> fault + chat_client" where
  "client_do_write c =
     (case c_write_msgs c of [] \<Rightarrow> Inl OutOfBounds
      | m # _ \<Rightarrow> Inr (c\<lparr>c_writing := Suc (c_writing c), c_sent := c_sent c @ [m]\<rparr>))"

text \<open>The function that \<open>write\<close> posts, and the success branch of the write handler.\<close>

definition client_enqueue :: "chat_message \<Rightarrow> chat_client \<Rightarrow> fault + chat_client" where
  "client_enqueue msg c =
     (let write_in_progress = (c_write_msgs c \<noteq> []);
          c1 = c\<lparr>c_write_msgs := c_write_msgs c @ [msg]\<rparr>
      in if \<not> write_in_progress then client_do_write c1 else Inr c1)"

definition client_written :: "chat_client \<Rightarrow> fault + chat_client" where
  "client_written c =
     (let c1 = c\<lparr>c_writing := c_writing c - 1, c_write_msgs := tl (c_write_msgs c)\<rparr>
      in if c_write_msgs c1 \<noteq> [] then client_do_write c1 else Inr c1)"

definition client_shut :: "chat_client \<Rightarrow> chat_client" where
  "client_shut c = c\<lparr>c_open := False\<rparr>"

definition client_do_read_header :: "chat_client \<Rightarrow> chat_client" where
  "client_do_read_header c = c\<lparr>c_reading := CHeader\<rparr>"

definition client_do_read_body :: "chat_client \<Rightarrow> chat_client" where
  "client_do_read_body c = c\<lparr>c_reading := CBody\<rparr>"

definition client_on_connect :: "bool \<Rightarrow> chat_client \<Rightarrow> chat_client" where
  "client_on_connect ok c =
     (let c1 = c\<lparr>c_connecting := False\<rparr> in if ok then client_do_read_header c1 else c1)"

definition client_on_read_header :: "string option \<Rightarrow> chat_client \<Rightarrow> fault + chat_client" where
  "client_on_read_header r c =
     (let c1 = c\<lparr>c_reading := CNone\<rparr>
      in case r of None \<Rightarrow> Inr (client_shut c1)
         | Some bs \<Rightarrow>
             and_then (decode_header (put_header bs (c_read_msg c1))) (\<lambda>(ok, m).
               let c2 = c1\<lparr>c_read_msg := m\<rparr>
               in Inr (if ok then client_do_read_body c2 else client_shut c2)))"

definition client_on_read_body :: "string option \<Rightarrow> chat_client \<Rightarrow> fault + chat_client" where
  "client_on_read_body r c =
     (let c1 = c\<lparr>c_reading := CNone\<rparr>
      in case r of None \<Rightarrow> Inr (client_shut c1)
         | Some bs \<Rightarrow>
             and_then (put_body bs (c_read_msg c1)) (\<lambda>m.
               let c2 = c1\<lparr>c_read_msg := m, c_out := c_out c1 @ body m @ [CHR 0x0A]\<rparr>
               in Inr (client_do_read_header c2)))"

definition client_on_write :: "bool \<Rightarrow> chat_client \<Rightarrow> fault + chat_client" where
  "client_on_write ok c =
     (if ok then client_written c
      else Inr (client_shut (c\<lparr>c_writing := c_writing c - 1\<rparr>)))"

definition client_run_posted :: "chat_client \<Rightarrow> fault + chat_client" where
  "client_run_posted c =
     (case c_posted c of [] \<Rightarrow> Inr c
      | PostWrite msg # ps \<Rightarrow> client_enqueue msg (c\<lparr>c_posted := ps\<rparr>)
      | PostClose # ps \<Rightarrow> Inr (client_shut (c\<lparr>c_posted := ps\<rparr>)))"

interpretation co: outbox c_write_msgs c_writing c_sent client_enqueue client_written
  by unfold_locales
    (auto simp: client_enqueue_def client_written_def client_do_write_def Let_def neq_Nil_conv)

section \<open>The running client\<close>

text \<open>
  \<open>client_step c ms c'\<close>: one action of either thread, with \<open>ms\<close> the messages the main thread
  wrote in it.
\<close>

inductive client_step :: "chat_client \<Rightarrow> chat_message list \<Rightarrow> chat_client \<Rightarrow> bool" where
  main_write: "client_step c [msg] (client_write msg c)"
| main_close: "client_step c [] (client_close c)"
| run_posted: "client_run_posted c = Inr c' \<Longrightarrow> client_step c [] c'"
| connected: "c_connecting c \<Longrightarrow> client_step c [] (client_on_connect ok c)"
| header_done: "c_reading c = CHeader \<Longrightarrow> (\<And>bs. r = Some bs \<Longrightarrow> length bs = header_length \<and> c_open c) \<Longrightarrow>
     client_on_read_header r c = Inr c' \<Longrightarrow> client_step c [] c'"
| body_done: "c_reading c = CBody \<Longrightarrow>
     (\<And>bs. r = Some bs \<Longrightarrow> length bs = msg_body_length (c_read_msg c) \<and> c_open c) \<Longrightarrow>
     client_on_read_body r c = Inr c' \<Longrightarrow> client_step c [] c'"
| write_done: "0 < c_writing c \<Longrightarrow> (ok \<Longrightarrow> c_open c) \<Longrightarrow> client_on_write ok c = Inr c' \<Longrightarrow> client_step c [] c'"

inductive client_reach :: "string \<Rightarrow> chat_client \<Rightarrow> chat_message list \<Rightarrow> bool" for raw where
  start: "client_reach raw (new_client raw) []"
| step: "client_reach raw c log \<Longrightarrow> client_step c ms c' \<Longrightarrow> client_reach raw c' (log @ ms)"

text \<open>The messages in the functions still posted.\<close>

fun posted_msgs :: "posted list \<Rightarrow> chat_message list" where
  "posted_msgs [] = []"
| "posted_msgs (PostWrite m # ps) = m # posted_msgs ps"
| "posted_msgs (PostClose # ps) = posted_msgs ps"

lemma posted_msgs_append [simp]: "posted_msgs (ps @ qs) = posted_msgs ps @ posted_msgs qs"
  by (induction ps rule: posted_msgs.induct) auto

definition client_inv :: "chat_client \<Rightarrow> chat_message list \<Rightarrow> bool" where
  "client_inv c log \<longleftrightarrow>
     msg_ok (c_read_msg c) \<and>
     co.accepted c @ posted_msgs (c_posted c) = log \<and>
     (co.in_step c \<or> (c_writing c = 0 \<and> \<not> c_open c \<and> c_write_msgs c \<noteq> []))"

lemma client_enqueue_frame:
  "client_enqueue m c = Inr c' \<Longrightarrow> c_read_msg c' = c_read_msg c \<and> c_posted c' = c_posted c \<and> c_open c' = c_open c"
  by (auto simp: client_enqueue_def client_do_write_def Let_def split: if_splits list.splits)

lemma client_written_frame:
  "client_written c = Inr c' \<Longrightarrow> c_read_msg c' = c_read_msg c \<and> c_posted c' = c_posted c \<and> c_open c' = c_open c"
  by (auto simp: client_written_def client_do_write_def Let_def split: if_splits list.splits)

lemma run_posted_inv [pres]:
  assumes "client_inv c log"
  shows "\<exists>c'. client_run_posted c = Inr c' \<and> client_inv c' log"
proof (cases "c_posted c" rule: posted_msgs.cases)
  case 1
  with assms show ?thesis by (simp add: client_run_posted_def)
next
  case (2 m ps)
  let ?c = "c\<lparr>c_posted := ps\<rparr>"
  show ?thesis
  proof (cases "co.in_step c")
    case True
    then have "co.in_step ?c" by (simp add: co.in_step_def)
    then obtain c' where c': "client_enqueue m ?c = Inr c'" "co.in_step c'"
      "co.accepted c' = co.accepted ?c @ [m]" by (rule co.enq_step)
    have "co.accepted ?c = co.accepted c" by (simp add: co.accepted_def)
    with c' client_enqueue_frame [OF c'(1)] assms 2 show ?thesis
      by (simp add: client_run_posted_def client_inv_def)
  next
    case False
    with assms 2 show ?thesis
      by (auto simp: client_run_posted_def client_inv_def client_enqueue_def co.accepted_def Let_def)
  qed
next
  case (3 ps)
  with assms show ?thesis
    by (auto simp: client_run_posted_def client_inv_def client_shut_def co.accepted_def co.in_step_def)
qed

lemma write_done_inv [pres]:
  assumes inv: "client_inv c log" and w: "0 < c_writing c"
  shows "\<exists>c'. client_on_write ok c = Inr c' \<and> client_inv c' log"
proof -
  have step: "co.in_step c" using assms by (auto simp: client_inv_def)
  show ?thesis
  proof (cases ok)
    case True
    obtain c' where c': "client_written c = Inr c'" "co.in_step c'" "co.accepted c' = co.accepted c"
      using co.fin_step [OF step] w by auto
    with client_written_frame [OF c'(1)] inv True show ?thesis
      by (simp add: client_on_write_def client_inv_def)
  next
    case False
    with inv step w show ?thesis
      by (auto simp: client_on_write_def client_inv_def client_shut_def co.accepted_def co.in_step_def
          split: if_splits)
  qed
qed

text \<open>Handlers of the reading side leave the outbox alone.\<close>

definition same_outbox :: "chat_client \<Rightarrow> chat_client \<Rightarrow> bool" where
  "same_outbox c c' \<longleftrightarrow> c_write_msgs c' = c_write_msgs c \<and> c_writing c' = c_writing c \<and>
     c_sent c' = c_sent c \<and> c_posted c' = c_posted c \<and> (c_open c' \<longrightarrow> c_open c)"

lemma same_outbox_inv:
  "client_inv c log \<Longrightarrow> same_outbox c c' \<Longrightarrow> msg_ok (c_read_msg c') \<Longrightarrow> client_inv c' log"
  by (auto simp: client_inv_def same_outbox_def co.accepted_def co.in_step_def)

lemma header_done_inv [pres]:
  assumes "client_inv c log" "client_on_read_header r c = Inr c'"
    and "\<And>bs. r = Some bs \<Longrightarrow> length bs = header_length"
  shows "client_inv c' log"
proof -
  have ok: "msg_ok (c_read_msg c)" using assms(1) by (simp add: client_inv_def)
  have "same_outbox c c'" using assms(2)
    by (auto simp: client_on_read_header_def same_outbox_def client_shut_def client_do_read_body_def
        and_then_Inr_iff Let_def split: option.splits if_splits)
  moreover have "msg_ok (c_read_msg c')" using assms(2,3) ok
    by (auto simp: client_on_read_header_def client_shut_def client_do_read_body_def
        and_then_Inr_iff Let_def split: option.splits if_splits
        dest!: decode_header_ok [rotated] intro!: put_header_ok)
  ultimately show ?thesis using assms(1) by (blast intro: same_outbox_inv)
qed

lemma put_body_keeps: "put_body bs m = Inr m' \<Longrightarrow> msg_ok m \<Longrightarrow> msg_ok m'"
  by (auto simp: put_body_def msg_ok_def split: if_splits)

lemma body_done_inv [pres]:
  assumes "client_inv c log" "client_on_read_body r c = Inr c'"
  shows "client_inv c' log"
proof -
  have ok: "msg_ok (c_read_msg c)" using assms(1) by (simp add: client_inv_def)
  have "same_outbox c c'" using assms(2)
    by (auto simp: client_on_read_body_def same_outbox_def client_shut_def client_do_read_header_def
        and_then_Inr_iff Let_def split: option.splits)
  moreover have "msg_ok (c_read_msg c')" using assms(2) ok
    by (auto simp: client_on_read_body_def client_shut_def client_do_read_header_def
        and_then_Inr_iff Let_def split: option.splits dest: put_body_keeps)
  ultimately show ?thesis using assms(1) by (blast intro: same_outbox_inv)
qed

lemma client_step_inv [pres]:
  assumes "client_step c ms c'" "client_inv c log"
  shows "client_inv c' (log @ ms)"
  using assms
proof (cases rule: client_step.cases)
  case (main_write msg)
  with assms(2) show ?thesis
    by (auto simp: client_inv_def client_write_def co.accepted_def co.in_step_def)
next
  case main_close
  with assms(2) show ?thesis
    by (auto simp: client_inv_def client_close_def co.accepted_def co.in_step_def)
next
  case run_posted
  with run_posted_inv [OF assms(2)] show ?thesis by auto
next
  case (connected ok)
  with assms(2) show ?thesis
    by (auto simp: client_inv_def client_on_connect_def client_do_read_header_def co.accepted_def
        co.in_step_def Let_def)
next
  case (header_done r)
  with header_done_inv [OF assms(2)] show ?thesis by auto
next
  case (body_done r)
  with body_done_inv [OF assms(2)] show ?thesis by auto
next
  case (write_done ok)
  with write_done_inv [OF assms(2), of ok] show ?thesis by auto
qed

lemma new_client_inv [pres]: "length raw = 516 \<Longrightarrow> client_inv (new_client raw) []"
  using new_chat_message_ok [of raw, unfolded msg_consts]
  by (simp add: client_inv_def new_client_def co.accepted_def co.in_step_def)

lemma client_reach_inv: "client_reach raw c log \<Longrightarrow> length raw = 516 \<Longrightarrow> client_inv c log"
  by (induction rule: client_reach.induct) (blast intro: new_client_inv client_step_inv)+

section \<open>Properties\<close>

text \<open>In every reachable state the messages handed to async_write, then those still queued,
  then those still posted, are exactly the messages the main thread wrote, in order; at most
  one write is outstanding, and none once a write failed.
\<close>

theorem client_sends_in_order:
  assumes "client_reach raw c log" and "length raw = 516"
  shows "c_sent c @ tl (c_write_msgs c) @ posted_msgs (c_posted c) = log \<and> c_writing c \<le> 1 \<and>
         (c_writing c = 0 \<and> c_write_msgs c \<noteq> [] \<longrightarrow> \<not> c_open c)"
  using client_reach_inv [OF assms]
  by (auto simp: client_inv_def co.accepted_def co.in_step_def split: if_splits)

definition raw0 :: string where "raw0 = replicate 516 NUL"

lemma raw0_length [simp]: "length raw0 = 516"
  by (simp add: raw0_def)

theorem client_sends_in_order_witness:
  "\<exists>c. client_reach raw0 c [new_chat_message raw0] \<and> c_sent c = [new_chat_message raw0]"
proof -
  let ?m = "new_chat_message raw0"
  have "client_step (new_client raw0) [?m] (client_write ?m (new_client raw0))"
    by (rule client_step.main_write)
  from client_reach.step [OF client_reach.start this]
  have 1: "client_reach raw0 (client_write ?m (new_client raw0)) [?m]" by simp
  obtain c where c: "client_run_posted (client_write ?m (new_client raw0)) = Inr c"
    "c_posted c = []" "c_write_msgs c = [?m]"
    by (simp add: client_run_posted_def client_write_def new_client_def client_enqueue_def
        client_do_write_def)
  from client_reach.step [OF 1 client_step.run_posted [OF c(1)]]
  have 2: "client_reach raw0 c [?m]" by simp
  from client_sends_in_order [OF 2] c(2,3) have "c_sent c = [?m]" by simp
  with 2 show ?thesis by blast
qed

lemma input_loop_result:
  assumes "\<And>raw line. (raw, line) \<in> set ls \<Longrightarrow> length raw = header_length + max_body_length"
  shows "\<exists>ms. input_loop ls = Inr ms \<and> (\<forall>m \<in> set ms. msg_ok m) \<and>
    map wire ms = map (\<lambda>(raw, line). fmt_4d (int (length (cstr line))) @ cstr line)
                      (takeWhile (\<lambda>(raw, line). length line \<le> max_body_length) ls)"
  using assms
proof (induction ls)
  case Nil
  then show ?case by simp
next
  case (Cons x ls)
  obtain raw line where x: "x = (raw, line)" by (cases x)
  obtain ms where ms: "input_loop ls = Inr ms" "\<forall>m \<in> set ms. msg_ok m"
    "map wire ms = map (\<lambda>(raw, line). fmt_4d (int (length (cstr line))) @ cstr line)
                      (takeWhile (\<lambda>(raw, line). length line \<le> max_body_length) ls)"
    using Cons.IH Cons.prems by force
  show ?case
  proof (cases "length line \<le> max_body_length")
    case False
    with x show ?thesis by simp
  next
    case True
    have raw: "length raw = header_length + max_body_length" using Cons.prems x by auto
    have le: "length (cstr line) \<le> max_body_length"
      using True length_takeWhile_le le_trans unfolding cstr_def by blast
    have tk: "take (length (cstr line)) line = cstr line"
      unfolding cstr_def by (simp add: takeWhile_eq_take [symmetric])
    let ?m = "\<lparr>msg_data = take header_length raw @ cstr line @ drop (header_length + length (cstr line)) raw,
               msg_body_length = length (cstr line)\<rparr>"
    have ok: "msg_ok ?m" using raw le by (simp add: msg_ok_def)
    obtain m where m: "encode_header ?m = Inr m" "msg_ok m"
      "m = ?m\<lparr>msg_data := fmt_4d (int (length (cstr line))) @ drop header_length (msg_data ?m)\<rparr>"
      using encode_header_result [OF ok] encode_header_ok [OF ok] by auto
    have "length (fmt_4d (int (length (cstr line)))) = 4" using length_fmt_4d [OF le] .
    then have "wire m = fmt_4d (int (length (cstr line))) @ cstr line"
      using m(3) raw by (simp add: wire_def msg_length_def header_length_def)
    moreover have "make_message raw line = Inr m"
      using m(1) raw le tk
      by (simp add: make_message_def set_body_length_def new_chat_message_def put_body_def Let_def)
    ultimately show ?thesis using x True ms m(2) by simp
  qed
qed

text \<open>Every input line of at most 512 characters becomes, without a fault, a well-formed
  message whose bytes on the wire are the line's length in four columns followed by the line
  (up to a NUL in it); the first longer line ends the input.
\<close>

theorem input_loop_wire:
  assumes "\<And>raw line. (raw, line) \<in> set ls \<Longrightarrow> length raw = header_length + max_body_length"
  shows "\<exists>ms. input_loop ls = Inr ms \<and> (\<forall>m \<in> set ms. msg_ok m) \<and>
    map wire ms = map (\<lambda>(raw, line). fmt_4d (int (length (cstr line))) @ cstr line)
                      (takeWhile (\<lambda>(raw, line). length line \<le> max_body_length) ls)"
  using assms by (rule input_loop_result)

theorem input_loop_wire_witness:
  "\<exists>ms. input_loop [(replicate 516 NUL, ''hi''), (replicate 516 NUL, '''')] = Inr ms \<and>
    map wire ms = [''   2hi'', ''   0'']"
proof -
  define ls where "ls = [(replicate 516 NUL, ''hi''), (replicate 516 NUL, '''')]"
  have f: "fmt_4d 2 = ''   2''" "fmt_4d 0 = ''   0''"
    by code_simp+
  have p: "length raw = header_length + max_body_length" if "(raw, line) \<in> set ls" for raw line
    using that by (auto simp: ls_def msg_consts)
  have w: "map (\<lambda>(raw, line). fmt_4d (int (length (cstr line))) @ cstr line)
       (takeWhile (\<lambda>(raw, line). length line \<le> max_body_length) ls) = [''   2hi'', ''   0'']"
    using f by (simp add: ls_def msg_consts cstr_def NUL_def)
  have "\<exists>ms. input_loop ls = Inr ms \<and> (\<forall>m \<in> set ms. msg_ok m) \<and>
    map wire ms = map (\<lambda>(raw, line). fmt_4d (int (length (cstr line))) @ cstr line)
                      (takeWhile (\<lambda>(raw, line). length line \<le> max_body_length) ls)"
    by (rule input_loop_wire) (rule p)
  then show ?thesis unfolding w unfolding ls_def by (elim exE conjE) (rule exI, rule conjI, assumption+)
qed

end
