(* ===== verification/Echo_Session.thy ===== *)
theory Echo_Session
  imports Prelude
begin

text \<open>
  MyChat/MyTCPSrv01.cpp: an echo session that is driven by readiness notifications of a
  non-blocking socket, the connection that turns its wishes into asynchronous waits, and the
  accepting server.
\<close>

section \<open>The session\<close>

datatype session_state = Reading | Writing

text \<open>
  \<open>write_buffer_\<close> is the part of \<open>data_\<close> still to be written; \<open>got\<close> and \<open>put\<close> record all
  bytes the socket delivered and accepted.
\<close>

record session =
  ses_state :: session_state        \<comment> \<open>\<open>state_\<close>\<close>
  write_buffer :: string            \<comment> \<open>\<open>write_buffer_\<close>\<close>
  got :: string
  put :: string

definition new_session :: session where
  "new_session = \<lparr>ses_state = Reading, write_buffer = [], got = [], put = []\<rparr>"

text \<open>Error codes: success, would_block, or any other error.\<close>

datatype ec = Ok | WouldBlock | Failed

definition want_read :: "session \<Rightarrow> bool" where
  "want_read s \<longleftrightarrow> ses_state s = Reading"

definition want_write :: "session \<Rightarrow> bool" where
  "want_write s \<longleftrightarrow> ses_state s = Writing"

text \<open>
  \<open>read_some\<close> delivers at most the 128 bytes of \<open>data_\<close>, and none with an error;
  \<open>write_some\<close> accepts a prefix of the buffer, and nothing with an error.
\<close>

definition read_some_ok :: "string \<Rightarrow> ec \<Rightarrow> bool" where
  "read_some_ok bs e \<longleftrightarrow> length bs \<le> 128 \<and> (e \<noteq> Ok \<longrightarrow> bs = [])"

definition write_some_ok :: "session \<Rightarrow> nat \<Rightarrow> ec \<Rightarrow> bool" where
  "write_some_ok s n e \<longleftrightarrow> n \<le> length (write_buffer s) \<and> (e \<noteq> Ok \<longrightarrow> n = 0)"

definition do_read :: "string \<Rightarrow> session \<Rightarrow> session" where
  "do_read bs s =
     (if length bs \<noteq> 0
      then s\<lparr>write_buffer := bs, ses_state := Writing, got := got s @ bs\<rparr> else s)"

definition do_write :: "nat \<Rightarrow> session \<Rightarrow> session" where
  "do_write len s =
     (if len \<noteq> 0
      then let s1 = s\<lparr>put := put s @ take len (write_buffer s), write_buffer := drop len (write_buffer s)\<rparr>
           in s1\<lparr>ses_state := (if length (write_buffer s1) > 0 then Writing else Reading)\<rparr>
      else s)"

section \<open>The connection\<close>

record connection =
  session_impl :: session
  read_in_progress :: bool
  write_in_progress :: bool
  read_waits :: nat          \<comment> \<open>outstanding async_wait for reading\<close>
  write_waits :: nat         \<comment> \<open>outstanding async_wait for writing\<close>
  sock_open :: bool

definition new_connection :: connection where
  "new_connection = \<lparr>session_impl = new_session, read_in_progress = False, write_in_progress = False,
     read_waits = 0, write_waits = 0, sock_open = True\<rparr>"

definition start_operations :: "connection \<Rightarrow> connection" where
  "start_operations c =
     (let c1 = (if want_read (session_impl c) \<and> \<not> read_in_progress c
                then c\<lparr>read_in_progress := True, read_waits := Suc (read_waits c)\<rparr> else c)
      in if want_write (session_impl c1) \<and> \<not> write_in_progress c1
         then c1\<lparr>write_in_progress := True, write_waits := Suc (write_waits c1)\<rparr> else c1)"

text \<open>\<open>start\<close> also puts the socket into non-blocking mode.\<close>

definition conn_start :: "connection \<Rightarrow> connection" where
  "conn_start c = start_operations c"

definition conn_close :: "connection \<Rightarrow> connection" where
  "conn_close c = c\<lparr>sock_open := False\<rparr>"

text \<open>
  The handlers: \<open>e\<close> is the error code of the wait; \<open>bs\<close> or \<open>n\<close> and \<open>e'\<close> are the result of
  the read or write that the session performs when the wait succeeded.
\<close>

definition handle_read :: "ec \<Rightarrow> string \<Rightarrow> ec \<Rightarrow> connection \<Rightarrow> connection" where
  "handle_read e bs e' c =
     (let c1 = c\<lparr>read_in_progress := False, read_waits := read_waits c - 1\<rparr>;
          c2 = (if e = Ok then c1\<lparr>session_impl := do_read bs (session_impl c1)\<rparr> else c1);
          e2 = (if e = Ok then e' else e)
      in if e2 = Ok \<or> e2 = WouldBlock then start_operations c2 else conn_close c2)"

definition handle_write :: "ec \<Rightarrow> nat \<Rightarrow> ec \<Rightarrow> connection \<Rightarrow> connection" where
  "handle_write e n e' c =
     (let c1 = c\<lparr>write_in_progress := False, write_waits := write_waits c - 1\<rparr>;
          c2 = (if e = Ok then c1\<lparr>session_impl := do_write n (session_impl c1)\<rparr> else c1);
          e2 = (if e = Ok then e' else e)
      in if e2 = Ok \<or> e2 = WouldBlock then start_operations c2 else conn_close c2)"

inductive conn_step :: "connection \<Rightarrow> connection \<Rightarrow> bool" where
  read_ready: "0 < read_waits c \<Longrightarrow> (e = Ok \<Longrightarrow> sock_open c \<and> read_some_ok bs e') \<Longrightarrow>
     conn_step c (handle_read e bs e' c)"
| write_ready: "0 < write_waits c \<Longrightarrow> (e = Ok \<Longrightarrow> sock_open c \<and> write_some_ok (session_impl c) n e') \<Longrightarrow>
     conn_step c (handle_write e n e' c)"

inductive conn_reach :: "connection \<Rightarrow> bool" where
  start: "conn_reach (conn_start new_connection)"
| step: "conn_reach c \<Longrightarrow> conn_step c c' \<Longrightarrow> conn_reach c'"

section \<open>The invariant\<close>

definition session_ok :: "session \<Rightarrow> bool" where
  "session_ok s \<longleftrightarrow> got s = put s @ write_buffer s \<and> length (write_buffer s) \<le> 128 \<and>
     (ses_state s = Writing \<longleftrightarrow> write_buffer s \<noteq> [])"

text \<open>One wait is outstanding, for what the session wants; none once the socket is closed.\<close>

definition conn_inv :: "connection \<Rightarrow> bool" where
  "conn_inv c \<longleftrightarrow> session_ok (session_impl c) \<and>
     read_waits c = of_bool (read_in_progress c) \<and> write_waits c = of_bool (write_in_progress c) \<and>
     (if sock_open c
      then read_in_progress c = want_read (session_impl c) \<and> write_in_progress c = want_write (session_impl c)
      else \<not> read_in_progress c \<and> \<not> write_in_progress c)"

lemma do_read_ok [pres]:
  "session_ok s \<Longrightarrow> want_read s \<Longrightarrow> read_some_ok bs e \<Longrightarrow> session_ok (do_read bs s)"
  by (auto simp: session_ok_def do_read_def want_read_def read_some_ok_def)

lemma do_write_ok [pres]:
  "session_ok s \<Longrightarrow> write_some_ok s n e \<Longrightarrow> session_ok (do_write n s)"
  by (auto simp: session_ok_def do_write_def write_some_ok_def Let_def)

lemma state_cases: "want_write s \<longleftrightarrow> \<not> want_read s"
  by (cases "ses_state s") (auto simp: want_read_def want_write_def)

lemma start_operations_inv [pres]:
  assumes "session_ok (session_impl c)" "\<not> read_in_progress c" "\<not> write_in_progress c"
    "read_waits c = 0" "write_waits c = 0" "sock_open c"
  shows "conn_inv (start_operations c)"
  using assms by (auto simp: start_operations_def conn_inv_def state_cases Let_def)

lemma handle_read_inv [pres]:
  assumes "conn_inv c" "0 < read_waits c" "e = Ok \<Longrightarrow> read_some_ok bs e'"
  shows "conn_inv (handle_read e bs e' c)"
proof -
  have c: "sock_open c" "read_in_progress c" "\<not> write_in_progress c" "read_waits c = 1"
    "write_waits c = 0" "want_read (session_impl c)" "session_ok (session_impl c)"
    using assms(1,2) by (auto simp: conn_inv_def state_cases split: if_splits)
  have ok: "session_ok (do_read bs (session_impl c))" if "e = Ok"
    using assms(3) that c by (blast intro: do_read_ok)
  show ?thesis
    using c ok unfolding handle_read_def Let_def
    by (auto intro!: start_operations_inv) (auto simp: conn_inv_def conn_close_def)
qed

lemma handle_write_inv [pres]:
  assumes "conn_inv c" "0 < write_waits c" "e = Ok \<Longrightarrow> write_some_ok (session_impl c) n e'"
  shows "conn_inv (handle_write e n e' c)"
proof -
  have c: "sock_open c" "write_in_progress c" "\<not> read_in_progress c" "write_waits c = 1"
    "read_waits c = 0" "session_ok (session_impl c)"
    using assms(1,2) by (auto simp: conn_inv_def state_cases split: if_splits)
  have ok: "session_ok (do_write n (session_impl c))" if "e = Ok"
    using assms(3) that c by (blast intro: do_write_ok)
  show ?thesis
    using c ok unfolding handle_write_def Let_def
    by (auto intro!: start_operations_inv) (auto simp: conn_inv_def conn_close_def)
qed

lemma new_connection_inv [pres]: "conn_inv (conn_start new_connection)"
  unfolding conn_start_def
  by (rule start_operations_inv) (simp_all add: new_connection_def new_session_def session_ok_def)

lemma conn_step_inv [pres]: "conn_step c c' \<Longrightarrow> conn_inv c \<Longrightarrow> conn_inv c'"
  by (erule conn_step.cases) (auto intro: handle_read_inv handle_write_inv)

lemma conn_reach_inv: "conn_reach c \<Longrightarrow> conn_inv c"
  by (induction rule: conn_reach.induct) (blast intro: new_connection_inv conn_step_inv)+

section \<open>The server\<close>

record echo_server =
  connections :: "connection list"
  accepts :: nat            \<comment> \<open>outstanding async_accept\<close>

definition start_accept :: "echo_server \<Rightarrow> echo_server" where
  "start_accept s = s\<lparr>accepts := Suc (accepts s)\<rparr>"

definition handle_accept :: "ec \<Rightarrow> echo_server \<Rightarrow> echo_server" where
  "handle_accept error s =
     (let s1 = s\<lparr>accepts := accepts s - 1\<rparr>;
          s2 = (if error = Ok then s1\<lparr>connections := connections s1 @ [conn_start new_connection]\<rparr> else s1)
      in start_accept s2)"

section \<open>Properties\<close>

text \<open>Echo: in every reachable state of a connection the bytes written back, followed by the
  bytes still in the write buffer, are exactly the bytes read from the peer, in order, and the
  buffer never holds more than the 128 bytes of the data array.
\<close>

theorem echo_exact:
  assumes "conn_reach c"
  shows "got (session_impl c) = put (session_impl c) @ write_buffer (session_impl c) \<and>
         length (write_buffer (session_impl c)) \<le> 128"
  using conn_reach_inv [OF assms] by (simp add: conn_inv_def session_ok_def)

lemma echo_run:
  "conn_reach (handle_write Ok 1 Ok (handle_read Ok ''ab'' Ok (conn_start new_connection)))"
proof -
  have "conn_reach (handle_read Ok ''ab'' Ok (conn_start new_connection))"
    by (rule conn_reach.step [OF conn_reach.start conn_step.read_ready])
      (auto simp: conn_start_def start_operations_def new_connection_def new_session_def want_read_def
        want_write_def read_some_ok_def)
  then show ?thesis
    by (rule conn_reach.step [OF _ conn_step.write_ready])
      (auto simp: conn_start_def start_operations_def new_connection_def new_session_def want_read_def
        want_write_def handle_read_def do_read_def write_some_ok_def Let_def)
qed

theorem echo_exact_witness:
  "\<exists>c. conn_reach c \<and> got (session_impl c) = ''ab'' \<and> put (session_impl c) = ''a'' \<and>
     got (session_impl c) = put (session_impl c) @ write_buffer (session_impl c)"
proof -
  let ?c = "handle_write Ok 1 Ok (handle_read Ok ''ab'' Ok (conn_start new_connection))"
  have "got (session_impl ?c) = ''ab''" "put (session_impl ?c) = ''a''"
    by (simp_all add: conn_start_def start_operations_def new_connection_def new_session_def want_read_def
        want_write_def handle_read_def handle_write_def do_read_def do_write_def Let_def)
  with echo_exact [OF echo_run] echo_run show ?thesis by blast
qed

text \<open>While the socket is open exactly one wait is outstanding, a read wait when the session
  wants to read and a write wait when it wants to write, so a connection is never stuck and
  never reads and writes at the same time; after closing none is outstanding.
\<close>

theorem connection_never_stuck:
  assumes "conn_reach c"
  shows "read_waits c + write_waits c = of_bool (sock_open c) \<and>
         (sock_open c \<longrightarrow> (read_waits c = 1 \<longleftrightarrow> want_read (session_impl c)) \<and>
                          (write_waits c = 1 \<longleftrightarrow> want_write (session_impl c)))"
  using conn_reach_inv [OF assms] by (auto simp: conn_inv_def state_cases)

theorem connection_never_stuck_witness:
  "read_waits (conn_start new_connection) + write_waits (conn_start new_connection) = 1"
  using connection_never_stuck [OF conn_reach.start]
  by (simp add: conn_start_def start_operations_def new_connection_def new_session_def want_read_def
      want_write_def)

end
