(* ===== verification/Sorting.thy ===== *)
theory Sorting
  imports Prelude
begin

text \<open>
  MyUtil/MySort.c: insertion sort and quicksort over cells of a caller's element size with a
  caller's comparison. The block of \<open>size\<close> cells is a list, one entry per cell; the value of
  each malloc and rand call is an argument.
\<close>

section \<open>Insertion sort\<close>

text \<open>The while loop that shifts larger cells to the right; it leaves the final \<open>i\<close>.\<close>

function issort_shift :: "('a \<Rightarrow> 'a \<Rightarrow> int) \<Rightarrow> 'a \<Rightarrow> int \<Rightarrow> 'a list \<Rightarrow> fault + (int \<times> 'a list)" where
  "issort_shift compare key i a =
     (if i \<ge> 0
      then and_then (rd a i) (\<lambda>x.
             if compare x key > 0
             then and_then (wr a (i + 1) x) (\<lambda>a1. issort_shift compare key (i - 1) a1)
             else Inr (i, a))
      else Inr (i, a))"
  by pat_completeness auto
termination
  by (relation "measure (\<lambda>(_, _, i, _). nat (i + 1))") (auto simp: rd_def)

declare issort_shift.simps [simp del]

function issort_from :: "('a \<Rightarrow> 'a \<Rightarrow> int) \<Rightarrow> int \<Rightarrow> int \<Rightarrow> 'a list \<Rightarrow> fault + 'a list" where
  "issort_from compare siz j a =
     (if j < siz
      then and_then (rd a j) (\<lambda>key.
             and_then (issort_shift compare key (j - 1) a) (\<lambda>(i, a1).
               and_then (wr a1 (i + 1) key) (\<lambda>a2. issort_from compare siz (j + 1) a2)))
      else Inr a)"
  by pat_completeness auto
termination
  by (relation "measure (\<lambda>(_, siz, j, _). nat (siz - j))") auto

declare issort_from.simps [simp del]

text \<open>\<open>key_ok\<close>: whether malloc returned a block for the key.\<close>

definition issort :: "bool \<Rightarrow> 'a list \<Rightarrow> int \<Rightarrow> ('a \<Rightarrow> 'a \<Rightarrow> int) \<Rightarrow> fault + (int \<times> 'a list)" where
  "issort key_ok a siz compare =
     (if \<not> key_ok then Inr (-1, a)
      else and_then (issort_from compare siz 1 a) (\<lambda>a1. Inr (0, a1)))"

definition compare_int :: "int \<Rightarrow> int \<Rightarrow> int" where
  "compare_int int1 int2 = (if int1 > int2 then 1 else if int1 < int2 then -1 else 0)"

section \<open>The contract of a comparison\<close>

text \<open>What C's sorting interface expects of \<open>compare\<close>: a total preorder, told by the sign.\<close>

locale comparison =
  fixes compare :: "'a \<Rightarrow> 'a \<Rightarrow> int"
  assumes sign: "compare x y > 0 \<longleftrightarrow> compare y x < 0"
    and le_trans: "compare x y \<le> 0 \<Longrightarrow> compare y z \<le> 0 \<Longrightarrow> compare x z \<le> 0"
begin

definition ordered :: "'a list \<Rightarrow> bool" where
  "ordered xs \<longleftrightarrow> sorted_wrt (\<lambda>x y. compare x y \<le> 0) xs"

lemma compare_refl [simp]: "compare x x = 0"
  using sign [of x x] by linarith

lemma le_of_not: "\<not> compare x y \<le> 0 \<Longrightarrow> compare y x \<le> 0"
  using sign [of x y] by linarith

lemma shift_result:
  "\<exists>ys gs c. issort_shift compare key (int (length xs) - 1) (xs @ y # zs) =
       Inr (int (length ys) - 1, ys @ c # gs @ zs) \<and> xs = ys @ gs \<and>
     (\<forall>g \<in> set gs. compare g key > 0) \<and> (ys \<noteq> [] \<longrightarrow> compare (last ys) key \<le> 0)"
proof (induction xs arbitrary: y zs rule: rev_induct)
  case Nil
  show ?case by (subst issort_shift.simps) auto
next
  case (snoc x xs)
  have read: "rd (xs @ x # y # zs) (int (length xs)) = Inr x"
    by (simp add: nth_append)
  show ?case
  proof (cases "compare x key > 0")
    case False
    then show ?thesis using read
      by (intro exI [of _ "xs @ [x]"] exI [of _ "[]"] exI [of _ y], subst issort_shift.simps) simp
  next
    case True
    have "wr (xs @ x # y # zs) (int (length xs) + 1) x = Inr (xs @ x # x # zs)"
      using wr_nat [of "Suc (length xs)" "xs @ x # y # zs" x] by (simp add: list_update_append add.commute)
    with True read have eq: "issort_shift compare key (int (length (xs @ [x])) - 1) ((xs @ [x]) @ y # zs) =
        issort_shift compare key (int (length xs) - 1) (xs @ x # x # zs)"
      by (subst issort_shift.simps) simp
    obtain ys gs c where h: "issort_shift compare key (int (length xs) - 1) (xs @ x # x # zs) =
         Inr (int (length ys) - 1, ys @ c # gs @ x # zs)" "xs = ys @ gs"
      "\<forall>g \<in> set gs. compare g key > 0" "ys \<noteq> [] \<longrightarrow> compare (last ys) key \<le> 0"
      using snoc.IH [of x "x # zs"] by blast
    show ?thesis unfolding eq
      by (rule exI [of _ ys], rule exI [of _ "gs @ [x]"], rule exI [of _ c]) (use h True in auto)
  qed
qed

lemma ordered_insert:
  assumes "ordered (ys @ gs)" "\<forall>g \<in> set gs. compare g key > 0" "ys \<noteq> [] \<longrightarrow> compare (last ys) key \<le> 0"
  shows "ordered (ys @ key # gs)"
proof -
  have "compare y key \<le> 0" if "y \<in> set ys" for y
  proof (cases ys rule: rev_cases)
    case Nil
    with that show ?thesis by simp
  next
    case (snoc us u)
    then have "compare u key \<le> 0" using assms(3) by simp
    moreover have "y = u \<or> compare y u \<le> 0"
      using that assms(1) snoc by (auto simp: ordered_def sorted_wrt_append)
    ultimately show ?thesis using le_trans by blast
  qed
  moreover have "compare key g \<le> 0" if "g \<in> set gs" for g
    using that assms(2) sign [of g key] by force
  ultimately show ?thesis using assms(1) by (auto simp: ordered_def sorted_wrt_append)
qed

text \<open>Equal elements keep their order.\<close>

definition equals_of :: "'a \<Rightarrow> 'a list \<Rightarrow> 'a list" where
  "equals_of v xs = filter (\<lambda>x. compare x v = 0) xs"

lemma stable_insert:
  assumes "\<forall>g \<in> set gs. compare g key > 0"
  shows "equals_of v (ys @ key # gs) = equals_of v (ys @ gs @ [key])"
proof (cases "compare key v = 0")
  case True
  have "compare g v \<noteq> 0" if "g \<in> set gs" for g
  proof
    assume gv: "compare g v = 0"
    have "compare v key \<le> 0" using True sign [of v key] by linarith
    with gv have "compare g key \<le> 0" using le_trans [of g v key] by linarith
    with assms that show False by fastforce
  qed
  then have "equals_of v gs = []" by (auto simp: equals_of_def)
  then show ?thesis by (simp add: equals_of_def)
next
  case False
  then show ?thesis by (simp add: equals_of_def)
qed

lemma equals_of_append: "equals_of v (xs @ ys) = equals_of v xs @ equals_of v ys"
  by (simp add: equals_of_def)

lemma issort_from_result:
  "ordered xs \<Longrightarrow>
   \<exists>us. issort_from compare (int (length xs + length zs)) (int (length xs)) (xs @ zs @ rest) = Inr (us @ rest) \<and>
        ordered us \<and> mset us = mset (xs @ zs) \<and> (\<forall>v. equals_of v us = equals_of v (xs @ zs))"
proof (induction zs arbitrary: xs)
  case Nil
  then show ?case by (subst issort_from.simps) auto
next
  case (Cons z zs)
  obtain ys gs c where h: "issort_shift compare z (int (length xs) - 1) (xs @ z # zs @ rest) =
      Inr (int (length ys) - 1, ys @ c # gs @ zs @ rest)" "xs = ys @ gs"
    "\<forall>g \<in> set gs. compare g z > 0" "ys \<noteq> [] \<longrightarrow> compare (last ys) z \<le> 0"
    using shift_result [of z xs z "zs @ rest"] by blast
  have ord: "ordered (ys @ z # gs)" using Cons.prems h by (blast intro: ordered_insert)
  have read: "rd (xs @ z # zs @ rest) (int (length xs)) = Inr z" by (simp add: nth_append)
  have step: "issort_from compare (int (length xs + length (z # zs))) (int (length xs)) (xs @ (z # zs) @ rest) =
     issort_from compare (int (length (ys @ z # gs) + length zs)) (int (length (ys @ z # gs)))
       ((ys @ z # gs) @ zs @ rest)"
    using read h(1,2) by (subst issort_from.simps) (simp add: add.commute add.left_commute)
  obtain us where us: "issort_from compare (int (length (ys @ z # gs) + length zs)) (int (length (ys @ z # gs)))
       ((ys @ z # gs) @ zs @ rest) = Inr (us @ rest)" "ordered us" "mset us = mset ((ys @ z # gs) @ zs)"
      "\<forall>v. equals_of v us = equals_of v ((ys @ z # gs) @ zs)"
    using Cons.IH [OF ord] by blast
  have "equals_of v us = equals_of v (xs @ z # zs)" for v
  proof -
    have "equals_of v us = equals_of v (ys @ z # gs) @ equals_of v zs"
      using us(4) by (simp only: equals_of_append)
    also have "\<dots> = equals_of v (ys @ gs @ [z]) @ equals_of v zs"
      by (simp only: stable_insert [OF h(3)])
    also have "\<dots> = equals_of v (xs @ z # zs)"
      using h(2) equals_of_append [of v "ys @ gs @ [z]" zs] by simp
    finally show ?thesis .
  qed
  then show ?case using step us h(2) by auto
qed

lemma issort_result:
  assumes "siz \<le> length a"
  shows "\<exists>us. issort True a (int siz) compare = Inr (0, us @ drop siz a) \<and> ordered us \<and>
           mset us = mset (take siz a) \<and> (\<forall>v. equals_of v us = equals_of v (take siz a))"
proof (cases "take siz a")
  case Nil
  then have "\<not> 1 < int siz" using assms by (cases a) (auto simp: take_eq_Nil)
  then show ?thesis using Nil assms
    by (auto simp: issort_def issort_from.simps [of compare "int siz" 1 a] ordered_def take_eq_Nil)
next
  case (Cons x zs)
  have len: "siz = length [x] + length zs" using Cons assms by (metis length_Cons length_take list.size(3) min.absorb2 One_nat_def plus_1_eq_Suc)
  have a: "a = [x] @ zs @ drop siz a" using Cons by (metis append_Cons append_Nil append_take_drop_id)
  obtain us where "issort_from compare (int (length [x] + length zs)) (int (length [x])) ([x] @ zs @ drop siz a) =
       Inr (us @ drop siz a)" "ordered us" "mset us = mset ([x] @ zs)" "\<forall>v. equals_of v us = equals_of v ([x] @ zs)"
    using issort_from_result [of "[x]" zs "drop siz a"] by (auto simp: ordered_def)
  then show ?thesis using Cons a len by (auto simp: issort_def)
qed

end

interpretation ci: comparison compare_int
  by unfold_locales (auto simp: compare_int_def split: if_splits)

section \<open>Quicksort\<close>

text \<open>
  What one call of \<open>partition\<close> draws: whether its two mallocs and the one in its \<open>issort\<close>
  succeed, and the values of the three calls of rand.
\<close>

record part_env =
  pval_ok :: bool
  temp_ok :: bool
  key_ok :: bool
  rand0 :: int
  rand1 :: int
  rand2 :: int

text \<open>The median of three positions. The result of \<open>issort\<close> is not looked at.\<close>

definition pivot_index :: "part_env \<Rightarrow> int \<Rightarrow> int \<Rightarrow> fault + int" where
  "pivot_index e i k =
     (if k - i + 1 = 0 then Inl DivByZero
      else and_then (issort (key_ok e)
              [c_mod (rand0 e) (k - i + 1) + i, c_mod (rand1 e) (k - i + 1) + i, c_mod (rand2 e) (k - i + 1) + i]
              3 compare_int)
            (\<lambda>(_, r). rd r 1))"

function scan_down :: "('a \<Rightarrow> 'a \<Rightarrow> int) \<Rightarrow> 'a \<Rightarrow> 'a list \<Rightarrow> int \<Rightarrow> fault + int" where
  "scan_down compare pval a k =
     and_then (rd a (k - 1)) (\<lambda>x. if compare x pval > 0 then scan_down compare pval a (k - 1) else Inr (k - 1))"
  by pat_completeness auto
termination
  by (relation "measure (\<lambda>(_, _, _, k). nat k)") (auto simp: rd_def in_range_def split: if_splits)

text \<open>The loop condition is the bare result of the comparison: it stops at an equal cell only.\<close>

function scan_up :: "('a \<Rightarrow> 'a \<Rightarrow> int) \<Rightarrow> 'a \<Rightarrow> 'a list \<Rightarrow> int \<Rightarrow> fault + int" where
  "scan_up compare pval a i =
     and_then (rd a (i + 1)) (\<lambda>x. if compare x pval \<noteq> 0 then scan_up compare pval a (i + 1) else Inr (i + 1))"
  by pat_completeness auto
termination
  by (relation "measure (\<lambda>(_, _, a, i). nat (int (length a) - i))") (auto simp: rd_def in_range_def split: if_splits)

declare scan_down.simps [simp del] scan_up.simps [simp del]

lemma scan_down_less: "scan_down compare pval a k = Inr k1 \<Longrightarrow> 0 \<le> k1 \<and> k1 < k"
proof (induction compare pval a k rule: scan_down.induct)
  case (1 compare pval a k)
  from "1.prems" show ?case
    by (subst (asm) scan_down.simps)
      (auto simp: and_then_Inr_iff rd_def in_range_def split: if_splits dest!: "1.IH" [rotated 2])
qed

text \<open>The endless loop of \<open>partition\<close>, left by its break.\<close>

function part_loop :: "('a \<Rightarrow> 'a \<Rightarrow> int) \<Rightarrow> 'a \<Rightarrow> 'a list \<Rightarrow> int \<Rightarrow> int \<Rightarrow> fault + (int \<times> 'a list)" where
  "part_loop compare pval a i k =
     and_then (scan_down compare pval a k) (\<lambda>k1.
       and_then (scan_up compare pval a i) (\<lambda>i1.
         if i1 \<ge> k1 then Inr (k1, a)
         else and_then (rd a i1) (\<lambda>temp.
                and_then (rd a k1) (\<lambda>y.
                  and_then (wr a i1 y) (\<lambda>a1.
                    and_then (wr a1 k1 temp) (\<lambda>a2. part_loop compare pval a2 i1 k1))))))"
  by pat_completeness auto
termination
  by (relation "measure (\<lambda>(_, _, _, _, k). nat k)") (auto dest: scan_down_less)

declare part_loop.simps [simp del]

definition partition_cells :: "('a \<Rightarrow> 'a \<Rightarrow> int) \<Rightarrow> part_env \<Rightarrow> 'a list \<Rightarrow> int \<Rightarrow> int \<Rightarrow> fault + (int \<times> 'a list)" where
  "partition_cells compare e a i k =
     (if \<not> pval_ok e then Inr (-1, a)
      else if \<not> temp_ok e then Inr (-1, a)
      else and_then (pivot_index e i k) (\<lambda>r1.
             and_then (rd a r1) (\<lambda>pval. part_loop compare pval a (i - 1) (k + 1))))"

text \<open>
  \<open>qksort\<close> calls itself on the left part and loops on the right part; \<open>n\<close> counts the calls of
  \<open>partition\<close> so far, and \<open>None\<close> is a run that does not end.
\<close>

partial_function (option) qksort ::
  "('a \<Rightarrow> 'a \<Rightarrow> int) \<Rightarrow> (nat \<Rightarrow> part_env) \<Rightarrow> 'a list \<Rightarrow> int \<Rightarrow> int \<Rightarrow> nat \<Rightarrow>
   (fault + (int \<times> 'a list \<times> nat)) option" where
  "qksort compare draws a i k n =
     (if i < k
      then case partition_cells compare (draws n) a i k of
             Inl e \<Rightarrow> Some (Inl e)
           | Inr (j, a1) \<Rightarrow>
               if j < 0 then Some (Inr (-1, a1, Suc n))
               else Option.bind (qksort compare draws a1 i j (Suc n)) (\<lambda>r.
                      case r of
                        Inl e \<Rightarrow> Some (Inl e)
                      | Inr (rc, a2, n2) \<Rightarrow>
                          if rc < 0 then Some (Inr (-1, a2, n2))
                          else qksort compare draws a2 (j + 1) k n2)
      else Some (Inr (0, a, n)))"

section \<open>Partitioning\<close>

text \<open>The pivot's position lies in the range whatever rand returns and even if a malloc fails.\<close>

lemma issort_three:
  "\<exists>rc x y z. issort ok [a, b, c] 3 compare_int = Inr (rc, [x, y, z]) \<and> {x, y, z} \<subseteq> {a, b, c}"
proof (cases ok)
  case False
  then show ?thesis by (simp add: issort_def)
next
  case True
  obtain us where us: "issort True [a, b, c] (int 3) compare_int = Inr (0, us)" "mset us = mset [a, b, c]"
    using ci.issort_result [of 3 "[a, b, c]"] by auto
  then have "length us = 3" by (metis length_Cons list.size(3) numeral_3_eq_3 size_mset)
  then obtain x y z where "us = [x, y, z]" by (auto simp: numeral_3_eq_3 length_Suc_conv)
  moreover have "set us = {a, b, c}" using mset_eq_setD [OF us(2)] by simp
  ultimately show ?thesis using us(1) True by auto
qed

lemma draw_in_range:
  assumes "0 \<le> r" "i \<le> k"
  shows "i \<le> c_mod r (k - i + 1) + i \<and> c_mod r (k - i + 1) + i \<le> k"
proof -
  have "0 < k - i + 1" using assms(2) by simp
  then show ?thesis using assms(1) pos_mod_bound [of "k - i + 1" r] by simp
qed

definition rands_ok :: "part_env \<Rightarrow> bool" where
  "rands_ok e \<longleftrightarrow> 0 \<le> rand0 e \<and> 0 \<le> rand1 e \<and> 0 \<le> rand2 e"

lemma pivot_index_in_range:
  assumes "rands_ok e" "i \<le> k"
  shows "\<exists>p. pivot_index e i k = Inr p \<and> i \<le> p \<and> p \<le> k"
proof -
  let ?d = "\<lambda>r. c_mod r (k - i + 1) + i"
  obtain rc x y z where "issort (key_ok e) [?d (rand0 e), ?d (rand1 e), ?d (rand2 e)] 3 compare_int =
      Inr (rc, [x, y, z])" and sub: "{x, y, z} \<subseteq> {?d (rand0 e), ?d (rand1 e), ?d (rand2 e)}"
    using issort_three [of "key_ok e" "?d (rand0 e)" "?d (rand1 e)" "?d (rand2 e)"]
    by (elim exE conjE) (rule that)
  then have "pivot_index e i k = Inr y"
    using assms(2) by (simp add: pivot_index_def)
  moreover have "i \<le> y \<and> y \<le> k"
  proof -
    have "y = ?d (rand0 e) \<or> y = ?d (rand1 e) \<or> y = ?d (rand2 e)" using sub by blast
    then show ?thesis
      using draw_in_range [OF _ assms(2)] assms(1) unfolding rands_ok_def by fast
  qed
  ultimately show ?thesis by blast
qed

context comparison
begin

lemma scan_down_result:
  assumes "0 \<le> p" "p < k" "k \<le> int (length a)" "compare (a ! nat p) pval \<le> 0"
  shows "\<exists>k1. scan_down compare pval a k = Inr k1 \<and> p \<le> k1 \<and> k1 < k \<and> compare (a ! nat k1) pval \<le> 0 \<and>
           (\<forall>x. k1 < x \<and> x < k \<longrightarrow> compare (a ! nat x) pval > 0)"
  using assms
proof (induction "nat k" arbitrary: k rule: less_induct)
  case less
  have read: "rd a (k - 1) = Inr (a ! nat (k - 1))" using less.prems by simp
  show ?case
  proof (cases "compare (a ! nat (k - 1)) pval > 0")
    case True
    then have "p < k - 1" using less.prems by (cases "p = k - 1") auto
    then obtain k1 where k1: "scan_down compare pval a (k - 1) = Inr k1" "p \<le> k1" "k1 < k - 1"
      "compare (a ! nat k1) pval \<le> 0" "\<forall>x. k1 < x \<and> x < k - 1 \<longrightarrow> compare (a ! nat x) pval > 0"
      using less.hyps [of "k - 1"] less.prems by auto
    have "compare (a ! nat x) pval > 0" if "k1 < x" "x < k" for x
      using that k1(5) True by (cases "x = k - 1") auto
    with k1 read True show ?thesis by (subst scan_down.simps) auto
  next
    case False
    with read less.prems show ?thesis by (subst scan_down.simps) auto
  qed
qed

lemma scan_up_result:
  assumes "0 \<le> i + 1" "i < q" "q < int (length a)" "compare (a ! nat q) pval = 0"
  shows "\<exists>i1. scan_up compare pval a i = Inr i1 \<and> i < i1 \<and> i1 \<le> q \<and> compare (a ! nat i1) pval = 0"
  using assms
proof (induction "nat (q - i)" arbitrary: i rule: less_induct)
  case less
  have read: "rd a (i + 1) = Inr (a ! nat (i + 1))" using less.prems by simp
  show ?case
  proof (cases "compare (a ! nat (i + 1)) pval = 0")
    case False
    then have "i + 1 < q" using less.prems by (cases "q = i + 1") auto
    then obtain i1 where "scan_up compare pval a (i + 1) = Inr i1" "i + 1 < i1" "i1 \<le> q"
      "compare (a ! nat i1) pval = 0"
      using less.hyps [of "i + 1"] less.prems by auto
    with read False show ?thesis by (subst scan_up.simps) auto
  next
    case True
    with read less.prems show ?thesis by (subst scan_up.simps) auto
  qed
qed

text \<open>
  The loop invariant: a cell not above the pivot to the right of \<open>i\<close> and left of \<open>k\<close>, a cell
  equal to it up to \<open>k\<close>, and nothing below it from \<open>k\<close> on.
\<close>

definition part_inv :: "'a \<Rightarrow> int \<Rightarrow> int \<Rightarrow> 'a list \<Rightarrow> int \<Rightarrow> int \<Rightarrow> bool" where
  "part_inv pval lo hi a i k \<longleftrightarrow> 0 \<le> lo \<and> lo \<le> i + 1 \<and> k \<le> hi + 1 \<and> hi < int (length a) \<and>
     (\<exists>p. lo \<le> p \<and> i \<le> p \<and> p < k \<and> compare (a ! nat p) pval \<le> 0) \<and>
     (\<exists>q. i < q \<and> q \<le> k \<and> q \<le> hi \<and> compare (a ! nat q) pval = 0) \<and>
     (\<forall>x. k \<le> x \<and> x \<le> hi \<longrightarrow> compare (a ! nat x) pval \<ge> 0)"

lemma part_step:
  assumes "part_inv pval lo hi a i k"
  obtains i1 k1 where "scan_down compare pval a k = Inr k1" "scan_up compare pval a i = Inr i1"
    "lo \<le> k1" "k1 < k" "i < i1" "i1 \<le> hi" "lo \<le> i1"
    "\<forall>x. k1 < x \<and> x \<le> hi \<longrightarrow> compare (a ! nat x) pval \<ge> 0"
    "i1 < k1 \<Longrightarrow> part_inv pval lo hi (a[nat i1 := a ! nat k1, nat k1 := a ! nat i1]) i1 k1"
proof -
  obtain p q where p: "lo \<le> p" "i \<le> p" "p < k" "compare (a ! nat p) pval \<le> 0"
    and q: "i < q" "q \<le> k" "q \<le> hi" "compare (a ! nat q) pval = 0"
    and up: "\<forall>x. k \<le> x \<and> x \<le> hi \<longrightarrow> compare (a ! nat x) pval \<ge> 0"
    and lim: "0 \<le> lo" "lo \<le> i + 1" "k \<le> hi + 1" "hi < int (length a)"
    using assms unfolding part_inv_def by blast
  obtain k1 where k1: "scan_down compare pval a k = Inr k1" "p \<le> k1" "k1 < k"
    "compare (a ! nat k1) pval \<le> 0" "\<forall>x. k1 < x \<and> x < k \<longrightarrow> compare (a ! nat x) pval > 0"
    using scan_down_result [of p k a pval] p lim by auto
  obtain i1 where i1: "scan_up compare pval a i = Inr i1" "i < i1" "i1 \<le> q" "compare (a ! nat i1) pval = 0"
    using scan_up_result [of i q a pval] q lim by auto
  have right: "\<forall>x. k1 < x \<and> x \<le> hi \<longrightarrow> compare (a ! nat x) pval \<ge> 0"
    using k1(5) up by (metis linorder_not_less less_imp_le)
  have inv: "part_inv pval lo hi (a[nat i1 := a ! nat k1, nat k1 := a ! nat i1]) i1 k1" (is "part_inv _ _ _ ?b _ _")
    if lt: "i1 < k1"
  proof -
    have pos: "lo \<le> i1" "nat i1 \<noteq> nat k1" "nat i1 < length a" "nat k1 < length a"
      using lt i1 k1 lim q by auto
    have swapped: "compare (?b ! nat i1) pval \<le> 0" "compare (?b ! nat k1) pval = 0"
      using pos k1(4) i1(4) by simp_all
    have above: "compare (?b ! nat x) pval \<ge> 0" if "k1 \<le> x" "x \<le> hi" for x
    proof (cases "x = k1")
      case False
      then have "?b ! nat x = a ! nat x" using that lt pos lim by (auto simp: nth_list_update)
      then show ?thesis using right that False by simp
    qed (use swapped in simp)
    show ?thesis unfolding part_inv_def
    proof (intro conjI allI impI)
      show "\<exists>p. lo \<le> p \<and> i1 \<le> p \<and> p < k1 \<and> compare (?b ! nat p) pval \<le> 0"
        using lt pos(1) swapped(1) by blast
      show "\<exists>q. i1 < q \<and> q \<le> k1 \<and> q \<le> hi \<and> compare (?b ! nat q) pval = 0"
        by (rule exI [of _ k1]) (use lt k1(3) lim(3) swapped(2) in auto)
      show "compare (?b ! nat x) pval \<ge> 0" if "k1 \<le> x \<and> x \<le> hi" for x
        using above that by blast
    qed (use lim lt pos k1(3) in auto)
  qed
  show thesis using that [OF k1(1) i1(1) _ _ i1(2) _ _ right inv] p k1 i1 q lim by linarith
qed

lemma part_loop_result:
  assumes "part_inv pval lo hi a i k"
  shows "\<exists>j a1. part_loop compare pval a i k = Inr (j, a1) \<and> lo \<le> j \<and> j < k \<and> mset a1 = mset a \<and>
           (\<forall>x. x < lo \<or> hi < x \<longrightarrow> 0 \<le> x \<longrightarrow> a1 ! nat x = a ! nat x) \<and>
           (\<forall>x. j < x \<and> x \<le> hi \<longrightarrow> compare (a1 ! nat x) pval \<ge> 0)"
  using assms
proof (induction "nat k" arbitrary: a i k rule: less_induct)
  case less
  obtain i1 k1 where st: "scan_down compare pval a k = Inr k1" "scan_up compare pval a i = Inr i1"
    "lo \<le> k1" "k1 < k" "i < i1" "i1 \<le> hi" "lo \<le> i1"
    "\<forall>x. k1 < x \<and> x \<le> hi \<longrightarrow> compare (a ! nat x) pval \<ge> 0"
    "i1 < k1 \<Longrightarrow> part_inv pval lo hi (a[nat i1 := a ! nat k1, nat k1 := a ! nat i1]) i1 k1"
    using part_step [OF less.prems] by blast
  show ?case
  proof (cases "i1 < k1")
    case False
    with st show ?thesis by (subst part_loop.simps) auto
  next
    case True
    let ?b = "a[nat i1 := a ! nat k1, nat k1 := a ! nat i1]"
    have lim: "0 \<le> lo" "k \<le> hi + 1" "hi < int (length a)" using less.prems by (auto simp: part_inv_def)
    have eq: "part_loop compare pval a i k = part_loop compare pval ?b i1 k1"
      using st(1-7) True lim by (subst part_loop.simps) auto
    obtain j a1 where IH: "part_loop compare pval ?b i1 k1 = Inr (j, a1)" "lo \<le> j" "j < k1" "mset a1 = mset ?b"
      "\<forall>x. x < lo \<or> hi < x \<longrightarrow> 0 \<le> x \<longrightarrow> a1 ! nat x = ?b ! nat x"
      "\<forall>x. j < x \<and> x \<le> hi \<longrightarrow> compare (a1 ! nat x) pval \<ge> 0"
      using less.hyps [OF _ st(9) [OF True]] st lim by auto
    have "mset ?b = mset a" using st lim True by (intro mset_swap_cells) auto
    moreover have "?b ! nat x = a ! nat x" if "x < lo \<or> hi < x" "0 \<le> x" for x
      using that st lim True by (auto simp: nth_list_update)
    ultimately show ?thesis using IH st(4) eq by auto
  qed
qed

lemma partition_result:
  assumes "0 \<le> i" "i \<le> k" "k < int (length a)" "rands_ok e" "pval_ok e" "temp_ok e"
  shows "\<exists>j a1 p. partition_cells compare e a i k = Inr (j, a1) \<and> i \<le> j \<and> j \<le> k \<and> mset a1 = mset a \<and>
           (\<forall>x. x < i \<or> k < x \<longrightarrow> 0 \<le> x \<longrightarrow> a1 ! nat x = a ! nat x) \<and>
           i \<le> p \<and> p \<le> k \<and> (\<forall>x. j < x \<and> x \<le> k \<longrightarrow> compare (a1 ! nat x) (a ! nat p) \<ge> 0)"
proof -
  obtain p where p: "pivot_index e i k = Inr p" "i \<le> p" "p \<le> k"
    using pivot_index_in_range [OF assms(4,2)] by blast
  have "part_inv (a ! nat p) i k a (i - 1) (k + 1)"
    using assms p unfolding part_inv_def by (auto intro!: exI [of _ p])
  from part_loop_result [OF this] obtain j a1 where
    "part_loop compare (a ! nat p) a (i - 1) (k + 1) = Inr (j, a1)" "i \<le> j" "j < k + 1" "mset a1 = mset a"
    "\<forall>x. x < i \<or> k < x \<longrightarrow> 0 \<le> x \<longrightarrow> a1 ! nat x = a ! nat x"
    "\<forall>x. j < x \<and> x \<le> k \<longrightarrow> compare (a1 ! nat x) (a ! nat p) \<ge> 0"
    by blast
  then show ?thesis
    using p assms by (intro exI [of _ j] exI [of _ a1] exI [of _ p]) (simp add: partition_cells_def)
qed

text \<open>When every draw picks the first cell, the returned position leaves a non-empty right part.\<close>

lemma partition_shrinks:
  assumes "0 \<le> i" "i < k" "k < int (length a)" "pval_ok e" "temp_ok e" "pivot_index e i k = Inr i"
  shows "\<exists>j a1. partition_cells compare e a i k = Inr (j, a1) \<and> i \<le> j \<and> j < k \<and> length a1 = length a"
proof -
  let ?v = "a ! nat i"
  have inv: "part_inv ?v i k a (i - 1) (k + 1)"
    using assms unfolding part_inv_def by (auto intro!: exI [of _ i])
  obtain i1 k1 where st: "scan_down compare ?v a (k + 1) = Inr k1" "scan_up compare ?v a (i - 1) = Inr i1"
    "i \<le> k1" "k1 < k + 1" "i \<le> i1"
    "i1 < k1 \<Longrightarrow> part_inv ?v i k (a[nat i1 := a ! nat k1, nat k1 := a ! nat i1]) i1 k1"
    using part_step [OF inv] by blast
  have "rd a i = Inr ?v" using assms by simp
  then have i1: "i1 = i" using st(2) by (subst (asm) scan_up.simps) simp
  show ?thesis
  proof (cases "i < k1")
    case False
    then have "part_loop compare ?v a (i - 1) (k + 1) = Inr (i, a)"
      using st i1 by (subst part_loop.simps) simp
    then show ?thesis using assms by (simp add: partition_cells_def)
  next
    case True
    let ?b = "a[nat i := a ! nat k1, nat k1 := ?v]"
    have eq: "part_loop compare ?v a (i - 1) (k + 1) = part_loop compare ?v ?b i k1"
      using st(1-4) i1 True assms(1-3) by (subst part_loop.simps) auto
    obtain j a1 where "part_loop compare ?v ?b i k1 = Inr (j, a1)" "i \<le> j" "j < k1" "mset a1 = mset ?b"
      using part_loop_result [OF st(6)] i1 True by blast
    then show ?thesis using eq assms st(4)
      by (auto simp: partition_cells_def dest: mset_eq_length)
  qed
qed

text \<open>Every run of \<open>qksort\<close> that returns has permuted its range and touched nothing else.\<close>

definition qksort_post :: "(nat \<Rightarrow> part_env) \<Rightarrow> 'a list \<Rightarrow> int \<Rightarrow> int \<Rightarrow> fault + (int \<times> 'a list \<times> nat) \<Rightarrow> bool" where
  "qksort_post draws a i k r \<longleftrightarrow>
     (\<exists>rc a1 n1. r = Inr (rc, a1, n1) \<and> mset a1 = mset a \<and>
        (\<forall>x. x < i \<or> k < x \<longrightarrow> 0 \<le> x \<longrightarrow> a1 ! nat x = a ! nat x) \<and>
        (rc = 0 \<or> rc = -1 \<and> (\<exists>n. \<not> pval_ok (draws n) \<or> \<not> temp_ok (draws n))))"

lemma qksort_partial:
  assumes "qksort compare draws a i k n = Some r" "\<forall>n. rands_ok (draws n)" "0 \<le> i" "k < int (length a)"
  shows "qksort_post draws a i k r"
proof -
  have "(\<forall>n. rands_ok (draws n)) \<longrightarrow> 0 \<le> i \<longrightarrow> k < int (length a) \<longrightarrow> cmp = compare \<longrightarrow> qksort_post draws a i k r"
    if "qksort cmp draws a i k n = Some r" for cmp
    using that
  proof (induction rule: qksort.raw_induct [rotated, consumes 1, case_names 1])
    case (1 qs cmp draws a i k n r)
    show ?case
    proof (intro impI)
      assume rands: "\<forall>n. rands_ok (draws n)" and lim: "0 \<le> i" "k < int (length a)" and cmp [simp]: "cmp = compare"
      show "qksort_post draws a i k r"
      proof (cases "i < k")
        case False
        with "1.hyps" show ?thesis by (auto simp: qksort_post_def)
      next
        case True
        show ?thesis
        proof (cases "pval_ok (draws n) \<and> temp_ok (draws n)")
          case False
          then have "partition_cells compare (draws n) a i k = Inr (-1, a)"
            by (auto simp: partition_cells_def)
          with "1.hyps" True False show ?thesis by (auto simp: qksort_post_def)
        next
          case ok: True
          obtain j a1 where part: "partition_cells compare (draws n) a i k = Inr (j, a1)" "i \<le> j" "j \<le> k"
            "mset a1 = mset a" "\<forall>x. x < i \<or> k < x \<longrightarrow> 0 \<le> x \<longrightarrow> a1 ! nat x = a ! nat x"
            using partition_result [of i k a "draws n"] True lim rands ok by auto
          have len: "length a1 = length a" using part(4) mset_eq_length by blast
          obtain r1 where left: "qs compare draws a1 i j (Suc n) = Some r1"
            and rest: "(case r1 of Inl e \<Rightarrow> Some (Inl e) | Inr (rc, a2, n2) \<Rightarrow>
                 if rc < 0 then Some (Inr (-1, a2, n2)) else qs compare draws a2 (j + 1) k n2) = Some r"
            using "1.hyps" [unfolded cmp] True part(1) lim(1) part(2) by (auto simp: bind_eq_Some_conv)
          have "qksort_post draws a1 i j r1"
            using "1.IH" [OF left] rands lim part(2,3) len by auto
          then obtain rc a2 n2 where r1: "r1 = Inr (rc, a2, n2)" "mset a2 = mset a1"
            "\<forall>x. x < i \<or> j < x \<longrightarrow> 0 \<le> x \<longrightarrow> a2 ! nat x = a1 ! nat x"
            "rc = 0 \<or> rc = -1 \<and> (\<exists>n. \<not> pval_ok (draws n) \<or> \<not> temp_ok (draws n))"
            unfolding qksort_post_def by blast
          have frame2: "\<forall>x. x < i \<or> k < x \<longrightarrow> 0 \<le> x \<longrightarrow> a2 ! nat x = a ! nat x"
            using r1(3) part(3,5) by auto
          show ?thesis
          proof (cases "rc < 0")
            case True
            with rest r1 part(4) frame2 show ?thesis by (auto simp: qksort_post_def)
          next
            case False
            with rest r1(1) have right: "qs compare draws a2 (j + 1) k n2 = Some r" by simp
            have "length a2 = length a" using r1(2) len mset_eq_length by metis
            then have "qksort_post draws a2 (j + 1) k r"
              using "1.IH" [OF right] rands lim part(2) by auto
            then show ?thesis
              using frame2 part(2,4) r1(2) unfolding qksort_post_def by auto
          qed
        qed
      qed
    qed
  qed
  with assms show ?thesis by blast
qed

text \<open>A run in which every draw picks the first cell of its range returns.\<close>

lemma qksort_first_returns:
  assumes "\<forall>n. pval_ok (draws n) \<and> temp_ok (draws n)"
    and first: "\<And>n i k. i < k \<Longrightarrow> pivot_index (draws n) i k = Inr i"
    and "0 \<le> i" "k < int (length a)"
  shows "\<exists>a1 n1. qksort compare draws a i k n = Some (Inr (0, a1, n1)) \<and> length a1 = length a"
  using assms(3,4)
proof (induction "nat (k - i)" arbitrary: a i k n rule: less_induct)
  case less
  show ?case
  proof (cases "i < k")
    case False
    then show ?thesis by (subst qksort.simps) simp
  next
    case True
    obtain j a1 where part: "partition_cells compare (draws n) a i k = Inr (j, a1)" "i \<le> j" "j < k"
      "length a1 = length a"
      using partition_shrinks [of i k a "draws n"] True less.prems assms(1) first by blast
    obtain a2 n2 where left: "qksort compare draws a1 i j (Suc n) = Some (Inr (0, a2, n2))" "length a2 = length a1"
      using less.hyps [of j i a1 "Suc n"] part less.prems by auto
    obtain a3 n3 where right: "qksort compare draws a2 (j + 1) k n2 = Some (Inr (0, a3, n3))" "length a3 = length a2"
      using less.hyps [of k "j + 1" a2 n2] part left less.prems by auto
    show ?thesis using True part left right less.prems by (subst qksort.simps) simp
  qed
qed

end

lemma pivot_index_zero:
  assumes "rand0 e = 0" "rand1 e = 0" "rand2 e = 0" "i < k"
  shows "pivot_index e i k = Inr i"
proof -
  have "c_mod 0 (k - i + 1) = 0" using assms(4) by simp
  then have "\<exists>rc x y z. issort (key_ok e) [i, i, i] 3 compare_int = Inr (rc, [x, y, z]) \<and> {x, y, z} \<subseteq> {i}"
    using issort_three [of "key_ok e" i i i] by simp
  with assms \<open>c_mod 0 (k - i + 1) = 0\<close> show ?thesis
    by (auto simp: pivot_index_def)
qed

section \<open>Properties\<close>

text \<open>
  C17. For every comparison that is a total preorder, issort on the first \<open>siz\<close> cells of a block
  returns 0 with those cells sorted, permuted, and equal cells in their old order; the cells
  behind are untouched and no access leaves the block.
\<close>

theorem issort_sorts:
  assumes "comparison compare" and "siz \<le> length a"
  shows "\<exists>us. issort True a (int siz) compare = Inr (0, us @ drop siz a) \<and>
           sorted_wrt (\<lambda>x y. compare x y \<le> 0) us \<and> mset us = mset (take siz a) \<and>
           (\<forall>v. filter (\<lambda>x. compare x v = 0) us = filter (\<lambda>x. compare x v = 0) (take siz a))"
  using comparison.issort_result [OF assms]
  by (simp add: comparison.ordered_def [OF assms(1)] comparison.equals_of_def [OF assms(1)])

theorem issort_sorts_witness:
  "\<exists>us. issort True [3, 1, 2, 0] (int 3) compare_int = Inr (0, us @ [0]) \<and> sorted_wrt (\<lambda>x y. compare_int x y \<le> 0) us"
  using issort_sorts [OF ci.comparison_axioms, of 3 "[3, 1, 2, 0]"] by auto

text \<open>
  C7. partition, on a range of at least one cell inside the block, for every total preorder given as a comparison, when
  its own two mallocs succeed, for all non-negative results of rand and whether or not the malloc of its issort succeeds, does
  not leave its range although its second loop stops at an equal cell only: it returns a position of the
  range, permutes the block, leaves the other cells alone, and every cell of the range right of the returned
  position is at least the pivot, a cell of the range.
\<close>

theorem partition_safe:
  assumes "comparison compare" and "0 \<le> i" "i \<le> k" "k < int (length a)"
    and "rands_ok e" "pval_ok e" "temp_ok e"
  shows "\<exists>j a1 p. partition_cells compare e a i k = Inr (j, a1) \<and> i \<le> j \<and> j \<le> k \<and> mset a1 = mset a \<and>
           (\<forall>x. x < i \<or> k < x \<longrightarrow> 0 \<le> x \<longrightarrow> a1 ! nat x = a ! nat x) \<and>
           i \<le> p \<and> p \<le> k \<and> (\<forall>x. j < x \<and> x \<le> k \<longrightarrow> compare (a1 ! nat x) (a ! nat p) \<ge> 0)"
  by (rule comparison.partition_result [OF assms])

definition draw :: "int \<Rightarrow> part_env" where
  "draw r = \<lparr>pval_ok = True, temp_ok = True, key_ok = True, rand0 = r, rand1 = r, rand2 = r\<rparr>"

theorem partition_safe_witness:
  "\<exists>j a1. partition_cells compare_int (draw 7) [9, 5, 1] 0 2 = Inr (j, a1) \<and> 0 \<le> j \<and> j \<le> 2 \<and> mset a1 = mset [9, 5, 1]"
  using partition_safe [OF ci.comparison_axioms, of 0 2 "[9, 5, 1]" "draw 7"]
  by (fastforce simp: draw_def rands_ok_def)

text \<open>Whenever qksort returns, it has not faulted, has only permuted the range it was given, and
  returned 0, or -1 because a malloc failed.
\<close>

theorem qksort_permutes:
  assumes "comparison compare" and "qksort compare draws a i k n = Some r"
    and "\<forall>n. rands_ok (draws n)" "0 \<le> i" "k < int (length a)"
  shows "\<exists>rc a1 n1. r = Inr (rc, a1, n1) \<and> mset a1 = mset a \<and>
           (\<forall>x. x < i \<or> k < x \<longrightarrow> 0 \<le> x \<longrightarrow> a1 ! nat x = a ! nat x) \<and>
           (rc = 0 \<or> rc = -1 \<and> (\<exists>n. \<not> pval_ok (draws n) \<or> \<not> temp_ok (draws n)))"
  using comparison.qksort_partial [OF assms]
  by (simp add: comparison.qksort_post_def [OF assms(1)])

text \<open>qksort does return with code 0 when malloc succeeds and rand always yields 0, for every
  block and range.
\<close>

theorem qksort_returns:
  assumes "comparison compare" and "\<forall>n. pval_ok (draws n) \<and> temp_ok (draws n)"
    and "\<forall>n. rand0 (draws n) = 0 \<and> rand1 (draws n) = 0 \<and> rand2 (draws n) = 0"
    and "0 \<le> i" "k < int (length a)"
  shows "\<exists>a1 n1. qksort compare draws a i k n = Some (Inr (0, a1, n1))"
  using comparison.qksort_first_returns [OF assms(1,2) _ assms(4,5), of n] assms(3) pivot_index_zero by blast

lemma draw_facts [simp]: "pval_ok (draw r)" "temp_ok (draw r)" "key_ok (draw r)" "rand0 (draw r) = r"
  "rand1 (draw r) = r" "rand2 (draw r) = r"
  by (simp_all add: draw_def)

theorem qksort_returns_witness:
  "\<exists>a1 n1. qksort compare_int (\<lambda>_. draw 0) [3, 1, 2] 0 2 0 = Some (Inr (0, a1, n1))"
  using qksort_returns [OF ci.comparison_axioms, of "\<lambda>_. draw 0" 0 2 "[3, 1, 2]" 0] by simp

definition draws_unsorted :: "nat \<Rightarrow> part_env" where
  "draws_unsorted n = draw (if n = 0 then 1 else 0)"

lemma unsorted_run:
  "qksort compare_int draws_unsorted [9, 5, 1] 0 2 0 = Some (Inr (0, [1, 9, 5], 2))"
proof -
  have p1: "partition_cells compare_int (draws_unsorted 0) [9, 5, 1] 0 2 = Inr (1, [9, 1, 5])"
    by code_simp
  have p2: "partition_cells compare_int (draws_unsorted 1) [9, 1, 5] 0 1 = Inr (0, [1, 9, 5])"
    by code_simp
  show ?thesis
    by (simp add: p1 p2 [simplified] qksort.simps)
qed

theorem qksort_permutes_witness:
  "mset [1, 9, 5 :: int] = mset [9, 5, 1]"
  using qksort_permutes [OF ci.comparison_axioms unsorted_run]
  by (simp add: draws_unsorted_def rands_ok_def)

text \<open>qksort may return 0 with the block unsorted, and may never return: with the pivot drawn
  from the middle, 9 5 1 ends as 1 9 5, and on the sorted block 1 2 with the last cell always
  drawn as the pivot the call does not end.
\<close>

theorem qksort_wrong:
  "qksort compare_int draws_unsorted [9, 5, 1] 0 2 0 = Some (Inr (0, [1, 9, 5], 2)) \<and>
   (\<forall>n. qksort compare_int (\<lambda>_. draw 1) [1, 2] 0 1 n = None)"
proof -
  have part: "partition_cells compare_int (draw 1) [1, 2] 0 1 = Inr (1, [1, 2])"
    by code_simp
  have "\<not> (cmp = compare_int \<and> draws = (\<lambda>_. draw 1) \<and> a = [1, 2] \<and> i = 0 \<and> k = 1)"
    if "qksort cmp draws a i k n = Some r" for cmp draws a i k n r
    using that
  proof (induction rule: qksort.raw_induct [rotated, consumes 1, case_names 1])
    case (1 qs cmp draws a i k n r)
    show ?case
    proof
      assume h: "cmp = compare_int \<and> draws = (\<lambda>_. draw 1) \<and> a = [1, 2] \<and> i = 0 \<and> k = 1"
      with "1.hyps" obtain r1 where "qs compare_int (\<lambda>_. draw 1) [1, 2] 0 1 (Suc n) = Some r1"
        by (auto simp: part bind_eq_Some_conv)
      then show False using "1.IH" by blast
    qed
  qed
  then have "\<forall>n. qksort compare_int (\<lambda>_. draw 1) [1, 2] 0 1 n = None"
    by (metis option.exhaust)
  with unsorted_run show ?thesis by blast
qed

end
