(* ===== verification/Kmp.thy ===== *)
theory Kmp
  imports Prelude "HOL-Library.Sublist"
begin

text \<open>
  Project1/FileTransMain.cpp: the Knuth-Morris-Pratt search (getPi, kmp), the counting of the
  answer array (intslen with its two predicates), and trim. Strings are the characters of their
  buffers; \<open>cstr\<close> is the part strlen measures. Strings have fewer than \<open>2 ^ 31\<close> characters, so that the
  casts of their lengths to int change nothing.
\<close>

section \<open>The operations\<close>

text \<open>
  The inner while loop of both functions: \<open>pi\<close> is NULL when malloc failed. Nothing in the loop
  itself makes \<open>j\<close> smaller, so that it ends is a fact about the table.
\<close>

partial_function (option) fall_back :: "int list option \<Rightarrow> string \<Rightarrow> char \<Rightarrow> int \<Rightarrow> (fault + int) option" where
  "fall_back pi p c j =
     (if j > 0
      then case rd p j of
             Inl e \<Rightarrow> Some (Inl e)
           | Inr x \<Rightarrow>
               if c \<noteq> x
               then case pi of
                      None \<Rightarrow> Some (Inl NullDeref)
                    | Some t \<Rightarrow> (case rd t (j - 1) of Inl e \<Rightarrow> Some (Inl e) | Inr j1 \<Rightarrow> fall_back pi p c j1)
               else Some (Inr j)
      else Some (Inr j))"

declare fall_back.simps [code]

function getPi_from :: "string \<Rightarrow> int \<Rightarrow> int list \<Rightarrow> int \<Rightarrow> int \<Rightarrow> (fault + int list) option" where
  "getPi_from p m t i j =
     (if i < m
      then run_then (Some (rd p i)) (\<lambda>c.
           run_then (fall_back (Some t) p c j) (\<lambda>j1.
           run_then (Some (rd p j1)) (\<lambda>d.
             if c = d
             then run_then (Some (wr t i (j1 + 1))) (\<lambda>t1. getPi_from p m t1 (i + 1) (j1 + 1))
             else getPi_from p m t (i + 1) j1)))
      else Some (Inr t))"
  by pat_completeness auto
termination
  by (relation "measure (\<lambda>(_, m, _, i, _). nat (m - i))") auto

declare getPi_from.simps [simp del]

definition getPi :: "bool \<Rightarrow> string \<Rightarrow> (fault + int list option) option" where
  "getPi malloc_ok p =
     (let m = length (cstr p)
      in if \<not> malloc_ok then Some (Inr None)
         else run_then (getPi_from p (int m) (replicate m 0) 1 0) (\<lambda>t. Some (Inr (Some t))))"

function kmp_from :: "string \<Rightarrow> string \<Rightarrow> int list option \<Rightarrow> int \<Rightarrow> int \<Rightarrow> int \<Rightarrow> int \<Rightarrow> int list \<Rightarrow> int \<Rightarrow>
    (fault + (int list \<times> int)) option" where
  "kmp_from s p pi n m i j ans ansi =
     (if i < n
      then run_then (Some (rd s i)) (\<lambda>c.
           run_then (fall_back pi p c j) (\<lambda>j1.
           run_then (Some (rd p j1)) (\<lambda>d.
             if c = d
             then if j1 = m - 1
                  then run_then (Some (wr ans ansi (i - m + 1))) (\<lambda>ans1.
                       run_then (case pi of None \<Rightarrow> Some (Inl NullDeref) | Some t \<Rightarrow> Some (rd t j1)) (\<lambda>j2.
                         kmp_from s p pi n m (i + 1) j2 ans1 (ansi + 1)))
                  else kmp_from s p pi n m (i + 1) (j1 + 1) ans ansi
             else kmp_from s p pi n m (i + 1) j1 ans ansi)))
      else Some (Inr (ans, ansi)))"
  by pat_completeness auto
termination
  by (relation "measure (\<lambda>(_, _, _, n, _, i, _, _, _). nat (n - i))") auto

declare kmp_from.simps [simp del]

text \<open>\<open>pi_ok\<close> and \<open>ans_ok\<close>: whether the two mallocs succeed. The result is the array and \<open>*ansi\<close>, or NULL.\<close>

definition kmp :: "bool \<Rightarrow> bool \<Rightarrow> string \<Rightarrow> string \<Rightarrow> (fault + (int list \<times> int) option) option" where
  "kmp pi_ok ans_ok s p =
     run_then (getPi pi_ok p) (\<lambda>pi.
       let n = length (cstr s); m = length (cstr p)
       in if \<not> ans_ok then Some (Inr None)
          else run_then (kmp_from s p pi (int n) (int m) 0 0 (replicate n (-1)) 0) (\<lambda>r. Some (Inr (Some r))))"

function intslen_from :: "int list \<Rightarrow> (int \<Rightarrow> bool) \<Rightarrow> (int \<Rightarrow> bool) \<Rightarrow> int \<Rightarrow> int \<Rightarrow> fault + int" where
  "intslen_from ar isValue isEnd i cnt =
     and_then (rd ar i) (\<lambda>x.
       if isEnd x then Inr cnt
       else intslen_from ar isValue isEnd (i + 1) (if isValue x then cnt + 1 else cnt))"
  by pat_completeness auto
termination
  by (relation "measure (\<lambda>(ar, _, _, i, _). nat (int (length ar) - i))")
    (auto simp: rd_def in_range_def split: if_splits)

declare intslen_from.simps [simp del]

definition intslen :: "int list \<Rightarrow> (int \<Rightarrow> bool) \<Rightarrow> (int \<Rightarrow> bool) \<Rightarrow> fault + int" where
  "intslen ar isValue isEnd = intslen_from ar isValue isEnd 0 0"

definition isIntArrEnd :: "int \<Rightarrow> bool" where
  "isIntArrEnd v \<longleftrightarrow> v < 0"

definition isValueSet :: "int \<Rightarrow> bool" where
  "isValueSet v \<longleftrightarrow> v > 0"

definition trim :: "string \<Rightarrow> string" where
  "trim str =
     (let len = length (cstr str)
      in if len > 1 \<and> str ! (len - 1) = CHR 0x0A then str[len - 1 := NUL] else str)"

section \<open>Borders\<close>

text \<open>The prefix of length \<open>k\<close> of the pattern is a suffix of \<open>w\<close>, and is the longest such below \<open>m\<close>.\<close>

definition ends_with :: "string \<Rightarrow> nat \<Rightarrow> string \<Rightarrow> bool" where
  "ends_with p k w \<longleftrightarrow> suffix (take k p) w"

definition longest :: "string \<Rightarrow> string \<Rightarrow> nat \<Rightarrow> nat \<Rightarrow> bool" where
  "longest p w b j \<longleftrightarrow> j < b \<and> ends_with p j w \<and> (\<forall>k < b. ends_with p k w \<longrightarrow> k \<le> j)"

text \<open>The table up to \<open>q\<close>: each entry is the longest proper border of the prefix it stands for.\<close>

definition table_ok :: "string \<Rightarrow> int list \<Rightarrow> nat \<Rightarrow> bool" where
  "table_ok p t b \<longleftrightarrow> length t = length p \<and>
     (\<forall>q. 0 < q \<and> q \<le> b \<longrightarrow> (\<exists>j. t ! (q - 1) = int j \<and> longest p (take q p) q j))"

lemma ends_with_0 [simp]: "ends_with p 0 w"
  by (simp add: ends_with_def)

lemma ends_with_shorter:
  "ends_with p k w \<Longrightarrow> ends_with p j w \<Longrightarrow> k \<le> j \<Longrightarrow> j \<le> length p \<Longrightarrow> ends_with p k (take j p)"
  unfolding ends_with_def by (rule suffix_length_suffix) auto

lemma ends_with_trans: "ends_with p k (take j p) \<Longrightarrow> ends_with p j w \<Longrightarrow> ends_with p k w"
  unfolding ends_with_def by (rule suffix_order.trans)

lemma ends_with_snoc:
  assumes "k < length p"
  shows "ends_with p (Suc k) (w @ [c]) \<longleftrightarrow> ends_with p k w \<and> p ! k = c"
  using assms by (auto simp: ends_with_def take_Suc_conv_app_nth suffix_def)

lemma ends_with_length: "ends_with p k w \<Longrightarrow> k \<le> length p \<Longrightarrow> k \<le> length w"
  unfolding ends_with_def using suffix_length_le by fastforce

text \<open>
  Falling back from a match of length \<open>j\<close> finds the longest shorter match that the character
  \<open>c\<close> continues.
\<close>

lemma fall_back_result:
  assumes "table_ok p t b" "j \<le> b" "j < length p" "ends_with p j w"
    and "\<forall>k < length p. ends_with p k w \<and> p ! k = c \<longrightarrow> k \<le> j"
  shows "\<exists>j1. fall_back (Some t) (p @ rest) c (int j) = Some (Inr (int j1)) \<and> j1 \<le> j \<and> ends_with p j1 w \<and>
           (j1 = 0 \<or> p ! j1 = c) \<and> (\<forall>k < length p. ends_with p k w \<and> p ! k = c \<longrightarrow> k \<le> j1)"
  using assms(2-)
proof (induction j rule: less_induct)
  case (less j)
  have read: "rd (p @ rest) (int j) = Inr (p ! j)" using less.prems by (simp add: nth_append)
  show ?case
  proof (cases "j = 0 \<or> p ! j = c")
    case True
    with less.prems read show ?thesis by (intro exI [of _ j]) (subst fall_back.simps, auto)
  next
    case False
    obtain j1 where j1: "t ! (j - 1) = int j1" "longest p (take j p) j j1"
      using assms(1) False less.prems(1) unfolding table_ok_def by (metis neq0_conv)
    have "rd t (int j - 1) = Inr (int j1)"
    proof -
      have "nat (int j - 1) = j - 1" by simp
      then show ?thesis
        using j1(1) False assms(1) less.prems(2) by (simp add: table_ok_def)
    qed
    then have step: "fall_back (Some t) (p @ rest) c (int j) = fall_back (Some t) (p @ rest) c (int j1)"
      using False read by (subst fall_back.simps) auto
    have lt: "j1 < j" and e: "ends_with p j1 (take j p)" using j1(2) by (auto simp: longest_def)
    have "\<forall>k < length p. ends_with p k w \<and> p ! k = c \<longrightarrow> k \<le> j1"
    proof (intro allI impI)
      fix k assume k: "k < length p" "ends_with p k w \<and> p ! k = c"
      then have "k \<le> j" "k \<noteq> j" using less.prems(4) False by auto
      then show "k \<le> j1"
        using ends_with_shorter [OF _ less.prems(3), of k] k less.prems(2) j1(2) by (auto simp: longest_def)
    qed
    then obtain j2 where "fall_back (Some t) (p @ rest) c (int j1) = Some (Inr (int j2))" "j2 \<le> j1" "ends_with p j2 w"
      "j2 = 0 \<or> p ! j2 = c" "\<forall>k < length p. ends_with p k w \<and> p ! k = c \<longrightarrow> k \<le> j2"
      using less.IH [OF lt] lt less.prems ends_with_trans [OF e less.prems(3)] by fastforce
    with step lt show ?thesis by auto
  qed
qed

text \<open>One character further: what both loops do with it.\<close>

lemma longest_step:
  assumes "ends_with p j w" "j = 0 \<or> p ! j = c" "j < length p" "b \<le> length p" "j < b"
    and "\<forall>k < length p. ends_with p k w \<and> p ! k = c \<longrightarrow> k \<le> j"
  shows "p ! j = c \<Longrightarrow> Suc j < b \<Longrightarrow> longest p (w @ [c]) b (Suc j)"
    and "p ! j \<noteq> c \<Longrightarrow> longest p (w @ [c]) b 0"
    and "p ! j = c \<Longrightarrow> ends_with p (Suc j) (w @ [c])"
proof -
  have k: "k \<le> (if p ! j = c then Suc j else 0)" if "k < b" "ends_with p k (w @ [c])" for k
  proof (cases k)
    case (Suc l)
    then have "ends_with p l w \<and> p ! l = c" using that assms(4) ends_with_snoc [of l p w c] by simp
    then have "l \<le> j \<and> p ! l = c" using assms(4,6) that(1) Suc by simp
    then show ?thesis using assms(2) Suc by auto
  qed simp
  show "longest p (w @ [c]) b (Suc j)" if "p ! j = c" "Suc j < b"
    using that k assms(1,3) ends_with_snoc [of j p w c] unfolding longest_def by auto
  show "longest p (w @ [c]) b 0" if "p ! j \<noteq> c"
    using that k assms(5) unfolding longest_def by auto
  show "ends_with p (Suc j) (w @ [c])" if "p ! j = c"
    using that assms(1,3) ends_with_snoc [of j p w c] by simp
qed

section \<open>The prefix table\<close>

lemma ends_with_proper:
  assumes "k < i" "i \<le> length p"
  shows "ends_with p k (drop 1 (take i p)) \<longleftrightarrow> ends_with p k (take i p)"
proof -
  obtain x xs where "take i p = x # xs" using assms by (cases "take i p") auto
  moreover have "take k p \<noteq> take i p"
  proof
    assume "take k p = take i p"
    then have "length (take k p) = length (take i p)" by simp
    then show False using assms by simp
  qed
  ultimately show ?thesis by (auto simp: ends_with_def suffix_Cons)
qed

lemma longest_proper:
  "i \<le> length p \<Longrightarrow> longest p (drop 1 (take i p)) i j \<longleftrightarrow> longest p (take i p) i j"
  using ends_with_proper by (auto simp: longest_def)

lemma table_ok_extend:
  assumes "table_ok p t i" "t ! i = int j" "longest p (take (Suc i) p) (Suc i) j"
  shows "table_ok p t (Suc i)"
  unfolding table_ok_def
proof (intro conjI allI impI)
  show "length t = length p" using assms(1) by (simp add: table_ok_def)
next
  fix q assume "0 < q \<and> q \<le> Suc i"
  then show "\<exists>j. t ! (q - 1) = int j \<and> longest p (take q p) q j"
    using assms by (cases "q = Suc i") (auto simp: table_ok_def)
qed

lemma table_ok_write:
  "table_ok p t i \<Longrightarrow> table_ok p (t[i := x]) i"
  by (auto simp: table_ok_def nth_list_update)

lemma getPi_from_result:
  assumes "table_ok p t i" "longest p (take i p) i j" "0 < i" "i \<le> length p" "\<forall>x. i \<le> x \<and> x < length p \<longrightarrow> t ! x = 0"
  shows "\<exists>t1. getPi_from (p @ rest) (int (length p)) t (int i) (int j) = Some (Inr t1) \<and> table_ok p t1 (length p)"
  using assms
proof (induction "length p - i" arbitrary: i j t)
  case 0
  then have "i = length p" by simp
  with 0 show ?case by (subst getPi_from.simps) simp
next
  case (Suc n)
  let ?w = "drop 1 (take i p)" and ?c = "p ! i"
  have i: "i < length p" using Suc.hyps(2) by simp
  have n: "n = length p - Suc i" using Suc.hyps(2) by simp
  have len: "length t = length p" using Suc.prems(1) by (simp add: table_ok_def)
  have w: "longest p ?w i j" using Suc.prems(2) longest_proper i by simp
  have cand: "\<forall>k < length p. ends_with p k ?w \<and> p ! k = ?c \<longrightarrow> k \<le> j"
  proof (intro allI impI)
    fix k assume k: "k < length p" "ends_with p k ?w \<and> p ! k = ?c"
    then have "k \<le> length ?w" using ends_with_length [of p k ?w] by simp
    then have "k < i" using Suc.prems(3) i by simp
    then show "k \<le> j" using w k by (auto simp: longest_def)
  qed
  obtain j1 where j1: "fall_back (Some t) (p @ rest) ?c (int j) = Some (Inr (int j1))" "j1 \<le> j" "ends_with p j1 ?w"
    "j1 = 0 \<or> p ! j1 = ?c" "\<forall>k < length p. ends_with p k ?w \<and> p ! k = ?c \<longrightarrow> k \<le> j1"
    using fall_back_result [OF Suc.prems(1) _ _ _ cand, of rest] w i by (auto simp: longest_def)
  have j1i: "j1 < i" using j1(2) w by (simp add: longest_def)
  have ww: "?w @ [?c] = drop 1 (take (Suc i) p)" using i Suc.prems(3) by (simp add: take_Suc_conv_app_nth)
  note step = longest_step [OF j1(3,4) _ _ _ j1(5), of "Suc i", unfolded ww]
  have reads: "rd (p @ rest) (int i) = Inr ?c" "rd (p @ rest) (int j1) = Inr (p ! j1)"
    using i j1i by (simp_all add: nth_append)
  have int_i: "int i + 1 = int (Suc i)" "int j1 + 1 = int (Suc j1)" by simp_all
  show ?case
  proof (cases "p ! j1 = ?c")
    case True
    have "longest p (drop 1 (take (Suc i) p)) (Suc i) (Suc j1)" using step(1) True i j1i by auto
    then have long: "longest p (take (Suc i) p) (Suc i) (Suc j1)" using longest_proper i by simp
    let ?t = "t[i := int (Suc j1)]"
    have "table_ok p ?t (Suc i)"
      using table_ok_extend [OF table_ok_write [OF Suc.prems(1)], of "int (Suc j1)" "Suc j1"] long len i by simp
    then obtain t1 where "getPi_from (p @ rest) (int (length p)) ?t (int (Suc i)) (int (Suc j1)) = Some (Inr t1)"
      "table_ok p t1 (length p)"
      using Suc.hyps(1) [of "Suc i" ?t "Suc j1"] n Suc.prems(5) long i by auto
    moreover have "getPi_from (p @ rest) (int (length p)) t (int i) (int j) =
        getPi_from (p @ rest) (int (length p)) ?t (int (Suc i)) (int (Suc j1))"
      using True i j1(1) reads len wr_nat [of i t] by (subst getPi_from.simps) (simp only: int_i run_then.simps if_True, simp)
    ultimately show ?thesis by simp
  next
    case False
    then have [simp]: "j1 = 0" using j1(4) by simp
    have "longest p (drop 1 (take (Suc i) p)) (Suc i) 0" using step(2) False i j1i by (cases "p = []") auto
    then have long: "longest p (take (Suc i) p) (Suc i) 0" using longest_proper i by simp
    have "table_ok p t (Suc i)"
      using table_ok_extend [OF Suc.prems(1) _ long] Suc.prems(5) i by simp
    then obtain t1 where "getPi_from (p @ rest) (int (length p)) t (int (Suc i)) (int 0) = Some (Inr t1)"
      "table_ok p t1 (length p)"
      using Suc.hyps(1) [of "Suc i" t 0] n Suc.prems(5) long i by auto
    moreover have "getPi_from (p @ rest) (int (length p)) t (int i) (int j) =
        getPi_from (p @ rest) (int (length p)) t (int (Suc i)) (int 0)"
      using False i j1(1) reads by (subst getPi_from.simps) (simp add: add.commute)
    ultimately show ?thesis by simp
  qed
qed

lemma getPi_result:
  assumes "NUL \<notin> set p"
  shows "\<exists>t. getPi True (p @ NUL # rest) = Some (Inr (Some t)) \<and> table_ok p t (length p)"
proof (cases "p = []")
  case True
  then show ?thesis using assms by (simp add: getPi_def table_ok_def getPi_from.simps cstr_def)
next
  case False
  have "longest p (take 1 p) 1 0" by (simp add: longest_def)
  moreover have "table_ok p (replicate (length p) 0) 1"
    using calculation False by (auto simp: table_ok_def intro!: exI [of _ 0] dest: le_neq_implies_less)
  ultimately show ?thesis
    using getPi_from_result [of p "replicate (length p) 0" 1 0 "NUL # rest"] False assms
    by (auto simp: getPi_def Suc_le_eq)
qed

section \<open>The search\<close>

text \<open>The specification: every position at which the pattern occurs, in order.\<close>

definition occurrences :: "string \<Rightarrow> string \<Rightarrow> nat list" where
  "occurrences s p = filter (\<lambda>k. take (length p) (drop k s) = p) [0..<length s]"

text \<open>The same by the positions at which an occurrence ends, below \<open>i\<close>.\<close>

definition ended :: "string \<Rightarrow> string \<Rightarrow> nat \<Rightarrow> nat list" where
  "ended s p i = map (\<lambda>e. e + 1 - length p) (filter (\<lambda>e. suffix p (take (Suc e) s)) [0..<i])"

lemma ended_0 [simp]: "ended s p 0 = []"
  by (simp add: ended_def)

lemma ended_Suc: "ended s p (Suc i) = ended s p i @ (if suffix p (take (Suc i) s) then [i + 1 - length p] else [])"
  by (simp add: ended_def)

lemma length_ended: "length (ended s p i) \<le> i"
proof -
  have "length (filter (\<lambda>e. suffix p (take (Suc e) s)) [0..<i]) \<le> length [0..<i]" by (rule length_filter_le)
  then show ?thesis by (simp add: ended_def)
qed

lemma suffix_take_iff:
  assumes "e < length s"
  shows "suffix p (take (Suc e) s) \<longleftrightarrow>
    length p \<le> Suc e \<and> take (length p) (drop (Suc e - length p) s) = p"
proof
  assume h: "suffix p (take (Suc e) s)"
  then have le: "length p \<le> Suc e" using suffix_length_le [OF h] assms by simp
  obtain zs where zs: "take (Suc e) s = zs @ p" using h by (auto simp: suffix_def)
  have "length zs = Suc e - length p" using assms arg_cong [OF zs, of length] by simp
  then have "p = drop (Suc e - length p) (take (Suc e) s)" using zs by simp
  also have "\<dots> = take (length p) (drop (Suc e - length p) s)"
    using assms le by (simp add: drop_take min_def)
  finally show "length p \<le> Suc e \<and> take (length p) (drop (Suc e - length p) s) = p" using le by simp
next
  assume h: "length p \<le> Suc e \<and> take (length p) (drop (Suc e - length p) s) = p"
  then have "drop (Suc e - length p) (take (Suc e) s) = p" using assms by (simp add: drop_take)
  then show "suffix p (take (Suc e) s)" using suffix_drop by metis
qed

lemma ended_all:
  assumes "p \<noteq> []"
  shows "ended s p (length s) = occurrences s p"
proof -
  let ?m = "length p - 1" and ?n = "length s"
  let ?Q = "\<lambda>k. take (length p) (drop k s) = p"
  have m: "length p = Suc ?m" using assms by simp
  have short: "filter (\<lambda>e. suffix p (take (Suc e) s)) [0..<min ?m ?n] = []"
  proof -
    have "\<not> suffix p (take (Suc e) s)" if "e < ?m" for e
      using that suffix_length_le [of p "take (Suc e) s"] by auto
    then show ?thesis by (simp add: filter_empty_conv)
  qed
  have tail: "filter ?Q [?n - ?m..<?n] = []"
  proof (rule filter_False, rule ballI)
    fix k assume "k \<in> set [?n - ?m..<?n]"
    then have k: "?n - ?m \<le> k" "k < ?n" by simp_all
    show "\<not> ?Q k"
    proof
      assume "?Q k"
      then have "length (take (length p) (drop k s)) = length p" by simp
      then have "length p \<le> ?n - k" by simp
      with m k show False by linarith
    qed
  qed
  show ?thesis
  proof (cases "?m \<le> ?n")
    case False
    then have "ended s p ?n = []" using short by (simp add: ended_def min_def split: if_splits)
    moreover have "occurrences s p = []" using tail False by (simp add: occurrences_def)
    ultimately show ?thesis by simp
  next
    case True
    have split: "[0..<?n] = [0..<?m] @ [?m..<?n]" "[0..<?n] = [0..<?n - ?m] @ [?n - ?m..<?n]"
      using True upt_add_eq_append [of 0 ?m "?n - ?m"] upt_add_eq_append [of 0 "?n - ?m" ?m] by simp_all
    have shift: "[?m..<?n] = map (\<lambda>k. k + ?m) [0..<?n - ?m]"
      using map_add_upt [of ?m "?n - ?m"] True by simp
    have short': "filter (\<lambda>e. suffix p (take (Suc e) s)) [0..<?m] = []" using short True by (simp add: min_def)
    have "ended s p ?n = map (\<lambda>e. e + 1 - length p) (filter (\<lambda>e. suffix p (take (Suc e) s)) [?m..<?n])"
      unfolding ended_def split(1) filter_append short' by simp
    also have "\<dots> = filter (\<lambda>k. suffix p (take (Suc (k + ?m)) s)) [0..<?n - ?m]"
      unfolding shift filter_map using m by (simp add: comp_def)
    also have "\<dots> = filter ?Q [0..<?n - ?m]"
    proof (rule filter_cong)
      fix k assume "k \<in> set [0..<?n - ?m]"
      then have "k + ?m < ?n" by simp
      then show "suffix p (take (Suc (k + ?m)) s) = ?Q k"
        using suffix_take_iff [of "k + ?m" s p] m by (metis add_Suc_right add_diff_cancel_right' le_add2)
    qed simp
    also have "\<dots> = occurrences s p"
      unfolding occurrences_def split(2) filter_append tail by simp
    finally show ?thesis .
  qed
qed

definition answer :: "nat \<Rightarrow> nat list \<Rightarrow> int list" where
  "answer n ks = map int ks @ replicate (n - length ks) (-1)"

lemma answer_write:
  assumes "length ks < n"
  shows "wr (answer n ks) (int (length ks)) (int k) = Inr (answer n (ks @ [k]))"
proof -
  obtain d where "n - length ks = Suc d" using assms by (cases "n - length ks") auto
  then have "(answer n ks)[length ks := int k] = answer n (ks @ [k])"
    using assms by (simp add: answer_def list_update_append)
  moreover have "length ks < length (answer n ks)" using assms by (simp add: answer_def)
  ultimately show ?thesis by simp
qed

lemma kmp_from_result:
  assumes "table_ok p t (length p)" "p \<noteq> []" "longest p (take i s) (length p) j" "i \<le> length s"
  shows "kmp_from (s @ rs) (p @ rp) (Some t) (int (length s)) (int (length p)) (int i) (int j)
           (answer (length s) (ended s p i)) (int (length (ended s p i))) =
         Some (Inr (answer (length s) (ended s p (length s)), int (length (ended s p (length s)))))"
  using assms(3,4)
proof (induction "length s - i" arbitrary: i j)
  case 0
  then have "i = length s" by simp
  then show ?case by (subst kmp_from.simps) simp
next
  case (Suc n)
  let ?w = "take i s" and ?c = "s ! i" and ?m = "length p" and ?K = "\<lambda>i j. kmp_from (s @ rs) (p @ rp) (Some t) (int (length s))
      (int (length p)) (int i) (int j) (answer (length s) (ended s p i)) (int (length (ended s p i)))"
  have i: "i < length s" and n: "n = length s - Suc i" using Suc.hyps(2) by auto
  have len: "length t = ?m" using assms(1) by (simp add: table_ok_def)
  have j: "j < ?m" "ends_with p j ?w" "\<forall>k < ?m. ends_with p k ?w \<longrightarrow> k \<le> j"
    using Suc.prems(1) by (auto simp: longest_def)
  obtain j1 where j1: "fall_back (Some t) (p @ rp) ?c (int j) = Some (Inr (int j1))" "j1 \<le> j" "ends_with p j1 ?w"
    "j1 = 0 \<or> p ! j1 = ?c" "\<forall>k < ?m. ends_with p k ?w \<and> p ! k = ?c \<longrightarrow> k \<le> j1"
    using fall_back_result [OF assms(1) _ j(1,2), of ?c rp] j by auto
  have j1m: "j1 < ?m" using j1(2) j(1) by simp
  have ww: "?w @ [?c] = take (Suc i) s" using i by (simp add: take_Suc_conv_app_nth)
  note step = longest_step [OF j1(3,4) j1m order.refl j1m j1(5), unfolded ww]
  have reads: "rd (s @ rs) (int i) = Inr ?c" "rd (p @ rp) (int j1) = Inr (p ! j1)"
    using i j1m by (simp_all add: nth_append)
  have full: "suffix p (take (Suc i) s) \<longleftrightarrow> p ! j1 = ?c \<and> j1 = ?m - 1"
  proof -
    have "suffix p (take (Suc i) s) \<longleftrightarrow> ends_with p ?m (?w @ [?c])" by (simp add: ends_with_def ww)
    also have "\<dots> \<longleftrightarrow> ends_with p (?m - 1) ?w \<and> p ! (?m - 1) = ?c"
      using ends_with_snoc [of "?m - 1" p ?w ?c] assms(2) by (simp add: Suc_diff_1 [symmetric] del: Suc_diff_1)
    also have "\<dots> \<longleftrightarrow> p ! j1 = ?c \<and> j1 = ?m - 1"
      using j1(3,5) j1m by (metis One_nat_def Suc_pred diff_less le_antisym length_greater_0_conv less_Suc_eq_le zero_less_one assms(2))
    finally show ?thesis .
  qed
  show ?case
  proof (cases "p ! j1 = ?c")
    case False
    then have "j1 = 0" using j1(4) by simp
    moreover have "ended s p (Suc i) = ended s p i" using False full by (simp add: ended_Suc)
    ultimately have "?K i j = ?K (Suc i) 0"
      using False i j1(1) reads by (subst kmp_from.simps) (simp add: add.commute)
    then show ?thesis using Suc.hyps(1) [of "Suc i" 0] n step(2) False i by simp
  next
    case match: True
    show ?thesis
    proof (cases "j1 = ?m - 1")
      case False
      then have "ended s p (Suc i) = ended s p i" using full by (simp add: ended_Suc)
      moreover have "int j1 \<noteq> int ?m - 1" using False by linarith
      ultimately have "?K i j = ?K (Suc i) (Suc j1)"
        using match i j1(1) reads by (subst kmp_from.simps) (simp add: add.commute)
      then show ?thesis using Suc.hyps(1) [of "Suc i" "Suc j1"] n step(1) match False i j1m by simp
    next
      case True
      have suf: "suffix p (take (Suc i) s)" using full match True by simp
      then have mi: "?m \<le> Suc i" using suffix_length_le [OF suf] i by simp
      have e: "ended s p (Suc i) = ended s p i @ [i + 1 - ?m]" using suf by (simp add: ended_Suc)
      obtain j2 where j2: "t ! (?m - 1) = int j2" "longest p (take ?m p) ?m j2"
        using assms(1,2) unfolding table_ok_def by (metis length_greater_0_conv order.refl)
      have "longest p (take (Suc i) s) ?m j2"
      proof -
        have pe: "ends_with p ?m (take (Suc i) s)" using suf by (simp add: ends_with_def)
        have "ends_with p k (take (Suc i) s) \<longleftrightarrow> ends_with p k (take ?m p)" if "k < ?m" for k
          using ends_with_shorter [OF _ pe] ends_with_trans [OF _ pe] that by auto
        then show ?thesis using j2(2) by (auto simp: longest_def)
      qed
      moreover have "rd t (int j1) = Inr (int j2)" using len True j2(1) assms(2) by simp
      moreover have "wr (answer (length s) (ended s p i)) (int (length (ended s p i))) (int i - int ?m + 1) =
          Inr (answer (length s) (ended s p (Suc i)))"
        using answer_write [of "ended s p i" "length s" "i + 1 - ?m"] length_ended [of s p i] i mi
        by (simp add: e of_nat_diff algebra_simps)
      moreover have "int j1 = int ?m - 1" using True assms(2) by (simp add: of_nat_diff Suc_le_eq)
      moreover have "int (length (ended s p i)) + 1 = int (length (ended s p (Suc i)))" by (simp add: e)
      ultimately have "?K i j = ?K (Suc i) j2" "longest p (take (Suc i) s) ?m j2"
        using match i j1(1) reads by (subst kmp_from.simps, simp add: add.commute, simp)
      then show ?thesis using Suc.hyps(1) [of "Suc i" j2] n i by simp
    qed
  qed
qed

text \<open>An empty pattern matches nowhere: its first character is the NUL.\<close>

lemma kmp_from_empty:
  assumes "NUL \<notin> set s" "i \<le> length s"
  shows "kmp_from (s @ rs) (NUL # rp) pi (int (length s)) 0 (int i) 0 ans k = Some (Inr (ans, k))"
  using assms(2)
proof (induction "length s - i" arbitrary: i)
  case 0
  then show ?case by (subst kmp_from.simps) simp
next
  case (Suc n)
  then have i: "i < length s" "n = length s - Suc i" by simp_all
  have "rd (s @ rs) (int i) = Inr (s ! i)" using i(1) by (simp add: nth_append)
  moreover have "s ! i \<noteq> NUL" using i(1) assms(1) nth_mem by metis
  moreover have "fall_back pi (NUL # rp) c 0 = Some (Inr 0)" for c by (simp add: fall_back.simps)
  moreover have "rd (NUL # rp) 0 = Inr NUL" by simp
  ultimately have "kmp_from (s @ rs) (NUL # rp) pi (int (length s)) 0 (int i) 0 ans k =
      kmp_from (s @ rs) (NUL # rp) pi (int (length s)) 0 (int (Suc i)) 0 ans k"
    using i(1) by (subst kmp_from.simps) (simp add: add.commute)
  then show ?case using Suc.hyps(1) [of "Suc i"] i by simp
qed

definition matches :: "string \<Rightarrow> string \<Rightarrow> nat list" where
  "matches s p = (if p = [] then [] else occurrences s p)"

lemma length_occurrences: "length (occurrences s p) \<le> length s"
  unfolding occurrences_def using length_filter_le [of _ "[0..<length s]"] by simp

lemma length_matches: "length (matches s p) \<le> length s"
  using length_occurrences by (simp add: matches_def)

lemma kmp_result:
  assumes "NUL \<notin> set s" "NUL \<notin> set p"
  shows "kmp True True (s @ NUL # rs) (p @ NUL # rp) =
         Some (Inr (Some (answer (length s) (matches s p), int (length (matches s p)))))"
proof -
  obtain t where t: "getPi True (p @ NUL # rp) = Some (Inr (Some t))" "table_ok p t (length p)"
    using getPi_result [OF assms(2)] by blast
  have start: "replicate (length s) (- 1) = answer (length s) []" by (simp add: answer_def)
  show ?thesis
  proof (cases "p = []")
    case True
    then show ?thesis
      using t(1) assms(1) kmp_from_empty [OF assms(1), of 0] cstr_append_nul [of "[]" rp]
      by (simp add: kmp_def matches_def answer_def Let_def)
  next
    case False
    then have "longest p (take 0 s) (length p) 0"
      by (auto simp: longest_def ends_with_def)
    from kmp_from_result [OF t(2) False this]
    show ?thesis using t(1) assms False ended_all [OF False, of s]
      by (simp add: kmp_def matches_def start)
  qed
qed

section \<open>Counting the answers\<close>

lemma intslen_from_result:
  assumes "length ks < n" "i \<le> length ks"
  shows "intslen_from (answer n ks) isValueSet isIntArrEnd (int i) c =
         Inr (c + int (length (filter (\<lambda>k. 0 < k) (drop i ks))))"
  using assms(2)
proof (induction "length ks - i" arbitrary: i c)
  case 0
  have "rd (answer n ks) (int (length ks)) = Inr (-1)"
    using assms(1) by (simp add: answer_def nth_append)
  with 0 show ?case by (subst intslen_from.simps) (simp add: isIntArrEnd_def)
next
  case (Suc m)
  then have i: "i < length ks" "m = length ks - Suc i" by simp_all
  have "rd (answer n ks) (int i) = Inr (int (ks ! i))"
    using assms(1) i(1) by (simp add: answer_def nth_append)
  moreover have "drop i ks = ks ! i # drop (Suc i) ks" using i(1) by (simp add: Cons_nth_drop_Suc)
  ultimately show ?case
    using Suc.hyps(1) [of "Suc i"] i
    by (subst intslen_from.simps) (simp add: isIntArrEnd_def isValueSet_def add.commute)
qed

lemma intslen_from_full:
  assumes "length ks = n" "i \<le> n"
  shows "intslen_from (answer n ks) isValueSet isIntArrEnd (int i) c = Inl OutOfBounds"
  using assms(2)
proof (induction "n - i" arbitrary: i c)
  case 0
  with assms(1) show ?case by (subst intslen_from.simps) (simp add: answer_def)
next
  case (Suc m)
  then have i: "i < n" "m = n - Suc i" by simp_all
  have "rd (answer n ks) (int i) = Inr (int (ks ! i))" using assms(1) i(1) by (simp add: answer_def)
  then show ?case
    using Suc.hyps(1) [of "Suc i"] i by (subst intslen_from.simps) (simp add: isIntArrEnd_def add.commute)
qed

section \<open>Properties\<close>

text \<open>getPi returns, without a fault, the table whose entry for every non-empty prefix of the
  pattern is the length of the longest proper border of that prefix.
\<close>

theorem getPi_borders:
  assumes "NUL \<notin> set p"
  shows "\<exists>t. getPi True (p @ NUL # rest) = Some (Inr (Some t)) \<and> length t = length p \<and>
    (\<forall>q. 0 < q \<and> q \<le> length p \<longrightarrow> (\<exists>j. t ! (q - 1) = int j \<and> j < q \<and> suffix (take j p) (take q p) \<and>
       (\<forall>k < q. suffix (take k p) (take q p) \<longrightarrow> k \<le> j)))"
proof -
  have "take k (take q p) = take k p" if "k < q" for k q
    using that by (simp add: min_def)
  then show ?thesis
    using getPi_result [OF assms] unfolding table_ok_def longest_def ends_with_def by metis
qed

theorem getPi_borders_witness:
  "\<exists>t. getPi True (''abab'' @ [NUL]) = Some (Inr (Some t)) \<and> length t = 4"
proof -
  have "NUL \<notin> set ''abab''" by (simp add: NUL_def)
  from getPi_borders [OF this, of "[]"] show ?thesis by (elim exE conjE) (rule exI, rule conjI, assumption, simp)
qed

text \<open>
  C15. kmp returns, without a fault, every position of the text at which a non-empty pattern
  occurs, in increasing order and followed by -1 up to the length of the text, with the number
  of positions in *ansi; for the empty pattern it finds none.
\<close>

theorem kmp_finds_all:
  assumes "NUL \<notin> set s" and "NUL \<notin> set p"
  shows "kmp True True (s @ NUL # rs) (p @ NUL # rp) =
    (let ks = if p = [] then [] else filter (\<lambda>k. take (length p) (drop k s) = p) [0..<length s]
     in Some (Inr (Some (map int ks @ replicate (length s - length ks) (-1), int (length ks)))))"
  using kmp_result [OF assms] by (simp add: matches_def occurrences_def answer_def Let_def)

theorem kmp_finds_all_witness:
  "kmp True True (''ababa'' @ [NUL]) (''aba'' @ [NUL]) = Some (Inr (Some ([0, 2, -1, -1, -1], 2)))"
proof -
  have "filter (\<lambda>k. take 3 (drop k ''ababa'') = ''aba'') [0..<5] = [0, 2]" by code_simp
  then show ?thesis
    using kmp_finds_all [of "''ababa''" "''aba''" "[]" "[]"] by (simp add: NUL_def numeral_3_eq_3)
qed

text \<open>The match count that main prints is one too small when the pattern occurs at position 0,
  since isValueSet accepts positive positions only, and intslen reads past the array when every
  position of the text is a match, since no -1 is left in it.
\<close>

theorem intslen_of_kmp:
  assumes "NUL \<notin> set s" and "NUL \<notin> set p"
    and "kmp True True (s @ NUL # rs) (p @ NUL # rp) = Some (Inr (Some (ans, ansi)))"
  shows "intslen ans isValueSet isIntArrEnd =
    (if ansi = int (length s) then Inl OutOfBounds
     else Inr (ansi - (if p \<noteq> [] \<and> prefix p s then 1 else 0)))"
proof -
  let ?ks = "matches s p"
  have ans: "ans = answer (length s) ?ks" "ansi = int (length ?ks)"
    using kmp_result [OF assms(1,2), of rs rp] assms(3) by simp_all
  have count: "length (filter (\<lambda>k. 0 < k) ?ks) = length ?ks - (if p \<noteq> [] \<and> prefix p s then 1 else 0)"
  proof (cases "p = [] \<or> s = []")
    case True
    then show ?thesis by (auto simp: matches_def occurrences_def)
  next
    case False
    then have "[0..<length s] = 0 # [1..<length s]" by (simp add: upt_conv_Cons)
    moreover have "filter (\<lambda>k. 0 < k) (filter Q [1..<length s]) = filter Q [1..<length s]" for Q
      by (rule filter_True) auto
    moreover have "take (length p) s = p \<longleftrightarrow> prefix p s"
      by (metis append_eq_conv_conj prefix_def take_is_prefix)
    ultimately show ?thesis using False by (auto simp: matches_def occurrences_def)
  qed
  show ?thesis
  proof (cases "length ?ks = length s")
    case True
    then show ?thesis using intslen_from_full [of ?ks "length s" 0 0] ans by (simp add: intslen_def)
  next
    case False
    then have lt: "length ?ks < length s" using length_matches [of s p] by simp
    have "1 \<le> length ?ks" if "p \<noteq> []" "prefix p s"
    proof -
      have "0 \<in> set ?ks" using that lt by (auto simp: matches_def occurrences_def prefix_def)
      then show ?thesis by (cases ?ks) auto
    qed
    then show ?thesis
      using intslen_from_result [OF lt, of 0 0] ans False count by (auto simp: intslen_def of_nat_diff)
  qed
qed

theorem intslen_of_kmp_witness:
  "intslen [0, 2, -1, -1, -1] isValueSet isIntArrEnd = Inr 1"
proof -
  have "kmp True True (''ababa'' @ NUL # []) (''aba'' @ NUL # []) = Some (Inr (Some ([0, 2, -1, -1, -1], 2)))"
    by code_simp
  from intslen_of_kmp [OF _ _ this] show ?thesis by (simp add: NUL_def)
qed

text \<open>A failed malloc in getPi is only noticed by following the NULL pointer.\<close>

lemma kmp_null_table: "kmp False True (''aab'' @ [NUL]) (''ab'' @ [NUL]) = Some (Inl NullDeref)"
  by code_simp

text \<open>
  trim removes one final newline of a line longer than one character, and leaves any other
  line, the single newline included, unchanged.
\<close>

theorem trim_newline:
  assumes "NUL \<notin> set s"
  shows "cstr (trim (s @ NUL # rest)) =
    (if 1 < length s \<and> last s = CHR 0x0A then butlast s else s)"
proof (cases "1 < length s \<and> last s = CHR 0x0A")
  case True
  then obtain u where u: "s = u @ [CHR 0x0A]" by (cases s rule: rev_cases) auto
  have "cstr (u @ CHR 0x0A # NUL # rest) = u @ [CHR 0x0A]"
    using cstr_append_nul [of "u @ [CHR 0x0A]" rest] assms u by simp
  then have "trim (s @ NUL # rest) = u @ NUL # NUL # rest"
    using u True by (simp add: trim_def list_update_append nth_append Let_def)
  then show ?thesis using u assms True by simp
next
  case False
  have "(s @ NUL # rest) ! (length s - 1) = last s" if "1 < length s"
    using that last_conv_nth [of s] by (cases s) (auto simp: nth_append)
  then have "trim (s @ NUL # rest) = s @ NUL # rest"
    using assms False by (auto simp: trim_def Let_def)
  then show ?thesis using assms False by auto
qed

theorem trim_newline_witness:
  "cstr (trim [CHR ''o'', CHR ''k'', CHR 0x0A, NUL]) = ''ok''"
  using trim_newline [of "[CHR ''o'', CHR ''k'', CHR 0x0A]" "[]"] by (simp add: NUL_def)

end
