(* ===== verification/Circle_Queue.thy ===== *)
theory Circle_Queue
  imports Prelude
begin

text \<open>
  MyUtil/MyCircleQueue.c and .h: a bounded circular queue of ints, and the menu program of
  MyUtil/TestCircle.c that drives it.
\<close>

section \<open>The queue\<close>

text \<open>The function pointers of the struct are constant after main has set them and are left out.\<close>

record cirque =
  cq_data :: "int list option"      \<comment> \<open>\<open>data\<close>: NULL or its block\<close>
  front :: int
  rear :: int
  cq_count :: int                   \<comment> \<open>\<open>count\<close>\<close>
  capacity :: int

definition cirque_data :: "cirque \<Rightarrow> int \<Rightarrow> fault + int" where
  "cirque_data que idx = (case cq_data que of None \<Rightarrow> Inl NullDeref | Some d \<Rightarrow> rd d idx)"

text \<open>\<open>block\<close>: what malloc returned, NULL or a block of \<open>capacity\<close> cells of any content.\<close>

definition initCirQue :: "int list option \<Rightarrow> cirque \<Rightarrow> int \<Rightarrow> int \<times> cirque" where
  "initCirQue block que cap =
     (let que1 = que\<lparr>cq_data := block\<rparr> in if cq_data que1 = None then (-1, que1) else (0, que1))"

definition insertCirQue :: "cirque \<Rightarrow> int \<Rightarrow> fault + int \<times> cirque" where
  "insertCirQue que newData =
     (if cq_count que = capacity que then Inr (-1, que)
      else case cq_data que of
             None \<Rightarrow> Inl NullDeref
           | Some d \<Rightarrow>
               and_then (wr d (rear que) newData) (\<lambda>d1.
               and_then (checked_mod (rear que + 1) (capacity que)) (\<lambda>r.
                 Inr (0, que\<lparr>cq_data := Some d1, rear := r, cq_count := cq_count que + 1\<rparr>))))"

text \<open>The middle component is the value stored through \<open>data\<close>, if any.\<close>

definition removeCirQue :: "cirque \<Rightarrow> fault + int \<times> int option \<times> cirque" where
  "removeCirQue que =
     (if cq_count que = 0 then Inr (-1, None, que)
      else and_then (cirque_data que (front que)) (\<lambda>x.
           and_then (checked_mod (front que + 1) (capacity que)) (\<lambda>f.
             Inr (0, Some x, que\<lparr>front := f, cq_count := cq_count que - 1\<rparr>))))"

text \<open>The printing loop: \<open>j\<close> counts down and \<open>i\<close> stays where it started.\<close>

fun print_loop :: "cirque \<Rightarrow> int \<Rightarrow> nat \<Rightarrow> fault + string" where
  "print_loop que i 0 = Inr []"
| "print_loop que i (Suc j) =
     and_then (cirque_data que i) (\<lambda>x.
     and_then (print_loop que i j) (\<lambda>out.
       Inr (dec_int x @ (if Suc j > 1 then '', '' else []) @ out)))"

definition printCirQue :: "cirque \<Rightarrow> fault + int \<times> string" where
  "printCirQue que =
     (let head = ''queue size='' @ dec_int (cq_count que) @ [CHR 0x0A]
      in if cq_count que < 1 then Inr (-1, head)
         else and_then (print_loop que (front que) (nat (cq_count que))) (\<lambda>out.
                Inr (0, head @ out @ [CHR 0x0A])))"

text \<open>Where the queue object itself lives decides what \<open>free(que)\<close> does.\<close>

datatype storage = From_malloc | Automatic

definition disposeCirQue :: "(storage \<times> cirque) option \<Rightarrow> fault + int" where
  "disposeCirQue que =
     (case que of None \<Rightarrow> Inr (-1)
      | Some (From_malloc, q) \<Rightarrow> Inr 0
      | Some (Automatic, q) \<Rightarrow> Inl BadFree)"

section \<open>The interface of a bounded queue\<close>

datatype 'a queue_op = Ins 'a | Rem

fun bounded_run :: "('q \<Rightarrow> 'a \<Rightarrow> fault + int \<times> 'q) \<Rightarrow> ('q \<Rightarrow> fault + int \<times> 'a option \<times> 'q) \<Rightarrow> 'q \<Rightarrow>
    'a queue_op list \<Rightarrow> fault + (int \<times> 'a option) list \<times> 'q" where
  "bounded_run ins rem q [] = Inr ([], q)"
| "bounded_run ins rem q (Ins x # ops) =
     and_then (ins q x) (\<lambda>(rc, q1).
       and_then (bounded_run ins rem q1 ops) (\<lambda>(rs, q2). Inr ((rc, None) # rs, q2)))"
| "bounded_run ins rem q (Rem # ops) =
     and_then (rem q) (\<lambda>(rc, v, q1).
       and_then (bounded_run ins rem q1 ops) (\<lambda>(rs, q2). Inr ((rc, v) # rs, q2)))"

text \<open>The same operations on a list of at most \<open>n\<close> elements.\<close>

fun bounded_spec :: "nat \<Rightarrow> 'a list \<Rightarrow> 'a queue_op list \<Rightarrow> (int \<times> 'a option) list \<times> 'a list" where
  "bounded_spec n xs [] = ([], xs)"
| "bounded_spec n xs (Ins x # ops) =
     (if length xs < n then let (rs, ys) = bounded_spec n (xs @ [x]) ops in ((0, None) # rs, ys)
      else let (rs, ys) = bounded_spec n xs ops in ((-1, None) # rs, ys))"
| "bounded_spec n [] (Rem # ops) = (let (rs, ys) = bounded_spec n [] ops in ((-1, None) # rs, ys))"
| "bounded_spec n (x # xs) (Rem # ops) = (let (rs, ys) = bounded_spec n xs ops in ((0, Some x) # rs, ys))"

locale bounded_fifo =
  fixes ins :: "'q \<Rightarrow> 'a \<Rightarrow> fault + int \<times> 'q"
    and rem :: "'q \<Rightarrow> fault + int \<times> 'a option \<times> 'q"
    and holds :: "nat \<Rightarrow> 'q \<Rightarrow> 'a list \<Rightarrow> bool"
  assumes ins_room: "holds n q xs \<Longrightarrow> length xs < n \<Longrightarrow> \<exists>q'. ins q x = Inr (0, q') \<and> holds n q' (xs @ [x])"
    and ins_full: "holds n q xs \<Longrightarrow> length xs = n \<Longrightarrow> ins q x = Inr (-1, q)"
    and rem_some: "holds n q (x # xs) \<Longrightarrow> \<exists>q'. rem q = Inr (0, Some x, q') \<and> holds n q' xs"
    and rem_none: "holds n q [] \<Longrightarrow> rem q = Inr (-1, None, q)"
    and bound: "holds n q xs \<Longrightarrow> length xs \<le> n"
begin

lemma client_refines:
  "holds n q xs \<Longrightarrow> \<exists>q'. bounded_run ins rem q ops = Inr (fst (bounded_spec n xs ops), q') \<and>
    holds n q' (snd (bounded_spec n xs ops))"
proof (induction n xs ops arbitrary: q rule: bounded_spec.induct)
  case (1 n xs)
  then show ?case by simp
next
  case (2 n xs x ops)
  show ?case
  proof (cases "length xs < n")
    case True
    obtain q1 where "ins q x = Inr (0, q1)" "holds n q1 (xs @ [x])" using ins_room [OF "2.prems" True] by blast
    with "2.IH"(1) [OF True] True show ?thesis by (fastforce simp: split_beta Let_def)
  next
    case False
    then have "ins q x = Inr (-1, q)" using ins_full bound "2.prems" by (metis le_neq_implies_less)
    with "2.IH"(2) [OF False "2.prems"] False show ?thesis by (auto simp: split_beta Let_def)
  qed
next
  case (3 n ops)
  with rem_none [OF "3.prems"] show ?case by (fastforce simp: split_beta Let_def)
next
  case (4 n x xs ops)
  obtain q1 where "rem q = Inr (0, Some x, q1)" "holds n q1 xs" using rem_some [OF "4.prems"] by blast
  with "4.IH" show ?case by (fastforce simp: split_beta Let_def)
qed

end

section \<open>The circular queue provides it\<close>

text \<open>The elements held: \<open>count\<close> cells from \<open>front\<close> on, modulo the capacity.\<close>

definition cq_elems :: "int list \<Rightarrow> nat \<Rightarrow> nat \<Rightarrow> int list" where
  "cq_elems d f c = map (\<lambda>i. d ! ((f + i) mod length d)) [0..<c]"

definition cq_holds :: "nat \<Rightarrow> cirque \<Rightarrow> int list \<Rightarrow> bool" where
  "cq_holds n que xs \<longleftrightarrow>
     (\<exists>d f. cq_data que = Some d \<and> length d = n \<and> f < n \<and> length xs \<le> n \<and>
        front que = int f \<and> rear que = int ((f + length xs) mod n) \<and>
        cq_count que = int (length xs) \<and> capacity que = int n \<and> xs = cq_elems d f (length xs))"

lemma length_cq_elems [simp]: "length (cq_elems d f c) = c"
  by (simp add: cq_elems_def)

lemma checked_mod_int: "0 < n \<Longrightarrow> checked_mod (int a + 1) (int n) = Inr (int (Suc a mod n))"
  by (simp add: checked_mod_def zmod_int add.commute)

lemma cq_elems_insert:
  assumes "f < length d" "c < length d"
  shows "cq_elems (d[(f + c) mod length d := x]) f (Suc c) = cq_elems d f c @ [x]"
proof -
  have ne: "(f + i) mod length d \<noteq> (f + c) mod length d" if "i < c" for i
  proof
    assume "(f + i) mod length d = (f + c) mod length d"
    then have "(f + c - (f + i)) mod length d = 0" using that
      by (metis add_le_cancel_left less_imp_le mod_eq_0_iff_dvd mod_eq_dvd_iff_nat)
    moreover have "f + c - (f + i) < length d" "0 < f + c - (f + i)" using that assms(2) by auto
    ultimately show False by simp
  qed
  moreover have "(f + c) mod length d < length d" by (rule mod_less_divisor) (use assms in linarith)
  ultimately show ?thesis
    by (simp add: cq_elems_def nth_list_update) (use ne in \<open>auto dest: sym\<close>)
qed

lemma cq_elems_remove:
  assumes "f < length d"
  shows "cq_elems d f (Suc c) = d ! f # cq_elems d (Suc f mod length d) c"
proof -
  have "[0..<Suc c] = 0 # map Suc [0..<c]" by (simp add: upt_conv_Cons map_Suc_upt del: upt_Suc)
  then show ?thesis using assms by (simp add: cq_elems_def comp_def mod_simps del: upt_Suc)
qed

lemma cq_insert_room:
  assumes "cq_holds n que xs" "length xs < n"
  shows "\<exists>que'. insertCirQue que x = Inr (0, que') \<and> cq_holds n que' (xs @ [x])"
proof -
  obtain d f where q: "cq_data que = Some d" "length d = n" "f < n" "front que = int f"
    "rear que = int ((f + length xs) mod n)" "cq_count que = int (length xs)" "capacity que = int n"
    "xs = cq_elems d f (length xs)"
    using assms(1) by (auto simp: cq_holds_def)
  let ?r = "(f + length xs) mod n"
  have r: "?r < n" using q(3) by simp
  have "insertCirQue que x = Inr (0, que\<lparr>cq_data := Some (d[?r := x]), rear := int (Suc ?r mod n),
      cq_count := int (length xs) + 1\<rparr>)"
    using q(1-7) r assms(2) checked_mod_int [of n ?r] by (simp add: insertCirQue_def)
  moreover have "cq_elems (d[?r := x]) f (Suc (length xs)) = xs @ [x]"
    using cq_elems_insert [of f d "length xs" x] q assms(2) by simp
  ultimately show ?thesis
    using q assms(2) by (auto simp: cq_holds_def mod_Suc_eq intro!: exI [of _ "d[?r := x]"] exI [of _ f])
qed

lemma cq_remove_some:
  assumes "cq_holds n que (x # xs)"
  shows "\<exists>que'. removeCirQue que = Inr (0, Some x, que') \<and> cq_holds n que' xs"
proof -
  obtain d f where q: "cq_data que = Some d" "length d = n" "f < n" "Suc (length xs) \<le> n" "front que = int f"
    "rear que = int ((f + Suc (length xs)) mod n)" "cq_count que = int (Suc (length xs))" "capacity que = int n"
    "x # xs = cq_elems d f (Suc (length xs))"
    using assms by (auto simp: cq_holds_def)
  have e: "x = d ! f" "xs = cq_elems d (Suc f mod n) (length xs)"
    using q(9) cq_elems_remove [of f d "length xs"] q(2,3) by auto
  have "removeCirQue que = Inr (0, Some x, que\<lparr>front := int (Suc f mod n), cq_count := int (length xs)\<rparr>)"
    using q e(1) checked_mod_int [of n f] by (simp add: removeCirQue_def cirque_data_def)
  then show ?thesis
    using q e(2) by (auto simp: cq_holds_def mod_simps intro!: exI [of _ "Suc f mod n"])
qed

lemma cq_insert_full: "cq_holds n que xs \<Longrightarrow> length xs = n \<Longrightarrow> insertCirQue que x = Inr (-1, que)"
  by (auto simp: cq_holds_def insertCirQue_def)

lemma cq_remove_none: "cq_holds n que [] \<Longrightarrow> removeCirQue que = Inr (-1, None, que)"
  by (auto simp: cq_holds_def removeCirQue_def)

lemma cq_bound: "cq_holds n que xs \<Longrightarrow> length xs \<le> n"
  by (auto simp: cq_holds_def)

interpretation cq: bounded_fifo insertCirQue removeCirQue cq_holds
  by unfold_locales (rule cq_insert_room cq_insert_full cq_remove_some cq_remove_none cq_bound; assumption)+

section \<open>The menu program\<close>

definition menu :: string where
  "menu = CHR 0x0A # ''1(Insert Data), 2(Delete Data), 3(Display Data), 4(Quit the Program)'' @
     CHR 0x0A # ''Enter your choice:''"

text \<open>
  The numbers scanf reads are a list; at its end scanf leaves its variable unassigned.
  \<open>displayMenu\<close> returns the text printed, the choice and the rest of the input.
\<close>

definition displayMenu :: "int list \<Rightarrow> fault + string \<times> int \<times> int list" where
  "displayMenu inp = (case inp of [] \<Rightarrow> Inl Uninitialised | choice # rest \<Rightarrow> Inr (menu, choice, rest))"

text \<open>Case 2: \<open>d\<close> keeps its value when a removal fails, and has none before the first one succeeds.\<close>

fun delete_loop :: "nat \<Rightarrow> nat \<Rightarrow> int option \<Rightarrow> cirque \<Rightarrow> fault + string \<times> cirque" where
  "delete_loop i 0 d que = Inr ([], que)"
| "delete_loop i (Suc n) d que =
     and_then (removeCirQue que) (\<lambda>(_, v, q1).
       case (case v of None \<Rightarrow> d | Some x \<Rightarrow> Some x) of
         None \<Rightarrow> Inl Uninitialised
       | Some x \<Rightarrow>
           and_then (delete_loop (Suc i) n (Some x) q1) (\<lambda>(out, q2).
             Inr (''Removed data['' @ dec_nat i @ '']='' @ dec_int x @ [CHR 0x0A] @ out, q2)))"

definition with_output :: "string \<Rightarrow> fault + string \<times> cirque \<Rightarrow> fault + string \<times> cirque" where
  "with_output out r = and_then r (\<lambda>(out1, q). Inr (out @ out1, q))"

function menu_loop :: "int list \<Rightarrow> cirque \<Rightarrow> fault + string \<times> cirque" where
  "menu_loop inp que =
     and_then (displayMenu inp) (\<lambda>(out0, choice, rest).
       if choice = 1
       then (case rest of
                  [] \<Rightarrow> Inl Uninitialised
                | i # rest1 \<Rightarrow>
                    and_then (insertCirQue que i) (\<lambda>(_, q1).
                      with_output (out0 @ ''Enter number to insert'' @ [CHR 0x0A]) (menu_loop rest1 q1)))
       else if choice = 2
       then (case rest of
                  [] \<Rightarrow> Inl Uninitialised
                | n # rest1 \<Rightarrow>
                    and_then (delete_loop 0 (nat n) None que) (\<lambda>(out1, q1).
                      with_output (out0 @ ''Enter number to delete'' @ [CHR 0x0A] @ out1) (menu_loop rest1 q1)))
       else if choice = 3
       then and_then (printCirQue que) (\<lambda>(_, out1). with_output (out0 @ out1) (menu_loop rest que))
       else if choice = 4
       then Inr (out0, que)
       else with_output (out0 @ CHR 0x0A # ''Invalid Choice. Please enter again.'' @ [CHR 0x0A]) (menu_loop rest que))"
  by pat_completeness auto
termination
  by (relation "measure (length o fst)") (auto simp: displayMenu_def split: list.splits)

declare menu_loop.simps [simp del]

text \<open>\<open>que0\<close>: the indeterminate fields of the local object; \<open>block\<close>: the result of malloc.\<close>

definition queue_main :: "cirque \<Rightarrow> int list option \<Rightarrow> int list \<Rightarrow> fault + string" where
  "queue_main que0 block inp =
     (let (_, que) = initCirQue block que0 100
      in and_then (menu_loop inp que) (\<lambda>(out, que1).
           and_then (disposeCirQue (Some (Automatic, que1))) (\<lambda>_. Inr out)))"

section \<open>Properties\<close>

lemma print_loop_result:
  "cirque_data que i = Inr x \<Longrightarrow>
   print_loop que i n = Inr (concat (map (\<lambda>j. dec_int x @ (if j > 1 then '', '' else [])) (rev [1..<Suc n])))"
  by (induction n) auto

text \<open>
  C18. Any sequence of insertions and removals on a well-formed circular queue returns, code by
  code and value by value, what a bounded first-in-first-out list of the same capacity returns,
  the refusals at full and empty included, and never faults.
\<close>

theorem cirque_refines:
  assumes "cq_holds n que xs"
  shows "\<exists>que'. bounded_run insertCirQue removeCirQue que ops = Inr (fst (bounded_spec n xs ops), que') \<and>
           cq_holds n que' (snd (bounded_spec n xs ops))"
  by (rule cq.client_refines [OF assms])

definition cleared :: "int list \<Rightarrow> cirque" where
  "cleared d = \<lparr>cq_data = Some d, front = 0, rear = 0, cq_count = 0, capacity = int (length d)\<rparr>"

lemma cleared_holds: "d \<noteq> [] \<Longrightarrow> cq_holds (length d) (cleared d) []"
  by (auto simp: cleared_def cq_holds_def cq_elems_def)

theorem cirque_refines_witness:
  "\<exists>que'. bounded_run insertCirQue removeCirQue (cleared [0, 0]) [Ins 5, Ins 6, Ins 7, Rem, Ins 8, Rem, Rem, Rem] =
     Inr ([(0, None), (0, None), (-1, None), (0, Some 5), (0, None), (0, Some 6), (0, Some 8), (-1, None)], que')"
proof -
  have "cq_holds 2 (cleared [0, 0]) []" using cleared_holds [of "[0, 0]"] by (simp add: numeral_2_eq_2)
  from cirque_refines [OF this, of "[Ins 5, Ins 6, Ins 7, Rem, Ins 8, Rem, Rem, Rem]"]
  show ?thesis by (auto simp del: bounded_run.simps)
qed

text \<open>printCirQue of a well-formed queue prints its size and then the first element once per
  element held: the index of its loop never moves.
\<close>

theorem print_repeats_front:
  assumes "cq_holds n que (x # xs)"
  shows "printCirQue que =
    Inr (0, ''queue size='' @ dec_nat (Suc (length xs)) @ [CHR 0x0A] @
            concat (map (\<lambda>j. dec_int x @ (if j > 1 then '', '' else [])) (rev [1..<length xs + 2])) @ [CHR 0x0A])"
proof -
  obtain d f where q: "cq_data que = Some d" "length d = n" "f < n" "front que = int f"
    "cq_count que = int (Suc (length xs))" "x # xs = cq_elems d f (Suc (length xs))"
    using assms by (auto simp: cq_holds_def)
  have "x = d ! f" using q(6) cq_elems_remove [of f d "length xs"] q(2,3) by simp
  then have "cirque_data que (int f) = Inr x" using q by (simp add: cirque_data_def)
  from print_loop_result [OF this, of "Suc (length xs)"] q show ?thesis
    by (simp add: printCirQue_def dec_int_def nat_add_distrib del: upt_Suc print_loop.simps)
qed

theorem print_repeats_front_witness:
  "printCirQue \<lparr>cq_data = Some [7, 8], front = 0, rear = 0, cq_count = 2, capacity = 2\<rparr> =
     Inr (0, ''queue size=2'' @ [CHR 0x0A] @ ''7, 7'' @ [CHR 0x0A])"
proof -
  have "cq_holds 2 \<lparr>cq_data = Some [7, 8], front = 0, rear = 0, cq_count = 2, capacity = 2\<rparr> [7, 8]"
    by (auto simp: cq_holds_def cq_elems_def upt_conv_Cons)
  moreover have "dec_nat 2 = ''2''" "dec_int 7 = ''7''" by code_simp+
  ultimately show ?thesis
    using print_repeats_front [of 2 _ 7 "[8]"] by (simp add: numeral_2_eq_2)
qed

text \<open>initCirQue only sets the data pointer, so the queue is usable after it exactly when the
  bytes that happened to be in the object already describe an empty or filled queue of that
  capacity.
\<close>

theorem init_depends_on_garbage:
  assumes "length d = n"
  shows "cq_holds n (snd (initCirQue (Some d) que0 (int n))) xs \<longleftrightarrow>
    capacity que0 = int n \<and> cq_count que0 = int (length xs) \<and> length xs \<le> n \<and>
    (\<exists>f < n. front que0 = int f \<and> rear que0 = int ((f + length xs) mod n) \<and> xs = cq_elems d f (length xs))"
  using assms by (auto simp: initCirQue_def cq_holds_def Let_def)

theorem init_depends_on_garbage_witness:
  "\<not> cq_holds 2 (snd (initCirQue (Some [0, 0]) \<lparr>cq_data = None, front = 0, rear = 0, cq_count = 0, capacity = 0\<rparr> 2)) []"
  using init_depends_on_garbage [of "[0, 0]" 2 "\<lparr>cq_data = None, front = 0, rear = 0, cq_count = 0, capacity = 0\<rparr>" "[]"]
  by simp

text \<open>No run of the menu program ends well: reaching the exit choice frees the automatic queue
  object, and any other run ends in an earlier fault.
\<close>

theorem queue_main_never_returns:
  "queue_main que0 block inp =
     Inl (case menu_loop inp (snd (initCirQue block que0 100)) of Inl e \<Rightarrow> e | Inr _ \<Rightarrow> BadFree)"
  by (cases "menu_loop inp (snd (initCirQue block que0 100))")
    (auto simp: queue_main_def disposeCirQue_def split_beta Let_def)

end
