(* ===== verification/Max_Heap.thy ===== *)
theory Max_Heap
  imports Text_Input
begin

text \<open>
  Project1/MyTestMain01.cpp, struct Heap: a binary heap in an array that doubles when full, and
  the command interpreter of its main. \<open>new int[n]\<close> succeeds and returns a block of n cells of
  any content, given by \<open>mem\<close>. Sums and products of type int go through \<open>fit_int\<close>, so
  that an index or a capacity outside the range of int is a fault.
\<close>

section \<open>The heap\<close>

datatype HeapType = MinHeap | MaxHeap

text \<open>The type of a heap is stored and never looked at: every heap is a max heap.\<close>

record heap =
  hp_capacity :: int
  hp_count :: int
  hp_ar :: "int list option"     \<comment> \<open>\<open>ar\<close>: nullptr or its block\<close>
  hp_type :: HeapType

type_synonym allocator = "int \<Rightarrow> int list"

definition mem_ok :: "allocator \<Rightarrow> bool" where
  "mem_ok mem \<longleftrightarrow> (\<forall>n. length (mem n) = nat n)"

text \<open>Reads and writes through \<open>ar\<close>.\<close>

definition ar_get :: "heap \<Rightarrow> int \<Rightarrow> fault + int" where
  "ar_get h i = (case hp_ar h of None \<Rightarrow> Inl NullDeref | Some a \<Rightarrow> rd a i)"

definition ar_set :: "heap \<Rightarrow> int \<Rightarrow> int \<Rightarrow> fault + heap" where
  "ar_set h i x = (case hp_ar h of None \<Rightarrow> Inl NullDeref
     | Some a \<Rightarrow> and_then (wr a i x) (\<lambda>a1. Inr (h\<lparr>hp_ar := Some a1\<rparr>)))"

definition new_heap :: "allocator \<Rightarrow> int \<Rightarrow> HeapType \<Rightarrow> fault + heap" where
  "new_heap mem cap ty =
     (if cap < 0 then Inl Thrown
      else Inr \<lparr>hp_capacity = cap, hp_count = 0, hp_ar = Some (mem cap), hp_type = ty\<rparr>)"

definition heap_free :: "heap \<Rightarrow> heap" where
  "heap_free h = (case hp_ar h of None \<Rightarrow> h | Some _ \<Rightarrow> h\<lparr>hp_ar := None, hp_capacity := 0, hp_count := 0\<rparr>)"

definition copyAr :: "allocator \<Rightarrow> int list option \<Rightarrow> int \<Rightarrow> fault + int list" where
  "copyAr mem src n =
     (if n < 0 then Inl Thrown
      else if n = 0 then Inr (mem 0)
      else case src of
             None \<Rightarrow> Inl NullDeref
           | Some a \<Rightarrow> if int (length a) < n then Inl OutOfBounds
                       else Inr (take (nat n) a @ drop (nat n) (mem n)))"

definition copy_heap :: "allocator \<Rightarrow> heap \<Rightarrow> fault + heap" where
  "copy_heap mem src =
     and_then (copyAr mem (hp_ar src) (hp_capacity src)) (\<lambda>a.
       Inr \<lparr>hp_capacity = hp_capacity src, hp_count = hp_count src, hp_ar = Some a, hp_type = hp_type src\<rparr>)"

text \<open>The move constructor copies the cells too, and frees the source's; the results are target and source.\<close>

definition move_heap :: "allocator \<Rightarrow> heap \<Rightarrow> fault + heap \<times> heap" where
  "move_heap mem src = and_then (copy_heap mem src) (\<lambda>h. Inr (h, heap_free src))"

text \<open>The assignments; \<open>same\<close> says whether both sides are one object.\<close>

definition assign_heap :: "allocator \<Rightarrow> bool \<Rightarrow> heap \<Rightarrow> heap \<Rightarrow> fault + heap" where
  "assign_heap mem same h src = (if same then Inr h else copy_heap mem src)"

definition move_assign_heap :: "allocator \<Rightarrow> bool \<Rightarrow> heap \<Rightarrow> heap \<Rightarrow> fault + heap" where
  "move_assign_heap mem same h rhs =
     (if same then Inr h
      else let h1 = heap_free h
           in and_then (copyAr mem (hp_ar rhs) (hp_capacity rhs)) (\<lambda>a.
                Inr (h1\<lparr>hp_capacity := hp_capacity rhs, hp_count := hp_count rhs, hp_type := hp_type rhs,
                        hp_ar := Some a\<rparr>)))"

definition heap_parent :: "heap \<Rightarrow> int \<Rightarrow> int" where
  "heap_parent h i = (if i < 0 \<or> i \<ge> hp_count h then -1 else c_div (i - 1) 2)"

definition leftChild :: "heap \<Rightarrow> int \<Rightarrow> fault + int" where
  "leftChild h i =
     and_then (fit_int (i * 2)) (\<lambda>d. and_then (fit_int (d + 1)) (\<lambda>left.
       Inr (if left \<ge> hp_count h then -1 else left)))"

definition rightChild :: "heap \<Rightarrow> int \<Rightarrow> fault + int" where
  "rightChild h i =
     and_then (fit_int (i * 2)) (\<lambda>d. and_then (fit_int (d + 2)) (\<lambda>right.
       Inr (if right \<ge> hp_count h then -1 else right)))"

definition getMax :: "heap \<Rightarrow> int" where
  "getMax h = (if hp_count h \<le> 0 then -1 else hp_count h)"

text \<open>The index of the largest among a cell and its children, as \<open>percolateDown\<close> computes it.\<close>

definition largest_child :: "heap \<Rightarrow> int \<Rightarrow> fault + int" where
  "largest_child h i =
     and_then (leftChild h i) (\<lambda>l. and_then (rightChild h i) (\<lambda>r.
       and_then (ar_get h i) (\<lambda>x.
         and_then (if l \<noteq> -1 then and_then (ar_get h l) (\<lambda>y. Inr (if y > x then l else i)) else Inr i) (\<lambda>m.
         if r \<noteq> -1
         then and_then (ar_get h r) (\<lambda>z. and_then (ar_get h m) (\<lambda>w. Inr (if z > w then r else m)))
         else Inr m))))"

lemma largest_child_cases:
  "largest_child h i = Inr m \<Longrightarrow>
   m = i \<or> leftChild h i = Inr m \<and> m \<noteq> -1 \<or> rightChild h i = Inr m \<and> m \<noteq> -1"
  by (auto simp: largest_child_def and_then_Inr_iff split: if_splits)

lemma child_Inr:
  "leftChild h i = Inr m \<or> rightChild h i = Inr m \<Longrightarrow> m \<noteq> -1 \<Longrightarrow> 0 \<le> i \<Longrightarrow> i < m \<and> m < hp_count h"
  by (auto simp: leftChild_def rightChild_def and_then_Inr_iff fit_int_iff split: if_splits)

lemma ar_set_count: "ar_set h i x = Inr h1 \<Longrightarrow> hp_count h1 = hp_count h"
  by (auto simp: ar_set_def and_then_Inr_iff split: option.splits)

function percolateDown :: "heap \<Rightarrow> int \<Rightarrow> fault + heap" where
  "percolateDown h i =
     (if i < 0 \<or> i \<ge> hp_count h then Inr h
      else and_then (largest_child h i) (\<lambda>m.
             if m \<noteq> i
             then and_then (ar_get h m) (\<lambda>temp.
                  and_then (ar_get h i) (\<lambda>x.
                  and_then (ar_set h m x) (\<lambda>h1.
                  and_then (ar_set h1 i temp) (\<lambda>h2. percolateDown h2 m))))
             else Inr h))"
  by pat_completeness auto

termination
proof (relation "measure (\<lambda>(h, i). nat (hp_count h - i))", goal_cases)
  case (2 h i m t x h1 h2)
  then have "0 \<le> i" "m \<noteq> i" "largest_child h i = Inr m" by auto
  then have "i < m" "m < hp_count h"
    using largest_child_cases [of h i m] child_Inr [of h i m] by blast+
  moreover have "hp_count h2 = hp_count h" using 2 ar_set_count by metis
  ultimately show ?case by simp
qed simp

declare percolateDown.simps [simp del]

definition heap_resize :: "allocator \<Rightarrow> heap \<Rightarrow> fault + heap" where
  "heap_resize mem h =
     and_then (fit_int (hp_capacity h * 2)) (\<lambda>cap.
         if cap < 0 then Inl Thrown
         else let fresh = mem cap
              in case hp_ar h of
                   None \<Rightarrow> Inr (h\<lparr>hp_capacity := cap, hp_ar := Some fresh\<rparr>)
                 | Some old \<Rightarrow>
                     if int (length old) < hp_count h \<or> int (length fresh) < hp_count h then Inl OutOfBounds
                     else Inr (h\<lparr>hp_capacity := cap,
                                 hp_ar := Some (take (nat (hp_count h)) old @ drop (nat (hp_count h)) fresh)\<rparr>))"

text \<open>The loop of \<open>insert\<close> that moves smaller ancestors down; it leaves the final \<open>i\<close>.\<close>

function sift_up :: "heap \<Rightarrow> int \<Rightarrow> int \<Rightarrow> fault + int \<times> heap" where
  "sift_up h i x =
     (if i > 0
      then and_then (ar_get h (c_div (i - 1) 2)) (\<lambda>y.
             if x > y
             then and_then (ar_set h i y) (\<lambda>h1. sift_up h1 (c_div (i - 1) 2) x)
             else Inr (i, h))
      else Inr (i, h))"
  by pat_completeness auto
termination
  by (relation "measure (\<lambda>(_, i, _). nat i)") auto

declare sift_up.simps [simp del]

definition heap_insert :: "allocator \<Rightarrow> heap \<Rightarrow> int \<Rightarrow> fault + heap" where
  "heap_insert mem h x =
     and_then (if hp_count h \<ge> hp_capacity h then heap_resize mem h else Inr h) (\<lambda>h1.
     and_then (fit_int (hp_count h1 + 1)) (\<lambda>n.
       let h2 = h1\<lparr>hp_count := n\<rparr>
       in and_then (sift_up h2 (hp_count h2 - 1) x) (\<lambda>(i, h3). ar_set h3 i x)))"

definition deleteMax :: "heap \<Rightarrow> fault + int \<times> heap" where
  "deleteMax h =
     (if hp_count h \<le> 0 then Inr (-1, h)
      else and_then (ar_get h 0) (\<lambda>x.
           and_then (ar_get h (hp_count h - 1)) (\<lambda>y.
           and_then (ar_set h 0 y) (\<lambda>h1.
           and_then (ar_set h1 (hp_count h1 - 1) 0) (\<lambda>h2.
             let h3 = h2\<lparr>hp_count := hp_count h2 - 1\<rparr>
             in and_then (percolateDown h3 0) (\<lambda>h4. Inr (x, h4)))))))"

fun buildHeap :: "allocator \<Rightarrow> heap \<Rightarrow> int list \<Rightarrow> fault + heap" where
  "buildHeap mem h [] = Inr h"
| "buildHeap mem h (x # xs) = and_then (heap_insert mem h x) (\<lambda>h1. buildHeap mem h1 xs)"

section \<open>Heap order on the array\<close>

definition up :: "nat \<Rightarrow> nat" where
  "up k = (k - 1) div 2"

definition swap :: "int list \<Rightarrow> nat \<Rightarrow> nat \<Rightarrow> int list" where
  "swap a i j = a[i := a ! j, j := a ! i]"

definition order :: "int list \<Rightarrow> nat \<Rightarrow> bool" where
  "order a n \<longleftrightarrow> (\<forall>k. 0 < k \<and> k < n \<longrightarrow> a ! k \<le> a ! up k)"

text \<open>The order with a hole at \<open>i\<close>: broken towards the parent, or towards the children.\<close>

definition order_but_up :: "int list \<Rightarrow> nat \<Rightarrow> nat \<Rightarrow> bool" where
  "order_but_up a n i \<longleftrightarrow> (\<forall>k. 0 < k \<and> k < n \<and> k \<noteq> i \<longrightarrow> a ! k \<le> a ! up k) \<and>
     (\<forall>k. 0 < k \<and> k < n \<and> up k = i \<and> 0 < i \<longrightarrow> a ! k \<le> a ! up i)"

definition order_but_down :: "int list \<Rightarrow> nat \<Rightarrow> nat \<Rightarrow> bool" where
  "order_but_down a n i \<longleftrightarrow> (\<forall>k. 0 < k \<and> k < n \<and> up k \<noteq> i \<longrightarrow> a ! k \<le> a ! up k) \<and>
     (\<forall>k. 0 < k \<and> k < n \<and> up k = i \<and> 0 < i \<longrightarrow> a ! k \<le> a ! up i)"

lemma up_less: "0 < k \<Longrightarrow> up k < k"
  by (simp add: up_def)

lemma up_eq: "0 < k \<Longrightarrow> up k = i \<longleftrightarrow> k = 2 * i + 1 \<or> k = 2 * i + 2"
  unfolding up_def by presburger

lemma length_swap [simp]: "length (swap a i j) = length a"
  by (simp add: swap_def)

lemma nth_swap:
  "i < length a \<Longrightarrow> j < length a \<Longrightarrow> swap a i j ! k = (if k = j then a ! i else if k = i then a ! j else a ! k)"
  by (simp add: swap_def nth_list_update)

lemma mset_take_swap:
  assumes "i < n" "j < n" "n \<le> length a"
  shows "mset (take n (swap a i j)) = mset (take n a)"
proof -
  have "take n (swap a i j) = (take n a)[i := take n a ! j, j := take n a ! i]"
    using assms by (simp add: swap_def take_update_swap)
  then show ?thesis using mset_swap_cells [of i "take n a" j] assms by simp
qed

lemma order_max: "order a n \<Longrightarrow> k < n \<Longrightarrow> a ! k \<le> a ! 0"
proof (induction k rule: less_induct)
  case (less k)
  show ?case
  proof (cases "k = 0")
    case False
    then have "a ! k \<le> a ! up k" using less.prems by (simp add: order_def)
    also have "\<dots> \<le> a ! 0" using less.IH [of "up k"] less.prems False up_less [of k] by simp
    finally show ?thesis .
  qed simp
qed

lemma up_step:
  assumes "order_but_up b n i" "0 < i" "i < n" "n \<le> length b" "b ! up i < b ! i"
  shows "order_but_up (swap b i (up i)) n (up i)"
proof -
  let ?p = "up i" and ?b = "swap b i (up i)"
  have p: "?p < i" using up_less assms(2) .
  have nth: "?b ! k = (if k = ?p then b ! i else if k = i then b ! ?p else b ! k)" for k
    using nth_swap assms(3,4) p by simp
  have o1: "b ! k \<le> b ! up k" if "0 < k" "k < n" "k \<noteq> i" for k
    using assms(1) that by (simp add: order_but_up_def)
  have o2: "b ! k \<le> b ! ?p" if "0 < k" "k < n" "up k = i" for k
    using assms(1,2) that by (simp add: order_but_up_def)
  have "?b ! k \<le> ?b ! up k" if k: "0 < k" "k < n" "k \<noteq> ?p" for k
  proof (cases "k = i")
    case True
    then show ?thesis using assms(5) p by (simp add: nth)
  next
    case False
    consider "up k = ?p" | "up k = i" | "up k \<noteq> ?p" "up k \<noteq> i" by blast
    then show ?thesis
    proof cases
      case 1
      then have "b ! k \<le> b ! ?p" using o1 [OF k(1,2) False] by simp
      then show ?thesis using 1 False k(3) assms(5) by (simp add: nth)
    next
      case 2
      then show ?thesis using False k(3) p o2 [OF k(1,2)] by (simp add: nth)
    next
      case 3
      then show ?thesis using False k(3) o1 [OF k(1,2) False] by (simp add: nth)
    qed
  qed
  moreover have "?b ! k \<le> ?b ! up ?p" if k: "0 < k" "k < n" "up k = ?p" "0 < ?p" for k
  proof -
    have pp: "up ?p \<noteq> ?p" "up ?p \<noteq> i" using up_less [OF k(4)] p by auto
    have top: "b ! ?p \<le> b ! up ?p" using o1 [of ?p] k(4) p assms(3) by simp
    have kp: "k \<noteq> ?p" using up_less [OF k(1)] k(3) by auto
    show ?thesis
    proof (cases "k = i")
      case True
      then show ?thesis using top pp p by (simp add: nth)
    next
      case False
      then have "b ! k \<le> b ! ?p" using o1 [OF k(1,2)] k(3) by simp
      then show ?thesis using False kp pp top by (simp add: nth)
    qed
  qed
  ultimately show ?thesis by (simp add: order_but_up_def)
qed

lemma up_done: "order_but_up b n i \<Longrightarrow> i = 0 \<or> b ! i \<le> b ! up i \<Longrightarrow> order b n"
  unfolding order_but_up_def order_def by (metis less_irrefl)

lemma down_step:
  assumes "order_but_down a n i" "up m = i" "0 < m" "m < n" "n \<le> length a" "a ! i < a ! m"
    and sib: "\<And>k. 0 < k \<Longrightarrow> k < n \<Longrightarrow> up k = i \<Longrightarrow> a ! k \<le> a ! m"
  shows "order_but_down (swap a i m) n m"
proof -
  let ?b = "swap a i m"
  have im: "i < m" using up_less assms(2,3) by auto
  have nth: "?b ! k = (if k = m then a ! i else if k = i then a ! m else a ! k)" for k
    using nth_swap assms(4,5) im by simp
  have o1: "a ! k \<le> a ! up k" if "0 < k" "k < n" "up k \<noteq> i" for k
    using assms(1) that by (simp add: order_but_down_def)
  have o2: "a ! k \<le> a ! up i" if "0 < k" "k < n" "up k = i" "0 < i" for k
    using assms(1) that by (simp add: order_but_down_def)
  have "?b ! k \<le> ?b ! up k" if k: "0 < k" "k < n" "up k \<noteq> m" for k
  proof (cases "up k = i")
    case True
    then have "k \<noteq> i" using up_less [OF k(1)] by auto
    then show ?thesis using True k(3) sib [OF k(1,2) True] assms(6) im by (auto simp: nth)
  next
    case False
    then have "k \<noteq> m" using assms(2) by auto
    show ?thesis
    proof (cases "k = i")
      case True
      have "a ! m \<le> a ! up i" using o2 [of m] assms(2-4) True k(1) by simp
      then show ?thesis using True False k(3) im by (simp add: nth)
    next
      case ki: False
      then show ?thesis using \<open>k \<noteq> m\<close> False k(3) o1 [OF k(1,2) False] by (simp add: nth)
    qed
  qed
  moreover have "?b ! k \<le> ?b ! up m" if k: "0 < k" "k < n" "up k = m" for k
  proof -
    have "k \<noteq> m" "k \<noteq> i" using up_less [OF k(1)] k(3) im by auto
    then show ?thesis using o1 [of k] k assms(2) im by (simp add: nth)
  qed
  ultimately show ?thesis by (simp add: order_but_down_def)
qed

lemma down_done:
  assumes "order_but_down a n i" "\<And>k. 0 < k \<Longrightarrow> k < n \<Longrightarrow> up k = i \<Longrightarrow> a ! k \<le> a ! i"
  shows "order a n"
  using assms unfolding order_but_down_def order_def by metis

section \<open>Heaps and their arrays\<close>

definition hrep :: "heap \<Rightarrow> int list \<Rightarrow> nat \<Rightarrow> bool" where
  "hrep h a n \<longleftrightarrow> hp_ar h = Some a \<and> hp_count h = int n \<and> hp_capacity h = int (length a) \<and> n \<le> length a"

lemma ar_get_rep [simp]: "hrep h a n \<Longrightarrow> i < length a \<Longrightarrow> ar_get h (int i) = Inr (a ! i)"
  by (simp add: hrep_def ar_get_def)

lemma ar_set_rep:
  "hrep h a n \<Longrightarrow> i < length a \<Longrightarrow> \<exists>h1. ar_set h (int i) x = Inr h1 \<and> hrep h1 (a[i := x]) n"
  by (simp add: hrep_def ar_set_def)

lemma int_half: "0 < i \<Longrightarrow> (int i - 1) div 2 = int (up i)"
  by (simp add: up_def zdiv_int of_nat_diff Suc_le_eq)

lemma c_half: "0 < i \<Longrightarrow> c_div (int i - 1) 2 = int (up i)"
  by (simp add: int_half)

lemma sift_up_result:
  assumes "hrep h a n" "i < n" "order_but_up (a[i := x]) n i"
  shows "\<exists>j h1 a1. sift_up h (int i) x = Inr (int j, h1) \<and> hrep h1 a1 n \<and> j < n \<and> length a1 = length a \<and>
           order (a1[j := x]) n \<and> mset (take n (a1[j := x])) = mset (take n (a[i := x]))"
  using assms
proof (induction i arbitrary: h a rule: less_induct)
  case (less i)
  have len: "n \<le> length a" "i < length a" using less.prems by (auto simp: hrep_def)
  show ?case
  proof (cases "0 < i \<and> x > a ! up i")
    case False
    then have "sift_up h (int i) x = Inr (int i, h)"
      using less.prems len up_less [of i] by (subst sift_up.simps) (auto simp: int_half)
    moreover have "order (a[i := x]) n"
      using up_done [OF less.prems(3)] False len up_less [of i] by (cases "i = 0") auto
    ultimately show ?thesis using less.prems by blast
  next
    case True
    let ?p = "up i"
    have p: "?p < i" using True up_less by simp
    obtain h1 where h1: "ar_set h (int i) (a ! ?p) = Inr h1" "hrep h1 (a[i := a ! ?p]) n"
      using ar_set_rep [OF less.prems(1) len(2)] by blast
    have step: "sift_up h (int i) x = sift_up h1 (int ?p) x"
      using True h1(1) less.prems(1) len p by (subst sift_up.simps) (simp add: int_half)
    have sw: "(a[i := a ! ?p])[?p := x] = swap (a[i := x]) i ?p"
      using p len by (simp add: swap_def)
    have "order_but_up ((a[i := a ! ?p])[?p := x]) n ?p"
      unfolding sw using up_step [OF less.prems(3)] True less.prems(2) len p by simp
    then obtain j h2 a1 where IH: "sift_up h1 (int ?p) x = Inr (int j, h2)" "hrep h2 a1 n" "j < n"
      "length a1 = length a" "order (a1[j := x]) n"
      "mset (take n (a1[j := x])) = mset (take n ((a[i := a ! ?p])[?p := x]))"
      using less.IH [OF p h1(2)] p less.prems(2) by auto
    have "mset (take n ((a[i := a ! ?p])[?p := x])) = mset (take n (a[i := x]))"
      unfolding sw using p less.prems(2) len by (intro mset_take_swap) auto
    with IH step show ?thesis by auto
  qed
qed

lemma largest_child_result:
  assumes "hrep h a n" "i < n" "n < 2 ^ 30"
  shows "\<exists>m. largest_child h (int i) = Inr (int m) \<and> m < n \<and> (m = i \<or> 0 < m \<and> up m = i \<and> a ! i < a ! m) \<and>
           a ! i \<le> a ! m \<and> (\<forall>k. 0 < k \<and> k < n \<and> up k = i \<longrightarrow> a ! k \<le> a ! m)"
proof -
  have n: "n \<le> length a" "hp_count h = int n" using assms(1) by (auto simp: hrep_def)
  have kid: "k = 2 * i + 1 \<or> k = 2 * i + 2" if "0 < k \<and> k < n \<and> up k = i" for k
    using up_eq [of k i] that by blast
  have ups: "up (2 * i + 1) = i" "up (2 * i + 2) = i" by (simp_all add: up_def)
  have l: "leftChild h (int i) = Inr (if 2 * i + 1 < n then int (2 * i + 1) else -1)"
    and r: "rightChild h (int i) = Inr (if 2 * i + 2 < n then int (2 * i + 2) else -1)"
    using n(2) assms(2,3) by (auto simp: leftChild_def rightChild_def)
  have get: "ar_get h (int k) = Inr (a ! k)" if "k < n" for k using assms(1) n(1) that by simp
  consider (none) "n \<le> 2 * i + 1" | (left) "n = 2 * i + 2" | (both) "2 * i + 2 < n" by linarith
  then show ?thesis
  proof cases
    case none
    then have "largest_child h (int i) = Inr (int i)" using l r get [OF assms(2)] by (simp add: largest_child_def)
    moreover have "\<not> (0 < k \<and> k < n \<and> up k = i)" for k using kid [of k] none by linarith
    ultimately show ?thesis using assms(2) by blast
  next
    case left
    define m where "m = (if a ! (2 * i + 1) > a ! i then 2 * i + 1 else i)"
    have "largest_child h (int i) = Inr (int m)"
      using left l r get [OF assms(2)] get [of "2 * i + 1"] by (simp add: largest_child_def Let_def m_def)
    moreover have "a ! k \<le> a ! m" if k: "0 < k \<and> k < n \<and> up k = i" for k
    proof -
      have "k = 2 * i + 1" using kid [OF k] k left by linarith
      then show ?thesis by (simp add: m_def)
    qed
    moreover have "m = i \<or> 0 < m \<and> up m = i \<and> a ! i < a ! m" "a ! i \<le> a ! m" "m < n"
      using ups left by (simp_all add: m_def)
    ultimately show ?thesis by blast
  next
    case both
    define m1 where "m1 = (if a ! (2 * i + 1) > a ! i then 2 * i + 1 else i)"
    define m where "m = (if a ! (2 * i + 2) > a ! m1 then 2 * i + 2 else m1)"
    have "largest_child h (int i) = Inr (int m)"
      using both l r get [OF assms(2)] get [of "2 * i + 1"] get [of "2 * i + 2"]
      by (simp add: largest_child_def Let_def m_def m1_def)
    moreover have "a ! k \<le> a ! m" if k: "0 < k \<and> k < n \<and> up k = i" for k
      using kid [OF k] by (elim disjE) (simp_all add: m_def m1_def)
    moreover have "m = i \<or> 0 < m \<and> up m = i \<and> a ! i < a ! m" "a ! i \<le> a ! m" "m < n"
      using ups both by (simp_all add: m_def m1_def)
    ultimately show ?thesis by blast
  qed
qed

lemma percolateDown_result:
  assumes "hrep h a n" "order_but_down a n i" "n < 2 ^ 30"
  shows "\<exists>h1 a1. percolateDown h (int i) = Inr h1 \<and> hrep h1 a1 n \<and> length a1 = length a \<and> order a1 n \<and>
           mset (take n a1) = mset (take n a)"
  using assms
proof (induction "n - i" arbitrary: h a i rule: less_induct)
  case less
  have n: "n \<le> length a" "hp_count h = int n" using less.prems(1) by (auto simp: hrep_def)
  show ?case
  proof (cases "i < n")
    case False
    then have "order a n" using less.prems(2) up_less
      by (intro down_done [OF less.prems(2)]) (metis less_trans not_less_iff_gr_or_eq)
    with False n less.prems(1) show ?thesis by (subst percolateDown.simps) auto
  next
    case True
    obtain m where m: "largest_child h (int i) = Inr (int m)" "m < n" "m = i \<or> 0 < m \<and> up m = i \<and> a ! i < a ! m"
      "a ! i \<le> a ! m" "\<forall>k. 0 < k \<and> k < n \<and> up k = i \<longrightarrow> a ! k \<le> a ! m"
      using largest_child_result [OF less.prems(1) True less.prems(3)] by blast
    show ?thesis
    proof (cases "m = i")
      case eq: True
      then have "percolateDown h (int i) = Inr h" using m(1) n True by (subst percolateDown.simps) simp
      moreover have "order a n" using down_done [OF less.prems(2)] m(5) eq by blast
      ultimately show ?thesis using less.prems(1) by blast
    next
      case False
      then have mm: "0 < m" "up m = i" "a ! i < a ! m" using m(3) by auto
      have im: "i < m" using up_less [OF mm(1)] mm(2) by simp
      obtain h1 where h1: "ar_set h (int m) (a ! i) = Inr h1" "hrep h1 (a[m := a ! i]) n"
        using ar_set_rep [OF less.prems(1), of m "a ! i"] m(2) n by auto
      obtain h2 where h2: "ar_set h1 (int i) (a ! m) = Inr h2" "hrep h2 (a[m := a ! i, i := a ! m]) n"
        using ar_set_rep [OF h1(2), of i "a ! m"] True n by auto
      have sw: "a[m := a ! i, i := a ! m] = swap a i m" using im by (simp add: swap_def list_update_swap)
      have step: "percolateDown h (int i) = percolateDown h2 (int m)"
        using m(1,2) n True False h1(1) h2(1) less.prems(1) by (subst percolateDown.simps) simp
      have "order_but_down (swap a i m) n m"
        using down_step [OF less.prems(2) mm(2,1) m(2) n(1) mm(3)] m(5) by blast
      then obtain h3 a1 where "percolateDown h2 (int m) = Inr h3" "hrep h3 a1 n" "length a1 = length a" "order a1 n"
        "mset (take n a1) = mset (take n (swap a i m))"
        using less.hyps [of m h2 "swap a i m"] h2(2) sw im True less.prems(3) diff_less_mono2 [OF im True] by auto
      with step show ?thesis using mset_take_swap [of i n m a] True m(2) n(1) by auto
    qed
  qed
qed

section \<open>The interface of a priority queue\<close>

text \<open>
  A heap as the operations build it: capacity and count are those of the block, the cells are in
  order, the capacity is a positive int, and there are at most \<open>2 ^ 30\<close> elements, beyond which
  the index of a right child leaves the range of int.
\<close>

definition heap_ok :: "heap \<Rightarrow> bool" where
  "heap_ok h \<longleftrightarrow> (\<exists>a n. hrep h a n \<and> order a n \<and> a \<noteq> [] \<and> n \<le> 2 ^ 30 \<and> length a < 2 ^ 31)"

definition contents :: "heap \<Rightarrow> int multiset" where
  "contents h = (case hp_ar h of None \<Rightarrow> {#} | Some a \<Rightarrow> mset (take (nat (hp_count h)) a))"

lemma heap_okI: "hrep h a n \<Longrightarrow> order a n \<Longrightarrow> a \<noteq> [] \<Longrightarrow> n \<le> 2 ^ 30 \<Longrightarrow> length a < 2 ^ 31 \<Longrightarrow> heap_ok h"
  unfolding heap_ok_def by blast

lemma contents_rep: "hrep h a n \<Longrightarrow> contents h = mset (take n a)"
  by (simp add: hrep_def contents_def)

text \<open>Removing \<open>n\<close> times, with the values returned.\<close>

fun delete_n :: "('q \<Rightarrow> fault + 'a \<times> 'q) \<Rightarrow> nat \<Rightarrow> 'q \<Rightarrow> fault + 'a list \<times> 'q" where
  "delete_n del 0 q = Inr ([], q)"
| "delete_n del (Suc n) q = and_then (del q) (\<lambda>(x, q1). and_then (delete_n del n q1) (\<lambda>(xs, q2). Inr (x # xs, q2)))"

fun insert_all :: "('q \<Rightarrow> 'a \<Rightarrow> fault + 'q) \<Rightarrow> 'q \<Rightarrow> 'a list \<Rightarrow> fault + 'q" where
  "insert_all ins q [] = Inr q"
| "insert_all ins q (x # xs) = and_then (ins q x) (\<lambda>q1. insert_all ins q1 xs)"

locale max_queue =
  fixes ins :: "'q \<Rightarrow> int \<Rightarrow> fault + 'q"
    and del :: "'q \<Rightarrow> fault + int \<times> 'q"
    and valid :: "'q \<Rightarrow> bool"
    and elems :: "'q \<Rightarrow> int multiset"
    and limit :: nat
  assumes ins_ok: "valid q \<Longrightarrow> size (elems q) < limit \<Longrightarrow> \<exists>q1. ins q x = Inr q1 \<and> valid q1 \<and> elems q1 = add_mset x (elems q)"
    and del_ok: "valid q \<Longrightarrow> elems q \<noteq> {#} \<Longrightarrow>
      \<exists>x q1. del q = Inr (x, q1) \<and> valid q1 \<and> elems q = add_mset x (elems q1) \<and> (\<forall>y \<in># elems q. y \<le> x)"
begin

lemma insert_all_ok:
  "valid q \<Longrightarrow> size (elems q) + length xs \<le> limit \<Longrightarrow>
   \<exists>q1. insert_all ins q xs = Inr q1 \<and> valid q1 \<and> elems q1 = elems q + mset xs"
proof (induction xs arbitrary: q)
  case (Cons x xs)
  obtain q1 where q1: "ins q x = Inr q1" "valid q1" "elems q1 = add_mset x (elems q)"
    using ins_ok [OF Cons.prems(1)] Cons.prems(2) by fastforce
  have "size (elems q1) + length xs \<le> limit" using q1(3) Cons.prems(2) by simp
  from Cons.IH [OF q1(2) this] q1 show ?case by auto
qed simp

text \<open>The largest element split off a multiset is the last of the sorted list.\<close>

lemma sorted_split_max:
  assumes "\<forall>y \<in># M. y \<le> (x :: int)"
  shows "sorted_list_of_multiset (add_mset x M) = sorted_list_of_multiset M @ [x]"
proof -
  have "add_mset x M = mset (sorted_list_of_multiset M @ [x])" by simp
  then have "sorted_list_of_multiset (add_mset x M) = sort (sorted_list_of_multiset M @ [x])"
    using sorted_list_of_multiset_mset by metis
  moreover have "sorted (sorted_list_of_multiset M @ [x])"
    using assms by (simp add: sorted_append)
  ultimately show ?thesis by (simp add: sorted_sort_id)
qed

lemma delete_all_ok:
  "valid q \<Longrightarrow> n = size (elems q) \<Longrightarrow>
   \<exists>q1. delete_n del n q = Inr (rev (sorted_list_of_multiset (elems q)), q1) \<and> valid q1 \<and> elems q1 = {#}"
proof (induction n arbitrary: q)
  case 0
  then show ?case by simp
next
  case (Suc n)
  then have ne: "elems q \<noteq> {#}" by auto
  obtain x q1 where q1: "del q = Inr (x, q1)" "valid q1" "elems q = add_mset x (elems q1)" "\<forall>y \<in># elems q. y \<le> x"
    using del_ok [OF Suc.prems(1) ne] by blast
  have "n = size (elems q1)" using Suc.prems(2) q1(3) by simp
  from Suc.IH [OF q1(2) this] obtain q2 where
    "delete_n del n q1 = Inr (rev (sorted_list_of_multiset (elems q1)), q2)" "valid q2" "elems q2 = {#}" by blast
  moreover have "sorted_list_of_multiset (elems q) = sorted_list_of_multiset (elems q1) @ [x]"
    using sorted_split_max [of "elems q1" x] q1(3,4) by simp
  ultimately show ?case using q1(1) by simp
qed

end

section \<open>The heap provides it\<close>

lemma order_agree:
  assumes "order a n" "\<And>k. k < n \<Longrightarrow> b ! k = a ! k"
  shows "order b n"
  unfolding order_def
proof (intro allI impI)
  fix k assume k: "0 < k \<and> k < n"
  then have "up k < n" using up_less [of k] by simp
  with k assms show "b ! k \<le> b ! up k" by (simp add: order_def)
qed

lemma order_new_leaf:
  assumes "order a n" "n < length a"
  shows "order_but_up (a[n := x]) (Suc n) n"
proof -
  have "a[n := x] ! k \<le> a[n := x] ! up k" if k: "0 < k" "k < Suc n" "k \<noteq> n" for k
  proof -
    have "up k < k" "k < n" using up_less k by auto
    then show ?thesis using assms(1) k(1) by (simp add: order_def)
  qed
  moreover have "\<not> (0 < k \<and> k < Suc n \<and> up k = n)" for k
    using up_less [of k] by linarith
  ultimately show ?thesis by (auto simp: order_but_up_def)
qed

lemma resize_result:
  assumes "hrep h a n" "order a n" "a \<noteq> []" "mem_ok mem" "n < 2 ^ 30" "length a < 2 ^ 31"
  shows "\<exists>h1 a1. (if hp_count h \<ge> hp_capacity h then heap_resize mem h else Inr h) = Inr h1 \<and>
           hrep h1 a1 n \<and> order a1 n \<and> n < length a1 \<and> length a1 < 2 ^ 31 \<and> take n a1 = take n a"
proof (cases "n < length a")
  case True
  with assms show ?thesis by (intro exI [of _ h] exI [of _ a]) (simp add: hrep_def)
next
  case False
  then have n: "n = length a" "hp_ar h = Some a" "hp_count h = int n" "hp_capacity h = int n"
    using assms(1) by (auto simp: hrep_def)
  let ?f = "mem (int n * 2)" and ?a = "take n a @ drop n (mem (int n * 2))"
  have len: "length ?f = 2 * n" using assms(4) by (simp add: mem_ok_def nat_mult_distrib)
  have "heap_resize mem h = Inr (h\<lparr>hp_capacity := int n * 2, hp_ar := Some ?a\<rparr>)"
    using n len assms(5) by (simp add: heap_resize_def Let_def)
  moreover have "hrep (h\<lparr>hp_capacity := int n * 2, hp_ar := Some ?a\<rparr>) ?a n"
    using n len by (simp add: hrep_def)
  moreover have "order ?a n"
    using assms(2) n(1) by (intro order_agree [OF assms(2)]) (simp add: nth_append)
  ultimately show ?thesis using n len assms(3,5) by (intro exI conjI) auto
qed

lemma heap_count: "heap_ok h \<Longrightarrow> hp_count h = int (size (contents h))"
  by (auto simp: heap_ok_def contents_rep) (simp add: hrep_def)

lemma heap_insert_result:
  assumes "heap_ok h" "mem_ok mem" "size (contents h) < 2 ^ 30"
  shows "\<exists>h1. heap_insert mem h x = Inr h1 \<and> heap_ok h1 \<and> contents h1 = add_mset x (contents h)"
proof -
  obtain a n where h: "hrep h a n" "order a n" "a \<noteq> []" "n < 2 ^ 30" "length a < 2 ^ 31"
    using assms(1,3) by (auto simp: heap_ok_def contents_rep) (auto simp: hrep_def)
  obtain h1 a1 where h1: "(if hp_count h \<ge> hp_capacity h then heap_resize mem h else Inr h) = Inr h1"
    "hrep h1 a1 n" "order a1 n" "n < length a1" "length a1 < 2 ^ 31" "take n a1 = take n a"
    using resize_result [OF h(1-3) assms(2) h(4,5)] by blast
  let ?h2 = "h1\<lparr>hp_count := hp_count h1 + 1\<rparr>"
  have h2: "hrep ?h2 a1 (Suc n)" "hp_count ?h2 - 1 = int n" using h1(2,4) by (auto simp: hrep_def)
  have "order_but_up (a1[n := x]) (Suc n) n"
    by (rule order_new_leaf [OF h1(3,4)])
  then obtain j h3 a3 where s: "sift_up ?h2 (int n) x = Inr (int j, h3)" "hrep h3 a3 (Suc n)" "j < Suc n"
    "length a3 = length a1" "order (a3[j := x]) (Suc n)"
    "mset (take (Suc n) (a3[j := x])) = mset (take (Suc n) (a1[n := x]))"
    using sift_up_result [OF h2(1), of n x] by auto
  obtain h4 where h4: "ar_set h3 (int j) x = Inr h4" "hrep h4 (a3[j := x]) (Suc n)"
    using ar_set_rep [OF s(2), of j x] s(3,4) h1(4) by auto
  have fit: "fit_int (hp_count h1 + 1) = Inr (hp_count h1 + 1)" using h1(2) h(4) by (simp add: hrep_def)
  have "heap_insert mem h x = Inr h4"
    using h1(1) s(1) h2(2) h4(1) fit by (simp add: heap_insert_def Let_def)
  moreover have "heap_ok h4" by (rule heap_okI [OF h4(2) s(5)]) (use s(4) h1(4,5) h(4) in auto)
  moreover have "mset (take (Suc n) (a1[n := x])) = add_mset x (mset (take n a))"
    using h1(4,6) by (simp add: take_Suc_conv_app_nth)
  ultimately show ?thesis
    using contents_rep [OF h4(2)] contents_rep [OF h(1)] s(6) by auto
qed

lemma deleteMax_result:
  assumes "heap_ok h" "contents h \<noteq> {#}"
  shows "\<exists>x h1. deleteMax h = Inr (x, h1) \<and> heap_ok h1 \<and> contents h = add_mset x (contents h1) \<and>
           (\<forall>y \<in># contents h. y \<le> x)"
proof -
  obtain a n where h: "hrep h a n" "order a n" "a \<noteq> []" "n \<le> 2 ^ 30" "length a < 2 ^ 31"
    using assms(1) by (auto simp: heap_ok_def)
  have "n \<noteq> 0" using assms(2) contents_rep [OF h(1)] by auto
  then obtain m where m: "n = Suc m" by (cases n) auto
  have len: "n \<le> length a" "hp_count h = int n" using h(1) by (auto simp: hrep_def)
  let ?a1 = "a[0 := a ! m]" and ?a2 = "(a[0 := a ! m])[m := 0]"
  obtain h1 where h1: "ar_set h 0 (a ! m) = Inr h1" "hrep h1 ?a1 n"
    using ar_set_rep [OF h(1), of 0 "a ! m"] h(3) by auto
  obtain h2 where h2: "ar_set h1 (int m) 0 = Inr h2" "hrep h2 ?a2 n"
    using ar_set_rep [OF h1(2), of m 0] m len by auto
  let ?h3 = "h2\<lparr>hp_count := hp_count h2 - 1\<rparr>"
  have h3: "hrep ?h3 ?a2 m" using h2(2) m by (auto simp: hrep_def)
  have same: "?a2 ! k = a ! k" if "0 < k" "k < m" for k using that m by simp
  have "?a2 ! k \<le> ?a2 ! up k" if "0 < k" "k < m" "up k \<noteq> 0" for k
  proof -
    have "up k < k" using up_less that(1) .
    then show ?thesis using same [of k] same [of "up k"] that h(2) m by (simp add: order_def)
  qed
  then have "order_but_down ?a2 m 0" by (simp add: order_but_down_def)
  then obtain h4 a4 where h4: "percolateDown ?h3 0 = Inr h4" "hrep h4 a4 m" "length a4 = length a" "order a4 m"
    "mset (take m a4) = mset (take m ?a2)"
    using percolateDown_result [OF h3, of 0] m h(4) by auto
  have counts: "hp_count h1 - 1 = int m" "hp_count h - 1 = int m"
    using h1(2) len m by (auto simp: hrep_def)
  have "deleteMax h = Inr (a ! 0, h4)"
    using len(2) m h1(1) h2(1) h4(1) counts ar_get_rep [OF h(1), of 0] ar_get_rep [OF h(1), of m] len(1) h(3)
    by (simp add: deleteMax_def Let_def)
  moreover have "mset (take n a) = add_mset (a ! 0) (mset (take m ?a2))"
  proof -
    have "mset (take n a) = mset (take n (swap a 0 m))"
      using mset_take_swap [of 0 n m a] m len by simp
    also have "take n (swap a 0 m) = take m ?a2 @ [a ! 0]"
      using m len by (auto simp: swap_def take_Suc_conv_app_nth)
    finally show ?thesis by simp
  qed
  moreover have "y \<le> a ! 0" if "y \<in># contents h" for y
  proof -
    have "y \<in> set (take n a)" using that contents_rep [OF h(1)] by simp
    then obtain k where "k < length (take n a)" "take n a ! k = y" by (metis in_set_conv_nth)
    then have "k < n" "y = a ! k" by auto
    then show ?thesis using order_max [OF h(2)] by simp
  qed
  moreover have "heap_ok h4" by (rule heap_okI [OF h4(2,4)]) (use h4(3) h(3-5) m in auto)
  ultimately show ?thesis using contents_rep [OF h(1)] contents_rep [OF h4(2)] h4(5) by auto
qed

text \<open>A fixed allocator, for the interpretation.\<close>

lemma max_queue_heap: "mem_ok mem \<Longrightarrow> max_queue (heap_insert mem) deleteMax heap_ok contents (2 ^ 30)"
  by unfold_locales (rule heap_insert_result deleteMax_result; assumption)+

definition zeroed :: allocator where
  "zeroed n = replicate (nat n) 0"

lemma zeroed_ok: "mem_ok zeroed"
  by (simp add: mem_ok_def zeroed_def)

interpretation hq: max_queue "heap_insert zeroed" deleteMax heap_ok contents "2 ^ 30"
  by (rule max_queue_heap [OF zeroed_ok])

lemma buildHeap_insert_all: "buildHeap mem h xs = insert_all (heap_insert mem) h xs"
  by (induction xs arbitrary: h) auto

lemma new_heap_ok:
  assumes "mem_ok mem" "0 < cap" "cap < 2 ^ 31"
  shows "\<exists>h. new_heap mem cap ty = Inr h \<and> heap_ok h \<and> contents h = {#}"
proof -
  have len: "length (mem cap) = nat cap" using assms(1) by (simp add: mem_ok_def)
  then have "mem cap \<noteq> []" using assms(2) by auto
  then show ?thesis using assms(2,3) len
    by (auto simp: new_heap_def heap_ok_def hrep_def order_def contents_def)
qed

section \<open>Output and the command interpreter\<close>

lemma percolateDown_count: "percolateDown h i = Inr h1 \<Longrightarrow> hp_count h1 = hp_count h"
proof (induction h i rule: percolateDown.induct)
  case (1 h i)
  show ?case
  proof (cases "i < 0 \<or> i \<ge> hp_count h")
    case True
    with "1.prems" show ?thesis by (subst (asm) percolateDown.simps) simp
  next
    case False
    with "1.prems" obtain m where m: "largest_child h i = Inr m"
      and r: "(if m \<noteq> i then and_then (ar_get h m) (\<lambda>temp. and_then (ar_get h i) (\<lambda>x.
                 and_then (ar_set h m x) (\<lambda>h1. and_then (ar_set h1 i temp) (\<lambda>h2. percolateDown h2 m)))) else Inr h) = Inr h1"
      by (subst (asm) percolateDown.simps) (auto simp: and_then_Inr_iff)
    show ?thesis
    proof (cases "m = i")
      case True
      with r show ?thesis by simp
    next
      case ne: False
      with r obtain temp x h2 h3 where g: "ar_get h m = Inr temp" "ar_get h i = Inr x" "ar_set h m x = Inr h2"
        "ar_set h2 i temp = Inr h3" "percolateDown h3 m = Inr h1"
        by (auto simp: and_then_Inr_iff)
      from "1.IH" [OF False m ne g(1-4) g(5)] show ?thesis using g(3,4) ar_set_count by metis
    qed
  qed
qed

lemma deleteMax_count: "deleteMax h = Inr (x, h1) \<Longrightarrow> 0 < hp_count h \<Longrightarrow> hp_count h1 = hp_count h - 1"
  by (auto simp: deleteMax_def Let_def and_then_Inr_iff dest!: ar_set_count percolateDown_count)

text \<open>The loop of \<open>operator<<\<close> over its copy: it stops at the first -1, stored or not.\<close>

function show_loop :: "heap \<Rightarrow> fault + string" where
  "show_loop cp =
     and_then (deleteMax cp) (\<lambda>(x, cp1).
       if x = -1 then Inr []
       else and_then (show_loop cp1) (\<lambda>out. Inr (dec_int x @ '' '' @ out)))"
  by pat_completeness auto
termination
proof (relation "measure (\<lambda>h. nat (hp_count h))", goal_cases)
  case (2 cp r x cp1)
  have "0 < hp_count cp" using 2 by (auto simp: deleteMax_def split: if_splits)
  with 2 deleteMax_count [of cp x cp1] show ?case by auto
qed simp

declare show_loop.simps [simp del]

definition heap_out :: "allocator \<Rightarrow> heap \<Rightarrow> fault + string" where
  "heap_out mem h =
     and_then (copy_heap mem h) (\<lambda>cp.
     and_then (show_loop cp) (\<lambda>out.
       Inr (''size = '' @ dec_int (hp_count cp) @ '', data=['' @ out @ '']'' @ [CHR 0x0A])))"

fun raw_loop :: "heap \<Rightarrow> int \<Rightarrow> nat \<Rightarrow> fault + string" where
  "raw_loop h i 0 = Inr []"
| "raw_loop h i (Suc n) =
     and_then (ar_get h i) (\<lambda>x. and_then (raw_loop h (i + 1) n) (\<lambda>out. Inr (dec_int x @ '' '' @ out)))"

text \<open>
  One command line. \<open>data\<close> is the local variable of main that "delete" reads into, unassigned at
  first; the results are whether main goes on, the output, \<open>data\<close> and the heap.
\<close>

definition delete_times :: "int \<Rightarrow> heap \<Rightarrow> fault + heap" where
  "delete_times n h = and_then (delete_n deleteMax (nat n) h) (\<lambda>(_, h1). Inr h1)"

definition delete_command :: "string \<Rightarrow> int option \<Rightarrow> int option" where
  "delete_command line data =
     (case extract_int (drop 6 line) of
        AtEnd \<Rightarrow> data | NotNumber \<Rightarrow> Some 0 | OutOfRange v \<Rightarrow> Some v | Number v _ \<Rightarrow> Some v)"

definition heap_line :: "allocator \<Rightarrow> string \<Rightarrow> int option \<Rightarrow> heap \<Rightarrow>
    fault + bool \<times> string \<times> int option \<times> heap" where
  "heap_line mem raw_line data h =
     (let line = map to_lower raw_line
      in if rfind line ''exit'' = Some 0 then Inr (False, [], data, h)
         else and_then (if line = ''print'' then and_then (heap_out mem h) (\<lambda>s. Inr (s @ [CHR 0x0A])) else Inr []) (\<lambda>out1.
              and_then (if line = ''printraw''
                        then and_then (raw_loop h 0 (nat (hp_count h))) (\<lambda>s.
                               Inr (out1 @ ''size='' @ dec_int (hp_count h) @ '', data=['' @ s @ '']'' @ [CHR 0x0A]))
                        else Inr out1) (\<lambda>out2.
              let is_delete = (rfind line ''delete'' = Some 0);
                  data1 = (if is_delete then delete_command line data else data)
              in if is_delete \<and> data1 = None then Inl Uninitialised
                 else if is_delete \<and> the data1 \<le> 0 then Inr (True, out2, data1, h)
                 else and_then (if is_delete then delete_times (the data1) h else Inr h) (\<lambda>h1.
                      and_then (if line = ''deleteall'' then delete_times (hp_count h1) h1 else Inr h1) (\<lambda>h2.
                      and_then (if rfind line ''input'' = Some 0
                                then buildHeap mem h2 (extract_ints (drop 5 line)) else Inr h2) (\<lambda>h3.
                        Inr (True, out2, data1, h3)))))))"

fun heap_lines :: "allocator \<Rightarrow> string list \<Rightarrow> int option \<Rightarrow> heap \<Rightarrow> fault + string \<times> heap" where
  "heap_lines mem [] data h = Inr ([], h)"
| "heap_lines mem (line # lines) data h =
     and_then (heap_line mem line data h) (\<lambda>(go, out, data1, h1).
       if go then and_then (heap_lines mem lines data1 h1) (\<lambda>(out2, h2). Inr (out @ out2, h2))
       else Inr (out, h1))"

text \<open>\<open>siz\<close> is the number that main reads first.\<close>

definition heap_main :: "allocator \<Rightarrow> int \<Rightarrow> string list \<Rightarrow> fault + string" where
  "heap_main mem siz lines =
     and_then (new_heap mem siz MaxHeap) (\<lambda>h.
     and_then (heap_lines mem lines None h) (\<lambda>(out, _). Inr (''Enter Count of Heap : '' @ out)))"

section \<open>Properties\<close>

lemma copy_heap_result:
  assumes "heap_ok h" "mem_ok mem"
  shows "copy_heap mem h = Inr h"
proof -
  obtain a n where h: "hrep h a n" "a \<noteq> []" using assms(1) by (auto simp: heap_ok_def)
  have "length (mem (int (length a))) = length a" using assms(2) by (simp add: mem_ok_def)
  then show ?thesis using h by (simp add: copy_heap_def copyAr_def hrep_def)
qed

text \<open>
  C13. Inserting into a heap of positive capacity with less than \<open>2 ^ 30\<close> elements, full or not,
  whatever the new block contains, keeps the heap order and adds exactly the new element. A full
  heap of capacity \<open>2 ^ 30\<close> or more cannot grow: doubling its capacity overflows int.
\<close>

theorem heap_insert_correct:
  assumes "heap_ok h" and "mem_ok mem"
  shows "(hp_count h < 2 ^ 30 \<longrightarrow>
            (\<exists>h1. heap_insert mem h x = Inr h1 \<and> heap_ok h1 \<and> contents h1 = add_mset x (contents h))) \<and>
         (hp_count h = hp_capacity h \<and> 2 ^ 30 \<le> hp_capacity h \<longrightarrow>
            heap_insert mem h x = Inl SignedOverflow)"
  using heap_insert_result [OF assms, of x] heap_count [OF assms(1)]
  by (simp add: heap_insert_def heap_resize_def fit_int_big)

definition one_heap :: heap where
  "one_heap = \<lparr>hp_capacity = 1, hp_count = 1, hp_ar = Some [4], hp_type = MaxHeap\<rparr>"

lemma one_heap_ok: "heap_ok one_heap" "contents one_heap = {#4#}"
  by (auto simp: one_heap_def contents_def order_def hrep_def intro!: heap_okI [of _ "[4]" 1])

theorem heap_insert_correct_witness:
  "\<exists>h1. heap_insert zeroed one_heap 9 = Inr h1 \<and> contents h1 = {#9, 4#}"
  using heap_insert_correct [OF one_heap_ok(1) zeroed_ok, of 9] one_heap_ok(2) by (auto simp: one_heap_def)

text \<open>
  C14. deleteMax of a non-empty heap returns its greatest element, removes exactly one copy of it
  and keeps the heap order.
\<close>

theorem deleteMax_correct:
  assumes "heap_ok h" and "contents h \<noteq> {#}"
  shows "\<exists>x h1. deleteMax h = Inr (x, h1) \<and> heap_ok h1 \<and> contents h = add_mset x (contents h1) \<and>
           (\<forall>y \<in># contents h. y \<le> x)"
  by (rule deleteMax_result [OF assms])

theorem deleteMax_correct_witness:
  "\<exists>h1. deleteMax one_heap = Inr (4, h1) \<and> contents h1 = {#}"
  using deleteMax_correct [OF one_heap_ok(1)] one_heap_ok(2) by auto

text \<open>Building a heap of any positive initial capacity from a list of at most \<open>2 ^ 30\<close> values and deleting the maximum once
  per element yields the list in descending order: the heap is a priority queue.
\<close>

theorem heap_sorts:
  assumes "mem_ok mem" and "0 < cap" and "cap < 2 ^ 31" and "length xs \<le> 2 ^ 30"
  shows "\<exists>h h1 h2. new_heap mem cap ty = Inr h \<and> buildHeap mem h xs = Inr h1 \<and>
           delete_n deleteMax (length xs) h1 = Inr (rev (sort xs), h2) \<and> contents h2 = {#}"
proof -
  obtain h where h: "new_heap mem cap ty = Inr h" "heap_ok h" "contents h = {#}"
    using new_heap_ok [OF assms(1-3)] by blast
  note q = max_queue_heap [OF assms(1)]
  obtain h1 where h1: "buildHeap mem h xs = Inr h1" "heap_ok h1" "contents h1 = mset xs"
    using max_queue.insert_all_ok [OF q h(2), of xs] h(3) assms(4) by (auto simp: buildHeap_insert_all)
  have "length xs = size (contents h1)" using h1(3) by simp
  from max_queue.delete_all_ok [OF q h1(2) this] h h1 show ?thesis
    by (auto simp: sorted_list_of_multiset_mset)
qed

theorem heap_sorts_witness:
  "\<exists>h h1 h2. new_heap zeroed 1 MinHeap = Inr h \<and> buildHeap zeroed h [3, 7, 5] = Inr h1 \<and>
     delete_n deleteMax 3 h1 = Inr ([7, 5, 3], h2) \<and> contents h2 = {#}"
  using heap_sorts [OF zeroed_ok, of 1 "[3, 7, 5]" MinHeap] by (simp add: numeral_3_eq_3)

lemma show_loop_result:
  "heap_ok h \<Longrightarrow> show_loop h = Inr (concat (map (\<lambda>x. dec_int x @ '' '')
     (takeWhile (\<lambda>x. x \<noteq> -1) (rev (sorted_list_of_multiset (contents h))))))"
proof (induction "size (contents h)" arbitrary: h rule: less_induct)
  case less
  show ?case
  proof (cases "contents h = {#}")
    case True
    obtain a n where h: "hrep h a n" using less.prems by (auto simp: heap_ok_def)
    with True have "hp_count h \<le> 0" using contents_rep [OF h] by (auto simp: hrep_def)
    then show ?thesis using True by (subst show_loop.simps) (simp add: deleteMax_def)
  next
    case False
    obtain x h1 where d: "deleteMax h = Inr (x, h1)" "heap_ok h1" "contents h = add_mset x (contents h1)"
      "\<forall>y \<in># contents h. y \<le> x"
      using deleteMax_result [OF less.prems False] by blast
    have srt: "sorted_list_of_multiset (contents h) = sorted_list_of_multiset (contents h1) @ [x]"
      using hq.sorted_split_max [of "contents h1" x] d(3,4) by simp
    show ?thesis
    proof (cases "x = -1")
      case True
      then show ?thesis using d(1) srt by (subst show_loop.simps) simp
    next
      case ne: False
      have "size (contents h1) < size (contents h)" using d(3) by simp
      from less.hyps [OF this d(2)] show ?thesis
        using d(1) srt ne by (subst show_loop.simps) simp
    qed
  qed
qed

text \<open>Printing a heap leaves it as it is and lists its elements in descending order, but only
  those greater than the first -1: the loop takes a stored -1 for the end.
\<close>

theorem heap_out_lists:
  assumes "heap_ok h" and "mem_ok mem"
  shows "heap_out mem h = Inr (''size = '' @ dec_nat (size (contents h)) @ '', data=['' @
    concat (map (\<lambda>x. dec_int x @ '' '') (takeWhile (\<lambda>x. x \<noteq> -1) (rev (sorted_list_of_multiset (contents h))))) @
    '']'' @ [CHR 0x0A])"
proof -
  obtain a n where h: "hrep h a n" using assms(1) by (auto simp: heap_ok_def)
  then have "hp_count h = int (size (contents h))" using contents_rep [OF h] by (simp add: hrep_def)
  then have "dec_int (hp_count h) = dec_nat (size (contents h))" by (simp add: dec_int_def)
  then show ?thesis
    using copy_heap_result [OF assms] show_loop_result [OF assms(1)] by (simp add: heap_out_def)
qed

definition gap_heap :: heap where
  "gap_heap = \<lparr>hp_capacity = 3, hp_count = 3, hp_ar = Some [2, -1, -5], hp_type = MaxHeap\<rparr>"

lemma gap_heap_ok: "heap_ok gap_heap" "contents gap_heap = mset [2, -1, -5]"
proof -
  have "order [2, -1, -5] 3"
    unfolding order_def by (auto simp: up_def less_Suc_eq numeral_3_eq_3)
  then show "heap_ok gap_heap"
    by (intro heap_okI [of _ "[2, -1, -5]" 3]) (auto simp: hrep_def gap_heap_def)
  show "contents gap_heap = mset [2, -1, -5]" by (simp add: contents_def gap_heap_def)
qed

theorem heap_out_lists_witness:
  "heap_out zeroed gap_heap = Inr (''size = 3, data=[2 ]'' @ [CHR 0x0A])"
proof -
  have "sorted_list_of_multiset (contents gap_heap) = [-5, -1, 2]"
    unfolding gap_heap_ok(2) sorted_list_of_multiset_mset by simp
  moreover have "size (contents gap_heap) = 3" using gap_heap_ok(2) by simp
  moreover have "dec_nat 3 = ''3''" "dec_int 2 = ''2''" by code_simp+
  ultimately show ?thesis
    using heap_out_lists [OF gap_heap_ok(1) zeroed_ok] by simp
qed

text \<open>The command "deleteall", in any letter case, deletes nothing: it is first read as "delete"
  with a number that is none. A heap created with capacity 0 faults at the first insertion,
  since doubling 0 never makes room.
\<close>

theorem heap_dead_commands:
  "heap_line mem ''DeleteAll'' data h = Inr (True, [], Some 0, h) \<and>
   (mem_ok mem \<longrightarrow> and_then (new_heap mem 0 ty) (\<lambda>h0. heap_insert mem h0 x) = Inl OutOfBounds)"
proof (intro conjI impI)
  have l: "map to_lower ''DeleteAll'' = ''deleteall''" by code_simp
  have r: "rfind ''deleteall'' ''exit'' = None" "rfind ''deleteall'' ''delete'' = Some 0" by code_simp+
  have e: "extract_int (drop 6 ''deleteall'') = NotNumber" by code_simp
  have "delete_command ''deleteall'' data = Some 0" unfolding delete_command_def e by simp
  then show "heap_line mem ''DeleteAll'' data h = Inr (True, [], Some 0, h)"
    unfolding heap_line_def l Let_def r by simp
next
  assume "mem_ok mem"
  then have "length (mem 0) = nat 0" unfolding mem_ok_def by blast
  then have "mem 0 = []" by simp
  then show "and_then (new_heap mem 0 ty) (\<lambda>h0. heap_insert mem h0 x) = Inl OutOfBounds"
    by (simp add: new_heap_def heap_insert_def heap_resize_def sift_up.simps ar_set_def Let_def)
qed

theorem heap_dead_commands_witness:
  "heap_line zeroed ''DeleteAll'' None one_heap = Inr (True, [], Some 0, one_heap) \<and>
   and_then (new_heap zeroed 0 MaxHeap) (\<lambda>h0. heap_insert zeroed h0 1) = Inl OutOfBounds"
  using heap_dead_commands [of zeroed None one_heap MaxHeap 1] zeroed_ok by blast

end
