(* ===== verification/Udp_Programs.thy ===== *)
theory Udp_Programs
  imports Prelude
begin

text \<open>
  The datagram programs of Project1: UDPServer.c and udpclient.c, which talk to each other, the
  loops of UPDEchoServer.c and NamedSocketServer.c, and the service of MyService.c. The result of
  every socket call is an argument: a byte count, negative for an error, and the bytes stored.
\<close>

section \<open>Buffers\<close>

text \<open>\<open>recvfrom\<close> stores the bytes it received at the start of the buffer, and nothing on an error.\<close>

definition recv_into :: "string \<Rightarrow> string \<Rightarrow> string" where
  "recv_into bytes buf = bytes @ drop (length bytes) buf"

text \<open>What a receive call for at most \<open>n\<close> bytes may return.\<close>

definition recv_ok :: "nat \<Rightarrow> int \<Rightarrow> string \<Rightarrow> bool" where
  "recv_ok n r bytes \<longleftrightarrow> (r = -1 \<and> bytes = []) \<or> (r = int (length bytes) \<and> length bytes \<le> n)"

text \<open>\<open>printf("%s")\<close> or \<open>puts\<close> of a buffer: without a NUL it reads past the end.\<close>

definition c_text :: "string \<Rightarrow> fault + string" where
  "c_text buf = (if NUL \<in> set buf then Inr (cstr buf) else Inl OutOfBounds)"

lemma length_recv_into: "length bytes \<le> length buf \<Longrightarrow> length (recv_into bytes buf) = length buf"
  by (simp add: recv_into_def)

section \<open>UDPServer.c\<close>

definition BUF_LEN :: nat where "BUF_LEN = 100"

text \<open>\<open>nbytes\<close>, which the loop never changes.\<close>

definition srv_nbytes :: nat where "srv_nbytes = 99"

text \<open>
  One round of the endless loop: the text written to the display, the bytes sent back and the
  buffer afterwards.
\<close>

definition server_round :: "string \<Rightarrow> int \<Rightarrow> string \<Rightarrow> fault + string \<times> string \<times> string" where
  "server_round buffer siz bytes =
     (let b = recv_into bytes buffer
      in and_then (if siz > 0 \<and> siz < int BUF_LEN
                   then and_then (wr b siz NUL) (\<lambda>b1. and_then (c_text b1) (\<lambda>t. Inr (t @ [CHR 0x0A], b1)))
                   else Inr ([], b)) (\<lambda>(out, b2).
           Inr (out, take srv_nbytes b2, b2)))"

fun server_loop :: "string \<Rightarrow> (int \<times> string) list \<Rightarrow> fault + string \<times> string list" where
  "server_loop buffer [] = Inr ([], [])"
| "server_loop buffer ((siz, bytes) # rs) =
     and_then (server_round buffer siz bytes) (\<lambda>(out, sent, buffer1).
     and_then (server_loop buffer1 rs) (\<lambda>(outs, sents). Inr (out @ outs, sent # sents)))"

text \<open>Start-up: the codes of WSAStartup, socket and bind decide whether the loop is reached.\<close>

definition udp_server_main :: "string \<Rightarrow> int \<Rightarrow> int \<Rightarrow> int \<Rightarrow> (int \<times> string) list \<Rightarrow> fault + int \<times> string \<times> string list" where
  "udp_server_main buffer nCode sock bound rs =
     (if nCode \<noteq> 0 then Inr (-1, ''Opps! WSA error '' @ dec_int nCode @ [CHR 0x0A], [])
      else if sock < 0 then Inr (-1, ''socket error = '' @ dec_int (sock mod 2 ^ 64) @ [CHR 0x0A], [])
      else if bound < 0 then Inr (-1, ''bind result: '' @ dec_int bound @ [CHR 0x0A], [])
      else and_then (server_loop buffer rs) (\<lambda>(out, sents).
             Inr (0, ''Simple UDP server is ready!'' @ [CHR 0x0A, CHR 0x0A] @ out, sents)))"

section \<open>udpclient.c\<close>

text \<open>
  \<open>hostnameToIp\<close>: \<open>resolve\<close> stands for gethostbyname with the dotted form of the first address;
  the result is the code and the buffer \<open>ip\<close>.
\<close>

definition strcpy_into :: "string \<Rightarrow> string \<Rightarrow> fault + string" where
  "strcpy_into dst src =
     (if length src + 1 \<le> length dst then Inr (src @ [NUL] @ drop (length src + 1) dst) else Inl OutOfBounds)"

definition hostnameToIp :: "(string \<Rightarrow> string option) \<Rightarrow> string \<Rightarrow> string \<Rightarrow> fault + int \<times> string" where
  "hostnameToIp resolve hostname ip =
     (case resolve hostname of
        None \<Rightarrow> Inr (1, ip)
      | Some a \<Rightarrow> and_then (strcpy_into ip a) (\<lambda>ip1. Inr (0, ip1)))"

text \<open>
  The target address of one round: \<open>line\<close> is what fgets stored, \<open>None\<close> at the end of the input.
  The result is the string given to inet_addr, or \<open>None\<close> for an unknown host, and the buffer.
\<close>

definition ADDR_LEN :: nat where "ADDR_LEN = 20"

definition client_address ::
  "(string \<Rightarrow> string option) \<Rightarrow> string option \<Rightarrow> string \<Rightarrow> string \<Rightarrow> fault + string option \<times> string" where
  "client_address resolve line str_target_addr str_addr_temp =
     and_then (strcpy_into str_addr_temp (cstr str_target_addr)) (\<lambda>temp.
     case line of
       Some l \<Rightarrow>
         and_then (strcpy_into str_target_addr l) (\<lambda>target.
         if 0 < length (cstr target) \<and> hd (cstr target) \<noteq> CHR 0x0A
         then let k = length (cstr target) - 1;
                  target1 = (if target ! k = CHR 0x0A then target[k := NUL] else target);
                  c0 = (of_char (target1 ! 0) :: nat)
              in if 0 < length (cstr target1) \<and> (c0 < 48 \<or> 57 < c0)
                 then and_then (hostnameToIp resolve (cstr target1) (replicate ADDR_LEN NUL)) (\<lambda>(rc, temp1).
                        if rc = 0
                        then let t2 = cstr temp1 @ drop (length (cstr temp1)) target1
                             in Inr (Some (cstr t2), t2)
                        else Inr (None, target1))
                 else Inr (Some (cstr target1), target1)
         else and_then (strcpy_into (replicate ADDR_LEN NUL) (cstr temp)) (\<lambda>t. Inr (Some (cstr temp), t)))
     | None \<Rightarrow>
         and_then (strcpy_into (replicate ADDR_LEN NUL) (cstr temp)) (\<lambda>t. Inr (Some (cstr temp), t)))"

text \<open>
  The message of one round: the line fgets stored in the cleared buffer, the number of bytes to
  send, and the bytes sent.
\<close>

definition client_message :: "string \<Rightarrow> nat \<Rightarrow> fault + nat \<times> string" where
  "client_message line nbytes =
     and_then (strcpy_into (replicate BUF_LEN NUL) line) (\<lambda>buffer.
     and_then (rd buffer (int nbytes - 1)) (\<lambda>c.
       if c = CHR 0x0A
       then and_then (wr buffer (int nbytes - 1) NUL) (\<lambda>b. Inr (nbytes - 1, take (nbytes - 1) b))
       else Inr (nbytes, take nbytes buffer)))"

text \<open>
  After sending: \<open>size\<close> is a size_t, so the error code -1 becomes the greatest value. The result is
  whether the error branch ran, and the text printed for the reply, if any.
\<close>

definition size_t :: "int \<Rightarrow> int" where
  "size_t r = r mod 2 ^ 64"

definition client_sent_failed :: "int \<Rightarrow> bool" where
  "client_sent_failed r \<longleftrightarrow> size_t r \<le> 0"

definition client_reply :: "int \<Rightarrow> string \<Rightarrow> fault + string option" where
  "client_reply r bytes =
     (let buffer = recv_into bytes (replicate BUF_LEN NUL); siz = size_t r
      in if siz > 0 \<and> siz < int BUF_LEN - 1
         then and_then (wr buffer siz NUL) (\<lambda>b. and_then (c_text b) (\<lambda>t.
                Inr (Some (''Recvfrom : Msg = '' @ t @ '', Len = '' @ dec_nat (length t) @ '', Size = '' @
                           dec_int siz @ [CHR 0x0A]))))
         else Inr None)"

section \<open>UPDEchoServer.c and NamedSocketServer.c\<close>

text \<open>One round of \<open>echo\<close>; \<open>maxbuf\<close> is MAXBUF, and the buffer is cleared before each receive.\<close>

definition echo_round :: "nat \<Rightarrow> int \<Rightarrow> string \<Rightarrow> fault + (string \<times> int) option \<times> string" where
  "echo_round maxbuf n bytes =
     (if n < 0 then Inr (None, ''error : receiveing data'' @ [CHR 0x0A])
      else let bufin = recv_into bytes (replicate maxbuf NUL)
           in and_then (c_text bufin) (\<lambda>t. Inr (Some (take (nat n) bufin, n), t)))"

text \<open>\<open>start\<close> of the echo server: the codes of socket, bind and getsockname give its result.\<close>

definition start_echo :: "int \<Rightarrow> int \<Rightarrow> int \<Rightarrow> int" where
  "start_echo sock bound named =
     (if sock < 0 then -1 else if bound < 0 then -2 else if named < 0 then -3 else 0)"

text \<open>
  The datagram loop of the named socket server: \<open>None\<close> for exit(EXIT_FAILURE), else the text
  shown, the bytes sent back and the buffer, which is never cleared.
\<close>

definition named_round :: "string \<Rightarrow> int \<Rightarrow> string \<Rightarrow> int \<Rightarrow> fault + (string \<times> string \<times> string) option" where
  "named_round message nbytes bytes sent =
     (if nbytes < 0 then Inr None
      else let m = recv_into bytes message
           in and_then (c_text m) (\<lambda>t.
                if sent < 0 then Inr None
                else Inr (Some (''Server: got message: '' @ t @ [CHR 0x0A], take (nat nbytes) m, m))))"

section \<open>MyService.c\<close>

definition MAXLINE :: nat where "MAXLINE = 1024"

text \<open>A service, with the pointer to its socket: never assigned, or the address of a cell.\<close>

datatype sock_ptr = Unset | Cell int

record udp_service =
  svc_run :: bool
  svc_port :: int
  svc_sockfd :: sock_ptr

text \<open>
  The loop of \<open>startUDPService\<close>: each receive result comes with the value of \<open>run\<close> after the
  callback; the strings handed to the callback are collected.
\<close>

fun service_loop :: "string \<Rightarrow> bool \<Rightarrow> (int \<times> string \<times> bool) list \<Rightarrow> fault + string list" where
  "service_loop buffer run [] = Inr []"
| "service_loop buffer run ((n, bytes, run1) # rs) =
     (if \<not> run then Inr []
      else and_then (wr (recv_into bytes buffer) n NUL) (\<lambda>b.
           and_then (c_text b) (\<lambda>t.
           and_then (service_loop b run1 rs) (\<lambda>ts. Inr (t # ts)))))"

definition startUDPService :: "string \<Rightarrow> udp_service \<Rightarrow> int \<Rightarrow> int \<Rightarrow> (int \<times> string \<times> bool) list \<Rightarrow>
    fault + int \<times> udp_service \<times> string list" where
  "startUDPService buffer svc sock bound rs =
     (case svc_sockfd svc of
        Unset \<Rightarrow> Inl Uninitialised
      | Cell _ \<Rightarrow>
          let svc1 = svc\<lparr>svc_sockfd := Cell sock\<rparr>
          in if sock < 0 then Inr (1, svc1, [])
             else if bound < 0 then Inr (1, svc1, [])
             else and_then (service_loop buffer (svc_run svc1) rs) (\<lambda>ts. Inr (0, svc1, ts)))"

definition stopUDPService :: "udp_service \<Rightarrow> int" where
  "stopUDPService svc = 0"

definition connectUDPServer :: "string \<Rightarrow> int \<Rightarrow> int" where
  "connectUDPServer ip port = 0"

definition disconnectUDPServer :: "string \<Rightarrow> int \<Rightarrow> int" where
  "disconnectUDPServer ip port = 0"

section \<open>Lemmas\<close>

lemma c_text_nul: "NUL \<notin> set s \<Longrightarrow> c_text (s @ NUL # rest) = Inr s"
  by (simp add: c_text_def)

lemma wr_after:
  assumes "length bytes < length buffer"
  shows "wr (recv_into bytes buffer) (int (length bytes)) NUL = Inr (bytes @ NUL # drop (length bytes + 1) buffer)"
  using Cons_nth_drop_Suc [OF assms, symmetric] by (simp add: recv_into_def wr_def in_range_def)

lemma cstr_stop: "cstr (bs @ NUL # xs) = cstr bs"
  by (induction bs) (auto simp: cstr_def)

lemma server_round_result:
  assumes "length buffer = BUF_LEN" "recv_ok srv_nbytes r bytes"
  shows "\<exists>out b. server_round buffer r bytes = Inr (out, take srv_nbytes b, b) \<and> length b = BUF_LEN \<and>
    (if bytes = [] then out = [] \<and> b = buffer
     else out = cstr bytes @ [CHR 0x0A] \<and> b = bytes @ NUL # drop (length bytes + 1) buffer)"
proof (cases "bytes = []")
  case True
  then have "\<not> r > 0" using assms(2) by (auto simp: recv_ok_def)
  then show ?thesis using True assms(1) by (simp add: server_round_def recv_into_def Let_def)
next
  case False
  then have r: "r = int (length bytes)" "0 < length bytes" "length bytes \<le> 99"
    using assms(2) by (auto simp: recv_ok_def srv_nbytes_def)
  let ?b = "bytes @ NUL # drop (length bytes + 1) buffer"
  have len: "length ?b = BUF_LEN" using r assms(1) by (simp add: BUF_LEN_def)
  have w: "wr (recv_into bytes buffer) r NUL = Inr ?b"
    using wr_after [of bytes buffer] r assms(1) by (simp add: BUF_LEN_def)
  have "cstr ?b = cstr bytes" by (rule cstr_stop)
  then have "c_text ?b = Inr (cstr bytes)" by (simp add: c_text_def)
  then show ?thesis using w r len False by (simp add: server_round_def Let_def BUF_LEN_def)
qed

lemma client_message_result:
  assumes "length line \<le> 98" "NUL \<notin> set line"
  shows "client_message line 99 = Inr (99, line @ replicate (99 - length line) NUL)"
proof -
  let ?b = "line @ [NUL] @ drop (length line + 1) (replicate BUF_LEN NUL)"
  have b: "strcpy_into (replicate BUF_LEN NUL) line = Inr ?b"
    using assms(1) by (simp add: strcpy_into_def BUF_LEN_def)
  have pad: "?b = line @ replicate (100 - length line) NUL"
  proof -
    have "100 - length line = Suc (99 - length line)" using assms(1) by simp
    then show ?thesis by (simp add: BUF_LEN_def)
  qed
  have "?b ! 98 = NUL" unfolding pad using assms(1) by (simp add: nth_append)
  moreover have "length ?b = 100" unfolding pad using assms(1) by simp
  ultimately have "rd ?b 98 = Inr NUL" by (simp add: rd_def in_range_def)
  moreover have "take 99 ?b = line @ replicate (99 - length line) NUL"
    unfolding pad using assms(1) by simp
  ultimately show ?thesis using b by (simp add: client_message_def NUL_def)
qed

section \<open>Properties\<close>

text \<open>UDPServer answers every datagram, even after a receive error, with exactly 99 bytes: the
  bytes received, a NUL, and behind it whatever earlier datagrams left in the buffer. It shows
  the datagram's text and never leaves its buffer.
\<close>

theorem udp_server_reply:
  assumes "length buffer = BUF_LEN" and "recv_ok srv_nbytes r bytes"
  shows "\<exists>out b. server_round buffer r bytes = Inr (out, take srv_nbytes b, b) \<and> length b = BUF_LEN \<and>
    (if bytes = [] then out = [] \<and> b = buffer
     else out = cstr bytes @ [CHR 0x0A] \<and> b = bytes @ NUL # drop (length bytes + 1) buffer)"
  by (rule server_round_result [OF assms])

definition old_buffer :: string where
  "old_buffer = ''secret'' @ replicate 94 NUL"

lemma old_buffer_length: "length old_buffer = BUF_LEN"
  by (simp add: old_buffer_def BUF_LEN_def)

theorem udp_server_reply_witness:
  "\<exists>b. server_round old_buffer 2 ''hi'' = Inr (''hi'' @ [CHR 0x0A], take srv_nbytes b, b) \<and>
     b = ''hi'' @ NUL # drop (length ''hi'' + 1) old_buffer"
proof -
  have "recv_ok srv_nbytes 2 ''hi''" by (simp add: recv_ok_def srv_nbytes_def)
  from udp_server_reply [OF old_buffer_length this] show ?thesis by (simp add: cstr_def NUL_def)
qed

text \<open>A full exchange: for every input line of at most 98 characters the client sends 99 bytes,
  the line padded with NULs, the server shows the line and returns the same 99 bytes, and the
  client, which accepts replies of fewer than 99 bytes only, never shows the reply. A failed
  sendto is not noticed either, because its code is compared as an unsigned number.
\<close>

theorem udp_exchange:
  assumes "length line \<le> 98" and "NUL \<notin> set line" and "length buffer = BUF_LEN"
  shows "\<exists>sent b. client_message line 99 = Inr (99, sent) \<and>
    server_round buffer 99 sent = Inr (line @ [CHR 0x0A], sent, b) \<and>
    client_reply 99 sent = Inr None \<and> \<not> client_sent_failed (-1)"
proof -
  let ?s = "line @ replicate (99 - length line) NUL"
  have len: "length ?s = 99" using assms(1) by simp
  have ok: "recv_ok srv_nbytes 99 ?s" using len by (simp add: recv_ok_def srv_nbytes_def)
  obtain k where k: "99 - length line = Suc k" using assms(1) by (cases "99 - length line") auto
  have "cstr ?s = line" unfolding k using assms(2) by simp
  moreover have "?s \<noteq> []" using len by force
  ultimately obtain b where b: "server_round buffer 99 ?s = Inr (line @ [CHR 0x0A], take srv_nbytes b, b)"
    "b = ?s @ NUL # drop 100 buffer"
    using server_round_result [OF assms(3) ok] len by auto
  have "take srv_nbytes b = ?s" unfolding b(2) using len by (simp add: srv_nbytes_def)
  moreover have "client_reply 99 ?s = Inr None"
    by (simp add: client_reply_def size_t_def BUF_LEN_def Let_def)
  moreover have "\<not> client_sent_failed (-1)" by (simp add: client_sent_failed_def size_t_def)
  ultimately show ?thesis using client_message_result [OF assms(1,2)] b(1) by auto
qed

theorem udp_exchange_witness:
  "\<exists>sent b. client_message ''hello'' 99 = Inr (99, sent) \<and>
     server_round old_buffer 99 sent = Inr (''hello'' @ [CHR 0x0A], sent, b) \<and> client_reply 99 sent = Inr None"
proof -
  have "length ''hello'' \<le> 98" "NUL \<notin> set ''hello''" by (simp_all add: NUL_def)
  from udp_exchange [OF this old_buffer_length] show ?thesis
    by (elim exE conjE) (intro exI conjI, assumption+)
qed

text \<open>A host name longer than its address leaves its tail behind the address.\<close>

lemma address_leftover:
  "client_address (\<lambda>_. Some ''10.0.0.1'') (Some ''backup-server'') (replicate 20 NUL) (replicate 20 NUL) =
   Inr (Some ''10.0.0.1erver'', ''10.0.0.1erver'' @ replicate 7 NUL)"
  by code_simp

text \<open>The service started on an object whose socket pointer was never assigned faults at once; on
  an assigned one a receive error (-1) or a datagram that fills the buffer (1024 bytes) makes
  the terminating NUL land outside it, and any shorter datagram is handed on as its text.
\<close>

theorem service_receive:
  assumes "length buffer = MAXLINE" and "recv_ok MAXLINE n bytes"
  shows "(svc_sockfd svc = Unset \<longrightarrow> startUDPService buffer svc sock bound rs = Inl Uninitialised) \<and>
    service_loop buffer True ((n, bytes, False) # rs) =
      (if n = -1 \<or> n = 1024 then Inl OutOfBounds else Inr [cstr bytes])"
proof (intro conjI impI)
  show "startUDPService buffer svc sock bound rs = Inl Uninitialised" if "svc_sockfd svc = Unset"
    using that by (simp add: startUDPService_def)
next
  have len: "length (recv_into bytes buffer) = 1024"
    using assms length_recv_into [of bytes buffer] by (auto simp: recv_ok_def MAXLINE_def)
  show "service_loop buffer True ((n, bytes, False) # rs) =
      (if n = -1 \<or> n = 1024 then Inl OutOfBounds else Inr [cstr bytes])"
  proof (cases "n = -1 \<or> n = 1024")
    case True
    then have "wr (recv_into bytes buffer) n NUL = Inl OutOfBounds" using len by (intro wr_out) auto
    with True show ?thesis by simp
  next
    case False
    then have n: "n = int (length bytes)" "length bytes < 1024"
      using assms(2) by (auto simp: recv_ok_def MAXLINE_def)
    let ?b = "bytes @ NUL # drop (length bytes + 1) buffer"
    have w: "wr (recv_into bytes buffer) n NUL = Inr ?b"
      using wr_after [of bytes buffer] n assms(1) by (simp add: MAXLINE_def)
    have "c_text ?b = Inr (cstr bytes)" using cstr_stop by (simp add: c_text_def)
    then show ?thesis using w False by (cases rs) auto
  qed
qed

theorem service_receive_witness:
  "service_loop (replicate 1024 NUL) True [(-1, [], False)] = Inl OutOfBounds \<and>
   startUDPService (replicate 1024 NUL) \<lparr>svc_run = True, svc_port = 5000, svc_sockfd = Unset\<rparr> 3 0 [] = Inl Uninitialised"
proof -
  have "recv_ok MAXLINE (-1) []" by (simp add: recv_ok_def)
  moreover have "length (replicate 1024 NUL) = MAXLINE" unfolding MAXLINE_def by (rule length_replicate)
  ultimately show ?thesis
    using service_receive [of "replicate 1024 NUL" "-1" "[]" "\<lparr>svc_run = True, svc_port = 5000, svc_sockfd = Unset\<rparr>" 3 0 "[]"]
    by (metis udp_service.select_convs(3))
qed

end
