(* ===== verification/Word_Cli.thy ===== *)
theory Word_Cli
  imports Containers Text_Input Udp_Programs
begin

text \<open>
  The interactive programs over a linked list of words: the main of Project1/FileTransMain.cpp
  and the longer one in Project1/MyTestMain01.cpp, which adds printing and the udp commands. A
  command is one line, split by strtok; answers to questions come from scanf.
\<close>

section \<open>State and environment\<close>

text \<open>
  \<open>env_ok n\<close>: whether the n-th malloc succeeds; \<open>env_addr\<close> picks the address of a new node.
\<close>

record env =
  env_ok :: "nat \<Rightarrow> bool"
  env_addr :: "string store \<Rightarrow> addr"

datatype udp_event = Stopped int | Connected string int | Disconnected string int

record cli =
  cl_list :: "string lstate"      \<comment> \<open>\<open>lp\<close> with its nodes\<close>
  cl_mallocs :: nat
  cl_run :: bool                  \<comment> \<open>\<open>isRun\<close>\<close>
  cl_left :: bool                 \<comment> \<open>main was left in the middle, with -1\<close>
  cl_answers :: "string list"     \<comment> \<open>words still to be read by scanf\<close>
  cl_out :: string
  cl_udp :: "udp_event list"

definition delims :: string where
  "delims = [CHR '' '', CHR 0x0A]"

definition say :: "string \<Rightarrow> cli \<Rightarrow> cli" where
  "say s c = c\<lparr>cl_out := cl_out c @ s\<rparr>"

definition count_malloc :: "cli \<Rightarrow> cli" where
  "count_malloc c = c\<lparr>cl_mallocs := Suc (cl_mallocs c)\<rparr>"

definition stop :: "cli \<Rightarrow> cli" where
  "stop c = c\<lparr>cl_run := False\<rparr>"

definition leave_main :: "cli \<Rightarrow> cli" where
  "leave_main c = c\<lparr>cl_run := False, cl_left := True\<rparr>"

text \<open>\<open>list_ins_next(&lp, NULL, newData)\<close> with the malloc of the node in it.\<close>

definition push_word :: "env \<Rightarrow> string \<Rightarrow> cli \<Rightarrow> fault + int \<times> cli" where
  "push_word env w c =
     (let m = (if env_ok env (cl_mallocs c) then Some (env_addr env (fst (cl_list c))) else None);
          c1 = count_malloc c
      in and_then (list_ins_next m (fst (cl_list c)) (snd (cl_list c)) None (Some w)) (\<lambda>(rc, s).
           Inr (rc, c1\<lparr>cl_list := s\<rparr>)))"

section \<open>The commands\<close>

text \<open>"add": the copy of a word is not checked for NULL before it is written.\<close>

function add_command :: "env \<Rightarrow> string \<Rightarrow> cli \<Rightarrow> fault + cli" where
  "add_command env rest c =
     (case strtok delims rest of
        None \<Rightarrow> Inr c
      | Some (w, rest1) \<Rightarrow>
          if \<not> env_ok env (cl_mallocs c) then Inl NullDeref
          else and_then (push_word env w (count_malloc c)) (\<lambda>(rc, c1).
                 if rc < 0 then Inr (stop c1) else add_command env rest1 c1))"
  by pat_completeness auto
termination
  by (relation "measure (\<lambda>(_, rest, _). length rest)") (auto dest: strtok_shorter)

declare add_command.simps [simp del]

text \<open>"madd n": every word n times.\<close>

fun madd_copies :: "env \<Rightarrow> string \<Rightarrow> nat \<Rightarrow> cli \<Rightarrow> fault + cli" where
  "madd_copies env w 0 c = Inr c"
| "madd_copies env w (Suc n) c =
     (if \<not> env_ok env (cl_mallocs c) then Inr (stop (count_malloc c))
      else and_then (push_word env w (count_malloc c)) (\<lambda>(rc, c1).
             if rc < 0 then Inr (stop c1) else madd_copies env w n c1))"

function madd_words :: "env \<Rightarrow> nat \<Rightarrow> string \<Rightarrow> cli \<Rightarrow> fault + cli" where
  "madd_words env n rest c =
     (if \<not> cl_run c then Inr c
      else case strtok delims rest of
             None \<Rightarrow> Inr c
           | Some (w, rest1) \<Rightarrow> and_then (madd_copies env w n c) (\<lambda>c1. madd_words env n rest1 c1))"
  by pat_completeness auto
termination
  by (relation "measure (\<lambda>(_, _, rest, _). length rest)") (auto dest: strtok_shorter)

declare madd_words.simps [simp del]

definition madd_command :: "env \<Rightarrow> string \<Rightarrow> cli \<Rightarrow> fault + cli" where
  "madd_command env rest c =
     (case strtok delims rest of
        None \<Rightarrow> Inr c
      | Some (w, rest1) \<Rightarrow> let n = atoi w in if n < 1 then Inr c else madd_words env (nat n) rest1 c)"

text \<open>
  "remove": \<open>ask\<close> is the scanf call for the answer into two bytes, of any length for "all" or of one
  character for a number. A failed malloc ends the loop, or for "all" leaves main.
\<close>

datatype question = AskAll | AskCount

type_synonym asker = "question \<Rightarrow> string list \<Rightarrow> fault + string \<times> string list"

definition cl_size :: "cli \<Rightarrow> int" where
  "cl_size c = l_size (snd (cl_list c))"

fun remove_loop :: "nat \<Rightarrow> nat \<Rightarrow> cli \<Rightarrow> fault + cli" where
  "remove_loop i 0 c = Inr c"
| "remove_loop i (Suc n) c =
     and_then (list_rem_next (fst (cl_list c)) (snd (cl_list c)) None) (\<lambda>(rc, v, s).
       case v of
         None \<Rightarrow> Inl Uninitialised
       | Some None \<Rightarrow> Inl NullDeref
       | Some (Some w) \<Rightarrow>
           remove_loop (Suc i) n (say (''list['' @ dec_nat i @ '']='' @ w @ '' is removed'' @ [CHR 0x0A])
                                   (c\<lparr>cl_list := s\<rparr>)))"

definition remove_words :: "int \<Rightarrow> cli \<Rightarrow> fault + cli" where
  "remove_words cnt c = (if cnt > cl_size c then Inr c else remove_loop 0 (nat cnt) c)"

definition prompt_all :: "int \<Rightarrow> string" where
  "prompt_all n = ''Are you sure to remove all(y/n)? (size='' @ dec_int n @ '')''"

definition prompt_count :: "int \<Rightarrow> string" where
  "prompt_count n = ''Are you sure to remove '' @ dec_int n @ '' words(y/n)?''"

definition remove_command :: "asker \<Rightarrow> env \<Rightarrow> string \<Rightarrow> cli \<Rightarrow> fault + cli" where
  "remove_command ask env rest c =
     (case strtok delims rest of
        None \<Rightarrow> remove_words 1 c
      | Some (w, _) \<Rightarrow>
          if w = ''all''
          then if \<not> env_ok env (cl_mallocs c) then Inr (leave_main (count_malloc c))
               else let c1 = say (prompt_all (cl_size c)) (count_malloc c)
                    in and_then (ask AskAll (cl_answers c1)) (\<lambda>(a, as).
                         remove_words (if a = ''y'' \<or> a = ''Y'' then cl_size c1 else 0) (c1\<lparr>cl_answers := as\<rparr>))
          else let cnt = atoi w
               in if cnt > 0
                  then if \<not> env_ok env (cl_mallocs c) then Inr (stop (count_malloc c))
                       else let c1 = say (prompt_count cnt) (count_malloc c)
                            in and_then (ask AskCount (cl_answers c1)) (\<lambda>(a, as).
                                 remove_words (if a \<noteq> ''y'' \<and> a \<noteq> ''Y'' then 0 else cnt) (c1\<lparr>cl_answers := as\<rparr>))
                  else remove_words cnt c)"

definition usage :: string where
  "usage = ''Usage : add {word}'' @ [CHR 0x0A] @ replicate 2 (CHR 0x09) @ ''remove {n times to remove}'' @
     [CHR 0x0A] @ replicate 2 (CHR 0x09) @ ''print'' @ [CHR 0x0A]"

section \<open>FileTransMain\<close>

text \<open>scanf_s with \<open>%s\<close> needs the size of its buffer as an argument, which is not passed.\<close>

definition ask_s :: asker where
  "ask_s q as = Inl Uninitialised"

text \<open>One line; the printing commands are commented out in the source, "cls" only calls system.\<close>

definition cli_line :: "env \<Rightarrow> string \<Rightarrow> cli \<Rightarrow> fault + cli" where
  "cli_line env line c =
     (case strtok delims line of
        None \<Rightarrow> Inr c
      | Some (cmd, rest) \<Rightarrow>
          if cmd = ''exit'' then Inr (stop c)
          else if cmd = ''cls'' \<or> cmd = ''clear'' then Inr c
          else if cmd = ''size'' \<or> cmd = ''info'' then Inr c
          else if cmd = ''print'' then Inr c
          else if cmd = ''print2'' then Inr c
          else if cmd = ''remove'' then remove_command ask_s env rest c
          else if cmd = ''add'' then add_command env rest c
          else if cmd = ''madd'' then madd_command env rest c
          else Inr (say usage c))"

fun cli_lines :: "env \<Rightarrow> string list \<Rightarrow> cli \<Rightarrow> fault + cli" where
  "cli_lines env [] c = Inr c"
| "cli_lines env (l # ls) c =
     (if cl_run c then and_then (cli_line env l c) (cli_lines env ls) else Inr c)"

definition start_cli :: "string list \<Rightarrow> cli" where
  "start_cli answers = \<lparr>cl_list = (\<lambda>_. None, list_init True), cl_mallocs = 2, cl_run = True, cl_left = False,
     cl_answers = answers, cl_out = [], cl_udp = []\<rparr>"

text \<open>The first two mallocs are the time stamp and the line buffer.\<close>

definition cli_main :: "env \<Rightarrow> string list \<Rightarrow> string list \<Rightarrow> fault + int \<times> cli" where
  "cli_main env answers lines =
     (if \<not> env_ok env 0 then Inr (1, start_cli answers)
      else if \<not> env_ok env 1 then Inr (1, start_cli answers)
      else and_then (cli_lines env lines (start_cli answers)) (\<lambda>c. Inr (if cl_left c then -1 else 0, c)))"

section \<open>MyTestMain01\<close>

text \<open>scanf with \<open>%s\<close> into two bytes overflows on a longer word; \<open>%1s\<close> reads one character.\<close>

definition ask_c :: asker where
  "ask_c q as =
     (case as of
        [] \<Rightarrow> Inr ([], [])
      | a # rest \<Rightarrow>
          (case q of
             AskAll \<Rightarrow> if length a > 1 then Inl OutOfBounds else Inr (a, rest)
           | AskCount \<Rightarrow> Inr (take 1 a, rest)))"

text \<open>
  The udp sub-commands return \<open>None\<close> where the source continues with the next line, and the rest
  of the line where it falls through to the loop that collects further words.
\<close>

definition unsupported :: "string \<Rightarrow> cli \<Rightarrow> cli" where
  "unsupported w c = say (''Unsupported action : '' @ w @ [CHR 0x0A]) c"

definition port_ok :: "int \<Rightarrow> bool" where
  "port_ok port \<longleftrightarrow> \<not> (port < 1 \<or> port > 65535)"

text \<open>The service object is malloc'ed and only its ip and port are assigned.\<close>

definition udp_server :: "env \<Rightarrow> string \<Rightarrow> cli \<Rightarrow> fault + string option \<times> cli" where
  "udp_server env rest c =
     (case strtok delims rest of
        None \<Rightarrow> Inr (None, c)
      | Some (action, r1) \<Rightarrow>
          if action = ''start'' \<or> action = ''stop''
          then case strtok delims r1 of
                 None \<Rightarrow> Inr (None, c)
               | Some (w, r2) \<Rightarrow>
                   if w = ''-port''
                   then case strtok delims r2 of
                          None \<Rightarrow> Inr (None, c)
                        | Some (p, r3) \<Rightarrow>
                            let port = atoi p
                            in if \<not> port_ok port then Inr (None, c)
                               else if \<not> env_ok env (cl_mallocs c) then Inl NullDeref
                               else let c1 = count_malloc c;
                                        svc = \<lparr>svc_run = True, svc_port = port, svc_sockfd = Unset\<rparr>
                                    in if action = ''start''
                                       then and_then (startUDPService (replicate MAXLINE NUL) svc 0 0 [])
                                              (\<lambda>_. Inr (Some r3, c1))
                                       else Inr (Some r3, c1\<lparr>cl_udp := cl_udp c1 @ [Stopped port]\<rparr>)
                   else Inr (Some r2, c)
          else Inr (None, unsupported action c))"

text \<open>The options of "connect" and "disconnect": \<open>data\<close> is the word looked at last, \<open>port\<close> the variable of that name,
  which "disconnect" declares anew and without a value.\<close>

definition udp_target ::
  "env \<Rightarrow> int option \<Rightarrow> string \<Rightarrow> cli \<Rightarrow> (string option \<times> int option \<times> string) option \<times> cli"
where
  "udp_target env port rest c =
     (case strtok delims rest of
        None \<Rightarrow> (None, c)
      | Some (data, r1) \<Rightarrow>
          let ip_step =
                (if data = ''-ip''
                 then case strtok delims r1 of
                        None \<Rightarrow> (None, c)
                      | Some (data2, r2) \<Rightarrow>
                          if \<not> env_ok env (cl_mallocs c) then (None, count_malloc c)
                          else (Some (Some data2, data2, r2), count_malloc c)
                 else (Some (None, data, r1), c))
          in case ip_step of
               (None, c1) \<Rightarrow> (None, c1)
             | (Some (ip, data2, r2), c1) \<Rightarrow>
                 if data2 = ''-port''
                 then case strtok delims r2 of
                        None \<Rightarrow> (None, c1)
                      | Some (p, r3) \<Rightarrow> (Some (ip, Some (atoi p), r3), c1)
                 else (Some (ip, port, r2), c1))"

definition udp_client :: "env \<Rightarrow> string \<Rightarrow> cli \<Rightarrow> fault + string option \<times> cli" where
  "udp_client env rest c =
     (case strtok delims rest of
        None \<Rightarrow> Inr (None, c)
      | Some (action, r1) \<Rightarrow>
          if action = ''connect'' \<or> action = ''disconnect''
          then case udp_target env (if action = ''connect'' then Some (-1) else None) r1 c of
                 (None, c1) \<Rightarrow> Inr (None, c1)
               | (Some (ip, None, r2), c1) \<Rightarrow> Inl Uninitialised
               | (Some (ip, Some port, r2), c1) \<Rightarrow>
                   if ip = None \<or> \<not> port_ok port
                   then Inr (None, say (''IP is NULL or Unsupported UDP port : '' @ dec_int port) c1)
                   else Inr (Some r2, c1\<lparr>cl_udp := cl_udp c1 @
                           [if action = ''connect'' then Connected (the ip) port else Disconnected (the ip) port]\<rparr>)
          else Inr (None, unsupported action c))"

text \<open>Words left on a udp line go into the list \<open>al\<close>, which is never initialised.\<close>

definition udp_rest :: "env \<Rightarrow> string \<Rightarrow> cli \<Rightarrow> fault + cli" where
  "udp_rest env rest c =
     (case strtok delims rest of
        None \<Rightarrow> Inr c
      | Some _ \<Rightarrow> if \<not> env_ok env (cl_mallocs c) then Inl NullDeref else Inl Uninitialised)"

definition udp_command :: "env \<Rightarrow> string \<Rightarrow> cli \<Rightarrow> fault + cli" where
  "udp_command env rest c =
     (case strtok delims rest of
        None \<Rightarrow> Inr c
      | Some (data, r1) \<Rightarrow>
          and_then (if data = ''-server'' then udp_server env r1 c
                    else if data = ''-client'' then udp_client env r1 c
                    else Inr (Some r1, c)) (\<lambda>(go, c1).
            case go of None \<Rightarrow> Inr c1 | Some r2 \<Rightarrow> udp_rest env r2 c1))"

definition print_command :: "char \<Rightarrow> cli \<Rightarrow> (fault + cli) option" where
  "print_command m c =
     run_then (list_prt (fst (cl_list c)) (Some (snd (cl_list c))) m) (\<lambda>(_, out). Some (Inr (say out c)))"

definition test_line :: "env \<Rightarrow> string \<Rightarrow> cli \<Rightarrow> (fault + cli) option" where
  "test_line env line c =
     (case strtok delims line of
        None \<Rightarrow> Some (Inr c)
      | Some (cmd, rest) \<Rightarrow>
          if cmd = ''exit'' then Some (Inr (stop c))
          else if cmd = ''cls'' \<or> cmd = ''clear'' then Some (Inr c)
          else if cmd = ''size'' \<or> cmd = ''info'' then Some (Inr (say (snd (list_info (Some (snd (cl_list c))))) c))
          else if cmd = ''print'' then print_command (CHR ''1'') c
          else if cmd = ''print2'' then print_command (CHR ''2'') c
          else if cmd = ''remove'' then Some (remove_command ask_c env rest c)
          else if cmd = ''add'' then Some (add_command env rest c)
          else if cmd = ''strpbrk'' then Some (Inr c)
          else if cmd = ''madd'' then Some (madd_command env rest c)
          else if cmd = ''udp'' then Some (udp_command env rest c)
          else if cmd = ''tcp'' then Some (Inr c)
          else Some (Inr (say usage c)))"

fun test_lines :: "env \<Rightarrow> string list \<Rightarrow> cli \<Rightarrow> (fault + cli) option" where
  "test_lines env [] c = Some (Inr c)"
| "test_lines env (l # ls) c =
     (if cl_run c then run_then (test_line env l c) (test_lines env ls) else Some (Inr c))"

text \<open>The result of a finished run: the code, and the data pointers that list_destroy frees, which is not called when
  main is left in the middle.\<close>

definition test_main :: "env \<Rightarrow> string list \<Rightarrow> string list \<Rightarrow> (fault + int \<times> cli \<times> string option list) option" where
  "test_main env answers lines =
     (if \<not> env_ok env 0 then Some (Inr (-1, start_cli answers, []))
      else if \<not> env_ok env 1 then Some (Inr (-1, start_cli answers, []))
      else run_then (test_lines env lines (start_cli answers)) (\<lambda>c.
             if cl_left c then Some (Inr (-1, c, []))
             else Some (and_then (list_destroy (fst (cl_list c)) (snd (cl_list c))) (\<lambda>(ds, h, l).
               Inr (0, c\<lparr>cl_list := (h, l)\<rparr>, ds)))))"

section \<open>The abstract list of words\<close>

definition env_good :: "env \<Rightarrow> bool" where
  "env_good env \<longleftrightarrow> (\<forall>n. env_ok env n) \<and> (\<forall>h. finite (dom h) \<longrightarrow> h (env_addr env h) = None)"

definition holds_words :: "cli \<Rightarrow> string list \<Rightarrow> bool" where
  "holds_words c ws \<longleftrightarrow> lrep (cl_list c) (map Some ws)"

text \<open>What a command does to the list of words; the answer is the first word waiting.\<close>

definition spec_remove :: "int \<Rightarrow> string list \<Rightarrow> string list" where
  "spec_remove n ws = (if n > int (length ws) then ws else drop (nat n) ws)"

definition spec_words :: "string list \<Rightarrow> string list \<Rightarrow> string list \<Rightarrow> string list" where
  "spec_words toks as ws =
     (case toks of
        [] \<Rightarrow> ws
      | cmd # args \<Rightarrow>
          if cmd = ''add'' then rev args @ ws
          else if cmd = ''madd''
          then (case args of
                  [] \<Rightarrow> ws
                | n # rest \<Rightarrow> if atoi n < 1 then ws else rev (concat (map (replicate (nat (atoi n))) rest)) @ ws)
          else if cmd = ''remove''
          then (case args of
                  [] \<Rightarrow> spec_remove 1 ws
                | w # _ \<Rightarrow>
                    if w = ''all'' then (if as \<noteq> [] \<and> (hd as = ''y'' \<or> hd as = ''Y'') then [] else ws)
                    else if atoi w > 0
                    then (if as \<noteq> [] \<and> (take 1 (hd as) = ''y'' \<or> take 1 (hd as) = ''Y'')
                          then spec_remove (atoi w) ws else ws)
                    else ws)
          else ws)"

text \<open>Whether a command asks, and the run of the program over its lines.\<close>

definition spec_asks :: "string list \<Rightarrow> bool" where
  "spec_asks toks =
     (case toks of cmd # w # _ \<Rightarrow> cmd = ''remove'' \<and> (w = ''all'' \<or> 0 < atoi w) | _ \<Rightarrow> False)"

fun spec_run :: "string list list \<Rightarrow> string list \<Rightarrow> string list \<Rightarrow> string list" where
  "spec_run [] as ws = ws"
| "spec_run (toks # rest) as ws =
     (if toks \<noteq> [] \<and> hd toks = ''exit'' then ws
      else spec_run rest (if spec_asks toks then tl as else as) (spec_words toks as ws))"

lemma holds_size: "holds_words c ws \<Longrightarrow> cl_size c = int (length ws)"
  by (auto simp: holds_words_def lrep_def cl_size_def dest!: list_rep_size) (metis length_map)

lemma push_word_result:
  assumes "env_good env" "holds_words c ws"
  shows "\<exists>c1. push_word env w c = Inr (0, c1) \<and> holds_words c1 (w # ws) \<and> cl_run c1 = cl_run c \<and>
    cl_answers c1 = cl_answers c"
proof -
  have fresh: "lfresh (cl_list c) (env_addr env (fst (cl_list c)))"
    using assms by (auto simp: env_good_def holds_words_def lrep_def lfresh_def)
  obtain s1 where s1: "stack_push (Some (env_addr env (fst (cl_list c)))) (cl_list c) (Some w) = Inr (0, s1)"
    "lrep s1 (Some w # map Some ws)"
    using ms.ins_ok [OF _ fresh, of "map Some ws" "Some w"] assms(2) by (auto simp: holds_words_def)
  have "env_ok env n" for n using assms(1) by (simp add: env_good_def)
  then show ?thesis
    using s1 by (auto simp: push_word_def stack_push_def holds_words_def count_malloc_def)
qed

lemma holds_malloc [simp]:
  "holds_words (count_malloc c) ws = holds_words c ws" "cl_run (count_malloc c) = cl_run c"
  "cl_answers (count_malloc c) = cl_answers c" "cl_size (count_malloc c) = cl_size c"
  "cl_mallocs (count_malloc c) = Suc (cl_mallocs c)"
  by (simp_all add: holds_words_def count_malloc_def cl_size_def)

lemma holds_say [simp]:
  "holds_words (say s c) ws = holds_words c ws" "cl_run (say s c) = cl_run c"
  "cl_answers (say s c) = cl_answers c" "cl_size (say s c) = cl_size c"
  by (simp_all add: holds_words_def say_def cl_size_def)

lemma add_command_result:
  assumes "env_good env" "holds_words c ws"
  shows "\<exists>c1. add_command env rest c = Inr c1 \<and> holds_words c1 (rev (words delims rest) @ ws) \<and> cl_run c1 = cl_run c"
  using assms(2)
proof (induction rest arbitrary: c ws rule: measure_induct_rule [of length])
  case (less rest)
  show ?case
  proof (cases "strtok delims rest")
    case None
    with less.prems show ?thesis
      by (subst add_command.simps) (simp add: words_strtok [of delims rest])
  next
    case (Some p)
    then obtain w rest1 where p: "strtok delims rest = Some (w, rest1)" by (cases p) auto
    have ok: "env_ok env n" for n using assms(1) by (simp add: env_good_def)
    have "holds_words (count_malloc c) ws" using less.prems by simp
    from push_word_result [OF assms(1) this, of w] obtain c1 where
      c1: "push_word env w (count_malloc c) = Inr (0, c1)" "holds_words c1 (w # ws)" "cl_run c1 = cl_run c" by auto
    obtain c2 where "add_command env rest1 c1 = Inr c2" "holds_words c2 (rev (words delims rest1) @ w # ws)"
      "cl_run c2 = cl_run c1"
      using less.IH [OF strtok_shorter [OF p] c1(2)] by blast
    then show ?thesis using p ok c1 by (subst add_command.simps) (simp add: words_strtok [of delims rest])
  qed
qed

lemma madd_copies_result:
  "env_good env \<Longrightarrow> holds_words c ws \<Longrightarrow>
   \<exists>c1. madd_copies env w n c = Inr c1 \<and> holds_words c1 (replicate n w @ ws) \<and> cl_run c1 = cl_run c"
proof (induction n arbitrary: c ws)
  case (Suc n)
  have ok: "env_ok env n" for n using Suc.prems(1) by (simp add: env_good_def)
  have "holds_words (count_malloc c) ws" using Suc.prems by simp
  from push_word_result [OF Suc.prems(1) this, of w] obtain c1 where
    c1: "push_word env w (count_malloc c) = Inr (0, c1)" "holds_words c1 (w # ws)" "cl_run c1 = cl_run c" by auto
  from Suc.IH [OF Suc.prems(1) c1(2)] c1 ok show ?case by (auto simp: replicate_app_Cons_same)
qed auto

lemma madd_words_result:
  assumes "env_good env" "holds_words c ws" "cl_run c"
  shows "\<exists>c1. madd_words env n rest c = Inr c1 \<and>
    holds_words c1 (rev (concat (map (replicate n) (words delims rest))) @ ws) \<and> cl_run c1"
  using assms(2,3)
proof (induction rest arbitrary: c ws rule: measure_induct_rule [of length])
  case (less rest)
  show ?case
  proof (cases "strtok delims rest")
    case None
    with less.prems show ?thesis
      by (subst madd_words.simps) (simp add: words_strtok [of delims rest])
  next
    case (Some p)
    then obtain w rest1 where p: "strtok delims rest = Some (w, rest1)" by (cases p) auto
    obtain c1 where c1: "madd_copies env w n c = Inr c1" "holds_words c1 (replicate n w @ ws)" "cl_run c1"
      using madd_copies_result [OF assms(1) less.prems(1)] less.prems(2) by auto
    obtain c2 where "madd_words env n rest1 c1 = Inr c2" "cl_run c2"
      "holds_words c2 (rev (concat (map (replicate n) (words delims rest1))) @ replicate n w @ ws)"
      using less.IH [OF strtok_shorter [OF p] c1(2,3)] by blast
    then show ?thesis using p c1 less.prems(2)
      by (subst madd_words.simps) (simp add: words_strtok [of delims rest])
  qed
qed

lemma remove_loop_result:
  "holds_words c ws \<Longrightarrow> n \<le> length ws \<Longrightarrow>
   \<exists>c1. remove_loop i n c = Inr c1 \<and> holds_words c1 (drop n ws) \<and> cl_run c1 = cl_run c"
proof (induction n arbitrary: c ws i)
  case (Suc n)
  then obtain w ws1 where ws: "ws = w # ws1" by (cases ws) auto
  then obtain s1 where s1: "stack_pop (cl_list c) = Inr (0, Some (Some w), s1)" "lrep s1 (map Some ws1)"
    using ms.rem_ok [of "cl_list c" "Some w" "map Some ws1"] Suc.prems by (auto simp: holds_words_def)
  let ?c = "say (''list['' @ dec_nat i @ '']='' @ w @ '' is removed'' @ [CHR 0x0A]) (c\<lparr>cl_list := s1\<rparr>)"
  have "holds_words ?c ws1" unfolding holds_say using s1(2) by (simp add: holds_words_def)
  from Suc.IH [OF this, of "Suc i"] Suc.prems ws s1(1) show ?case
    by (auto simp: stack_pop_def)
qed auto

lemma remove_words_result:
  assumes "holds_words c ws"
  shows "\<exists>c1. remove_words n c = Inr c1 \<and> holds_words c1 (spec_remove n ws) \<and> cl_run c1 = cl_run c"
proof (cases "n > int (length ws)")
  case True
  then show ?thesis using assms holds_size [OF assms] by (simp add: remove_words_def spec_remove_def)
next
  case False
  then have "nat n \<le> length ws" by linarith
  from remove_loop_result [OF assms this, of 0] False holds_size [OF assms] show ?thesis
    by (simp add: remove_words_def spec_remove_def)
qed

lemma remove_command_result:
  assumes "env_good env" "holds_words c ws" "\<forall>a \<in> set (cl_answers c). length a \<le> 1"
  shows "\<exists>c1. remove_command ask_c env rest c = Inr c1 \<and>
    holds_words c1 (spec_words (''remove'' # words delims rest) (cl_answers c) ws) \<and> cl_run c1 = cl_run c"
proof (cases "strtok delims rest")
  case None
  then show ?thesis using remove_words_result [OF assms(2), of 1]
    by (simp add: remove_command_def spec_words_def words_strtok [of delims rest])
next
  case (Some p)
  then obtain w rest1 where p: "strtok delims rest = Some (w, rest1)" by (cases p) auto
  have ok: "env_ok env n" for n using assms(1) by (simp add: env_good_def)
  have ws: "words delims rest = w # words delims rest1" by (simp add: words_strtok [of delims rest] p)
  have keep: "holds_words (c1\<lparr>cl_answers := as\<rparr>) vs = holds_words c1 vs" "cl_run (c1\<lparr>cl_answers := as\<rparr>) = cl_run c1"
    "cl_size (c1\<lparr>cl_answers := as\<rparr>) = cl_size c1" for c1 as vs by (simp_all add: holds_words_def cl_size_def)
  have all: "spec_remove (int (length ws)) ws = []" "spec_remove 0 ws = ws" "n \<le> 0 \<Longrightarrow> spec_remove n ws = ws" for n
    by (simp_all add: spec_remove_def)
  define c1 where "c1 = say (prompt_all (cl_size c)) (count_malloc c)"
  define c2 where "c2 = say (prompt_count (atoi w)) (count_malloc c)"
  have h: "holds_words c1 ws" "cl_run c1 = cl_run c" "cl_answers c1 = cl_answers c" "cl_size c1 = int (length ws)"
     "holds_words c2 ws" "cl_run c2 = cl_run c" "cl_answers c2 = cl_answers c"
    using assms(2) holds_size [OF assms(2)] by (simp_all add: c1_def c2_def)
  have rm: "\<exists>d1. remove_words n (d\<lparr>cl_answers := as\<rparr>) = Inr d1 \<and> holds_words d1 (spec_remove n ws) \<and> cl_run d1 = cl_run d"
    if "holds_words d ws" for d n as
    using remove_words_result [of "d\<lparr>cl_answers := as\<rparr>" ws n] that keep by simp
  consider (all) "w = ''all''" | (count) "w \<noteq> ''all''" "atoi w > 0" | (none) "w \<noteq> ''all''" "atoi w \<le> 0" by linarith
  then show ?thesis
  proof cases
    case all
    obtain a as where a: "ask_c AskAll (cl_answers c) = Inr (a, as)"
      "(a = ''y'' \<or> a = ''Y'') = (cl_answers c \<noteq> [] \<and> (hd (cl_answers c) = ''y'' \<or> hd (cl_answers c) = ''Y''))"
      using assms(3) by (cases "cl_answers c") (auto simp: ask_c_def)
    have "remove_command ask_c env rest c =
        remove_words (if a = ''y'' \<or> a = ''Y'' then cl_size c1 else 0) (c1\<lparr>cl_answers := as\<rparr>)"
      using p all ok a(1) h(3) by (simp add: remove_command_def c1_def [symmetric] Let_def)
    moreover have "spec_words (''remove'' # words delims rest) (cl_answers c) ws =
        spec_remove (if a = ''y'' \<or> a = ''Y'' then cl_size c1 else 0) ws"
      unfolding a(2) using ws all \<open>spec_remove (int (length ws)) ws = []\<close> \<open>spec_remove 0 ws = ws\<close> h(4)
      by (simp add: spec_words_def)
    ultimately show ?thesis using rm [OF h(1)] h(2) by simp
  next
    case count
    obtain a as where a: "ask_c AskCount (cl_answers c) = Inr (a, as)"
      "(a \<noteq> ''y'' \<and> a \<noteq> ''Y'') = (\<not> (cl_answers c \<noteq> [] \<and> (take 1 (hd (cl_answers c)) = ''y'' \<or> take 1 (hd (cl_answers c)) = ''Y'')))"
      by (cases "cl_answers c") (auto simp: ask_c_def)
    have "remove_command ask_c env rest c =
        remove_words (if a \<noteq> ''y'' \<and> a \<noteq> ''Y'' then 0 else atoi w) (c2\<lparr>cl_answers := as\<rparr>)"
      using p count ok a(1) h(7) by (simp add: remove_command_def c2_def [symmetric] Let_def)
    moreover have "spec_words (''remove'' # words delims rest) (cl_answers c) ws =
        spec_remove (if a \<noteq> ''y'' \<and> a \<noteq> ''Y'' then 0 else atoi w) ws"
      unfolding a(2) using ws count \<open>spec_remove 0 ws = ws\<close> by (simp add: spec_words_def)
    ultimately show ?thesis using rm [OF h(5)] h(6) by simp
  next
    case none
    have "remove_command ask_c env rest c = remove_words (atoi w) c"
      using p none by (simp add: remove_command_def Let_def)
    moreover have "spec_words (''remove'' # words delims rest) (cl_answers c) ws = spec_remove (atoi w) ws"
      using ws none by (simp add: spec_words_def spec_remove_def)
    ultimately show ?thesis using remove_words_result [OF assms(2)] by simp
  qed
qed

lemma madd_command_result:
  assumes "env_good env" "holds_words c ws" "cl_run c"
  shows "\<exists>c1. madd_command env rest c = Inr c1 \<and>
    holds_words c1 (spec_words (''madd'' # words delims rest) as ws) \<and> cl_run c1"
proof (cases "strtok delims rest")
  case None
  with assms show ?thesis by (simp add: madd_command_def spec_words_def words_strtok [of delims rest])
next
  case (Some p)
  then obtain w rest1 where p: "strtok delims rest = Some (w, rest1)" by (cases p) auto
  from madd_words_result [OF assms, of "nat (atoi w)" rest1] p assms show ?thesis
    by (auto simp: madd_command_def spec_words_def words_strtok [of delims rest] Let_def)
qed

lemma print_command_result:
  assumes "holds_words c ws" "m = CHR ''1'' \<or> m = CHR ''2''"
  shows "\<exists>c1. print_command m c = Some (Inr c1) \<and> holds_words c1 ws \<and> cl_run c1 = cl_run c"
proof -
  obtain xs where xs: "list_rep (fst (cl_list c)) (snd (cl_list c)) xs" "map snd xs = map Some ws"
    using assms(1) by (auto simp: holds_words_def lrep_def)
  have "\<exists>out. list_prt (fst (cl_list c)) (Some (snd (cl_list c))) m = Some (Inr (0, out))"
    using prt_loop_rep [OF _ xs(2)] xs(1) assms(2) by (auto simp: list_prt_def list_rep_def)
  then show ?thesis using assms(1) by (auto simp: print_command_def)
qed

text \<open>What the commands leave as it was: the destroy function of the list, and in most cases the answers.\<close>

definition kept_by :: "cli \<Rightarrow> cli \<Rightarrow> bool" where
  "kept_by c c1 \<longleftrightarrow> cl_left c1 = cl_left c \<and> cl_answers c1 = cl_answers c \<and>
     l_destroy (snd (cl_list c1)) = l_destroy (snd (cl_list c))"

lemma kept_by_refl [simp]: "kept_by c c"
  by (simp add: kept_by_def)

lemma kept_by_trans [trans]: "kept_by c c1 \<Longrightarrow> kept_by c1 c2 \<Longrightarrow> kept_by c c2"
  by (simp add: kept_by_def)

lemma kept_by_updates [simp]:
  "kept_by c (count_malloc c1) = kept_by c c1" "kept_by c (say s c1) = kept_by c c1" "kept_by c (stop c1) = kept_by c c1"
  "kept_by (count_malloc c) c1 = kept_by c c1" "kept_by (say s c) c1 = kept_by c c1"
  by (simp_all add: kept_by_def count_malloc_def say_def stop_def)

lemma rem_next_destroy: "list_rem_next h l e = Inr (rc, d, h1, l1) \<Longrightarrow> l_destroy l1 = l_destroy l"
  by (auto simp: list_rem_next_def and_then_Inr_iff Let_def split: if_splits option.splits)

lemma ins_next_destroy: "list_ins_next m h l e d = Inr (rc, h1, l1) \<Longrightarrow> l_destroy l1 = l_destroy l"
  by (auto simp: list_ins_next_def and_then_Inr_iff Let_def split: if_splits option.splits)

lemma push_word_kept: "push_word env w c = Inr (rc, c1) \<Longrightarrow> kept_by c c1"
  by (auto simp: push_word_def and_then_Inr_iff kept_by_def count_malloc_def dest!: ins_next_destroy)

lemma add_command_kept: "add_command env rest c = Inr c1 \<Longrightarrow> kept_by c c1"
proof (induction env rest c arbitrary: c1 rule: add_command.induct)
  case (1 env rest c)
  show ?case
  proof (cases "strtok delims rest")
    case None
    with "1.prems" show ?thesis by (subst (asm) add_command.simps) simp
  next
    case (Some p)
    then obtain w rest1 where p: "strtok delims rest = Some (w, rest1)" by (cases p) auto
    with "1.prems" obtain rc c2 where c2: "env_ok env (cl_mallocs c)" "push_word env w (count_malloc c) = Inr (rc, c2)"
        "if rc < 0 then c1 = stop c2 else add_command env rest1 c2 = Inr c1"
      by (subst (asm) add_command.simps) (auto simp: and_then_Inr_iff split: if_splits)
    from push_word_kept [OF c2(2)] have "kept_by c c2" by simp
    moreover have "kept_by c2 c1" using c2(3) "1.IH" [OF p refl _ c2(2) refl] c2(1) by (auto split: if_splits)
    ultimately show ?thesis by (rule kept_by_trans)
  qed
qed

lemma madd_copies_kept: "madd_copies env w n c = Inr c1 \<Longrightarrow> kept_by c c1"
proof (induction n arbitrary: c)
  case (Suc n)
  show ?case
  proof (cases "env_ok env (cl_mallocs c)")
    case True
    with Suc.prems obtain rc c2 where c2: "push_word env w (count_malloc c) = Inr (rc, c2)"
        "if rc < 0 then c1 = stop c2 else madd_copies env w n c2 = Inr c1"
      by (auto simp: and_then_Inr_iff split: if_splits)
    from push_word_kept [OF c2(1)] have "kept_by c c2" by simp
    moreover have "kept_by c2 c1" using c2(2) Suc.IH by (auto split: if_splits)
    ultimately show ?thesis by (rule kept_by_trans)
  qed (use Suc.prems in auto)
qed simp

lemma madd_words_kept: "madd_words env n rest c = Inr c1 \<Longrightarrow> kept_by c c1"
proof (induction env n rest c arbitrary: c1 rule: madd_words.induct)
  case (1 env n rest c)
  show ?case
  proof (cases "cl_run c \<and> strtok delims rest \<noteq> None")
    case True
    then obtain w rest1 where p: "strtok delims rest = Some (w, rest1)" by auto
    with "1.prems" True obtain c2 where c2: "madd_copies env w n c = Inr c2" "madd_words env n rest1 c2 = Inr c1"
      by (subst (asm) madd_words.simps) (auto simp: and_then_Inr_iff)
    have "kept_by c2 c1" using "1.IH" [OF _ p refl c2] True by simp
    with madd_copies_kept [OF c2(1)] show ?thesis by (rule kept_by_trans)
  qed (use "1.prems" in \<open>subst (asm) madd_words.simps, auto split: if_splits option.splits\<close>)
qed

lemma madd_command_kept: "madd_command env rest c = Inr c1 \<Longrightarrow> kept_by c c1"
  by (auto simp: madd_command_def Let_def split: option.splits if_splits dest: madd_words_kept)

lemma remove_words_kept: "remove_words n c = Inr c1 \<Longrightarrow> kept_by c c1"
proof -
  have "remove_loop i k c = Inr c1 \<Longrightarrow> kept_by c c1" for i k
  proof (induction i k c rule: remove_loop.induct)
    case (2 i n c)
    then obtain rc w h l where r: "list_rem_next (fst (cl_list c)) (snd (cl_list c)) None = Inr (rc, Some (Some w), h, l)"
      and k: "kept_by (c\<lparr>cl_list := (h, l)\<rparr>) c1"
      by (auto simp: and_then_Inr_iff split: option.splits prod.splits)
    have "kept_by c (c\<lparr>cl_list := (h, l)\<rparr>)" using rem_next_destroy [OF r] by (simp add: kept_by_def)
    with k show ?case by (blast intro: kept_by_trans)
  qed simp
  then show "remove_words n c = Inr c1 \<Longrightarrow> kept_by c c1" by (auto simp: remove_words_def split: if_splits)
qed

text \<open>The answers after a command: one less when it asked.\<close>

definition spec_answers :: "string list \<Rightarrow> string list \<Rightarrow> string list" where
  "spec_answers toks as = (if spec_asks toks then tl as else as)"

definition moved_on :: "string list \<Rightarrow> cli \<Rightarrow> cli \<Rightarrow> bool" where
  "moved_on toks c c1 \<longleftrightarrow> cl_left c1 = cl_left c \<and> cl_answers c1 = spec_answers toks (cl_answers c) \<and>
     l_destroy (snd (cl_list c1)) = l_destroy (snd (cl_list c))"

lemma kept_moved: "kept_by c c1 \<Longrightarrow> \<not> spec_asks toks \<Longrightarrow> moved_on toks c c1"
  by (simp add: kept_by_def moved_on_def spec_answers_def)

lemma ask_c_answers: "ask_c q as = Inr (a, bs) \<Longrightarrow> bs = tl as"
  by (auto simp: ask_c_def split: list.splits question.splits if_splits)

lemma remove_command_moved:
  assumes "remove_command ask_c env rest c = Inr c1" "\<forall>n. env_ok env n"
  shows "moved_on (''remove'' # words delims rest) c c1"
proof (cases "strtok delims rest")
  case None
  then have "kept_by c c1" using assms(1) remove_words_kept by (simp add: remove_command_def)
  then show ?thesis using None by (intro kept_moved) (simp_all add: spec_asks_def words_strtok [of delims rest])
next
  case (Some p)
  then obtain w rest1 where p: "strtok delims rest = Some (w, rest1)" by (cases p) auto
  have asks: "spec_asks (''remove'' # words delims rest) \<longleftrightarrow> w = ''all'' \<or> 0 < atoi w"
    by (simp add: spec_asks_def words_strtok [of delims rest] p)
  show ?thesis
  proof (cases "w = ''all'' \<or> 0 < atoi w")
    case False
    then have "kept_by c c1" using assms p remove_words_kept by (simp add: remove_command_def Let_def)
    then show ?thesis using False asks by (intro kept_moved) simp_all
  next
    case True
    then obtain q t a bs n where "ask_c q (cl_answers c) = Inr (a, bs)"
        "remove_words n ((say t (count_malloc c))\<lparr>cl_answers := bs\<rparr>) = Inr c1"
      using assms p by (auto simp: remove_command_def Let_def and_then_Inr_iff say_def count_malloc_def split: if_splits)
    then have "kept_by ((say t (count_malloc c))\<lparr>cl_answers := tl (cl_answers c)\<rparr>) c1"
      using remove_words_kept ask_c_answers by blast
    then show ?thesis using True asks by (simp add: moved_on_def spec_answers_def kept_by_def say_def count_malloc_def)
  qed
qed

text \<open>One line.\<close>

lemma test_line_result:
  assumes "env_good env" and "holds_words c ws" and "cl_run c"
    and "\<forall>a \<in> set (cl_answers c). length a \<le> 1"
    and "words delims line = [] \<or> hd (words delims line) \<noteq> ''udp''"
  shows "\<exists>c1. test_line env line c = Some (Inr c1) \<and>
    holds_words c1 (spec_words (words delims line) (cl_answers c) ws) \<and>
    cl_run c1 = (words delims line = [] \<or> hd (words delims line) \<noteq> ''exit'')"
proof (cases "strtok delims line")
  case None
  with assms show ?thesis by (simp add: test_line_def spec_words_def words_strtok [of delims line])
next
  case (Some p)
  then obtain cmd rest where p: "strtok delims line = Some (cmd, rest)" by (cases p) auto
  have ws: "words delims line = cmd # words delims rest" by (simp add: words_strtok [of delims line] p)
  have nudp: "cmd \<noteq> ''udp''" using assms(5) ws by simp
  have st: "holds_words (stop c) ws" "\<not> cl_run (stop c)" using assms(2) by (simp_all add: stop_def holds_words_def)
  consider "cmd = ''remove''" | "cmd = ''add''" | "cmd = ''madd''" | "cmd = ''print''" | "cmd = ''print2''" | "cmd = ''exit''"
    | (other) "cmd \<noteq> ''remove''" "cmd \<noteq> ''add''" "cmd \<noteq> ''madd''" "cmd \<noteq> ''print''" "cmd \<noteq> ''print2''" "cmd \<noteq> ''exit''"
    by argo
  then show ?thesis
  proof cases
    case 1
    then show ?thesis using remove_command_result [OF assms(1,2,4), of rest] assms(3) p ws
      by (auto simp: test_line_def)
  next
    case 2
    then show ?thesis using add_command_result [OF assms(1,2), of rest] assms(3) p ws
      by (auto simp: test_line_def spec_words_def)
  next
    case 3
    then show ?thesis using madd_command_result [OF assms(1-3), of rest "cl_answers c"] p ws
      by (auto simp: test_line_def)
  next
    case 4
    then show ?thesis using print_command_result [OF assms(2), of "CHR ''1''"] assms(3) p ws
      by (auto simp: test_line_def spec_words_def)
  next
    case 5
    then show ?thesis using print_command_result [OF assms(2), of "CHR ''2''"] assms(3) p ws
      by (auto simp: test_line_def spec_words_def)
  next
    case 6
    then show ?thesis using st p ws by (auto simp: test_line_def spec_words_def)
  next
    case other
    then show ?thesis using nudp assms(2,3) p ws
      by (auto simp: test_line_def spec_words_def)
  qed
qed

lemma test_line_moved:
  assumes "test_line env line c = Some (Inr c1)" "\<forall>n. env_ok env n"
    and "words delims line = [] \<or> hd (words delims line) \<noteq> ''udp''"
  shows "moved_on (words delims line) c c1"
proof (cases "strtok delims line")
  case None
  then show ?thesis using assms(1) by (simp add: test_line_def moved_on_def spec_answers_def spec_asks_def words_strtok [of delims line])
next
  case (Some p)
  then obtain cmd rest where p: "strtok delims line = Some (cmd, rest)" by (cases p) auto
  have ws: "words delims line = cmd # words delims rest" by (simp add: words_strtok [of delims line] p)
  show ?thesis
  proof (cases "cmd = ''remove''")
    case True
    then show ?thesis using assms(1,2) p ws by (auto simp: test_line_def intro: remove_command_moved)
  next
    case False
    have udp: "cmd \<noteq> ''udp''" using assms(3) ws by simp
    have pr: "kept_by c c1" if "print_command m c = Some (Inr c1)" for m
      using that by (auto simp: print_command_def run_then_Some_Inr)
    consider "cmd = ''add''" | "cmd = ''madd''" | "cmd = ''print''" | "cmd = ''print2''"
      | (other) "cmd \<noteq> ''add''" "cmd \<noteq> ''madd''" "cmd \<noteq> ''print''" "cmd \<noteq> ''print2''"
      by argo
    then have "kept_by c c1"
    proof cases
      case 1
      then show ?thesis using assms(1) p by (simp add: test_line_def add_command_kept)
    next
      case 2
      then show ?thesis using assms(1) p by (simp add: test_line_def madd_command_kept)
    next
      case 3
      then show ?thesis using assms(1) p pr by (simp add: test_line_def)
    next
      case 4
      then show ?thesis using assms(1) p pr by (simp add: test_line_def)
    next
      case other
      have branches: "(if e then Some (Inr (stop c)) else if f then Some (Inr c) else if g then Some (Inr (say t c))
          else if h then Some (Inr c) else if i then Some (Inr c) else Some (Inr (say u c))) = Some (Inr c1) \<Longrightarrow> kept_by c c1"
        for e f g h i t u by (auto split: if_split_asm)
      note run = assms(1) [unfolded test_line_def p option.case prod.case if_not_P [OF False] if_not_P [OF udp]
        if_not_P [OF other(1)] if_not_P [OF other(2)] if_not_P [OF other(3)] if_not_P [OF other(4)]]
      from run show ?thesis by (rule branches)
    qed
    moreover have "\<not> spec_asks (words delims line)" using False by (simp add: ws spec_asks_def split: list.split)
    ultimately show ?thesis by (rule kept_moved)
  qed
qed

lemma start_holds: "holds_words (start_cli as) []" "cl_run (start_cli as)" "cl_answers (start_cli as) = as"
  by (auto simp: holds_words_def start_cli_def lrep_def intro!: exI [of _ "[]"] list_init_rep)

text \<open>All lines.\<close>

lemma test_lines_result:
  assumes "env_good env" "holds_words c ws" "cl_run c" "\<forall>a \<in> set (cl_answers c). length a \<le> 1"
    and "\<forall>l \<in> set lines. words delims l = [] \<or> hd (words delims l) \<noteq> ''udp''"
  shows "\<exists>c1. test_lines env lines c = Some (Inr c1) \<and> cl_left c1 = cl_left c \<and>
    holds_words c1 (spec_run (map (words delims) lines) (cl_answers c) ws) \<and>
    l_destroy (snd (cl_list c1)) = l_destroy (snd (cl_list c))"
  using assms(2-5)
proof (induction lines arbitrary: c ws)
  case (Cons l ls)
  let ?toks = "words delims l"
  have udp: "?toks = [] \<or> hd ?toks \<noteq> ''udp''" using Cons.prems(4) by simp
  obtain c1 where c1: "test_line env l c = Some (Inr c1)" "holds_words c1 (spec_words ?toks (cl_answers c) ws)"
      "cl_run c1 = (?toks = [] \<or> hd ?toks \<noteq> ''exit'')"
    using test_line_result [OF assms(1) Cons.prems(1-3) udp] by blast
  have "\<forall>n. env_ok env n" using assms(1) by (simp add: env_good_def)
  from test_line_moved [OF c1(1) this udp] have m: "cl_left c1 = cl_left c"
      "cl_answers c1 = spec_answers ?toks (cl_answers c)" "l_destroy (snd (cl_list c1)) = l_destroy (snd (cl_list c))"
    by (simp_all add: moved_on_def)
  have go: "test_lines env (l # ls) c = test_lines env ls c1" using Cons.prems(2) c1(1) by simp
  show ?case
  proof (cases "cl_run c1")
    case False
    have "test_lines env ls c1 = Some (Inr c1)" using False by (cases ls) simp_all
    moreover have "spec_words ?toks (cl_answers c) ws = ws"
      using False c1(3) by (cases ?toks) (simp_all add: spec_words_def)
    ultimately show ?thesis using go False c1(2,3) m by simp
  next
    case True
    have "\<forall>a \<in> set (cl_answers c1). length a \<le> 1"
      using Cons.prems(3) m(2) set_drop_subset [of 1 "cl_answers c"] by (auto simp: spec_answers_def drop_Suc)
    with Cons.IH [OF c1(2) True] Cons.prems(4) m go True c1(3) show ?thesis
      by (auto simp: spec_answers_def)
  qed
qed simp

section \<open>Properties\<close>

text \<open>
  C19. The program of MyTestMain01.cpp under these conditions: every malloc succeeds (and returns fresh
  memory), every answer to its questions has at most one character (a longer answer to "remove all"
  overflows the two bytes given to scanf), and no line is a udp command. Then, run on any such lines and
  answers, it does to its linked list what the specification does to a list of words, command after
  command up to "exit" or the end of the input; it runs without a fault, returns 0, and hands exactly the
  words that are left to the destroy function, in their order.
\<close>

theorem test_main_refines:
  assumes "env_good env" and "\<forall>a \<in> set answers. length a \<le> 1"
    and "\<forall>l \<in> set lines. words delims l = [] \<or> hd (words delims l) \<noteq> ''udp''"
  shows "\<exists>c. test_main env answers lines =
    Some (Inr (0, c, map Some (spec_run (map (words delims) lines) answers []))) \<and> holds_words c []"
proof -
  obtain c where c: "test_lines env lines (start_cli answers) = Some (Inr c)" "\<not> cl_left c" "l_destroy (snd (cl_list c))"
      "holds_words c (spec_run (map (words delims) lines) answers [])"
    using test_lines_result [OF assms(1) start_holds(1,2), of answers lines] assms(2,3) start_holds(3)
    by (auto simp: start_cli_def list_init_def)
  obtain xs where xs: "list_rep (fst (cl_list c)) (snd (cl_list c)) xs"
      "map snd xs = map Some (spec_run (map (words delims) lines) answers [])" "finite (dom (fst (cl_list c)))"
    using c(4) by (auto simp: holds_words_def lrep_def)
  define h where "h = (\<lambda>a. if a \<in> set (addrs xs) then None else fst (cl_list c) a)"
  define l where "l = (snd (cl_list c))\<lparr>l_size := 0, l_head := None, l_tail := None\<rparr>"
  have d: "list_destroy (fst (cl_list c)) (snd (cl_list c)) = Inr (map snd xs, h, l)"
    using list_destroy_rep [OF xs(1)] c(3) by (simp add: h_def l_def)
  have "dom h \<subseteq> dom (fst (cl_list c))" by (auto simp: h_def split: if_splits)
  then have "lrep (h, l) []" using xs(3) by (auto simp: lrep_def l_def list_rep_Nil intro: finite_subset)
  then have "holds_words (c\<lparr>cl_list := (h, l)\<rparr>) []" by (simp add: holds_words_def)
  moreover have "test_main env answers lines = Some (Inr (0, c\<lparr>cl_list := (h, l)\<rparr>, map snd xs))"
    using assms(1) c(1,2) d by (simp add: test_main_def env_good_def)
  ultimately show ?thesis unfolding xs(2) by blast
qed

definition good_env :: env where
  "good_env = \<lparr>env_ok = (\<lambda>_. True), env_addr = least_free\<rparr>"

lemma good_env_good: "env_good good_env"
  using least_free_fresh by (simp add: env_good_def good_env_def malloc_ok_def)

theorem test_main_refines_witness:
  "\<exists>c. test_main good_env [''y''] [''add a b c'', ''madd 2 d'', ''remove 1'', ''print'', ''exit'', ''add e''] =
     Some (Inr (0, c, [Some ''d'', Some ''c'', Some ''b'', Some ''a'']))"
proof -
  let ?ls = "[''add a b c'', ''madd 2 d'', ''remove 1'', ''print'', ''exit'', ''add e'']"
  have "spec_run (map (words delims) ?ls) [''y''] [] = [''d'', ''c'', ''b'', ''a'']" by code_simp
  moreover have "list_all (\<lambda>l. words delims l = [] \<or> hd (words delims l) \<noteq> ''udp'') ?ls" by code_simp
  ultimately show ?thesis
    using test_main_refines [OF good_env_good, of "[''y'']" ?ls] by (auto simp: list_all_iff)
qed

text \<open>The "connect" and "disconnect" commands never reach the service with a real address: the
  word behind -ip is tested for being -port, so a connection is only made to the address
  "-port", and every other line is answered with the error message, ignored or undefined.
\<close>

lemma udp_target_quiet:
  assumes "udp_target env port rest c = (r, c1)"
  shows "cl_udp c1 = cl_udp c \<and> (\<forall>ip p r2. r = Some (ip, p, r2) \<longrightarrow> ip = None \<or> ip = Some ''-port'' \<or> p = port)"
  using assms by (auto simp: udp_target_def count_malloc_def Let_def split: option.splits if_splits prod.splits)

theorem udp_connects_to_port_option:
  assumes "udp_client env rest c = Inr (go, c1)"
  shows "cl_udp c1 = cl_udp c \<or>
    (\<exists>port. 1 \<le> port \<and> port \<le> 65535 \<and> (cl_udp c1 = cl_udp c @ [Connected ''-port'' port] \<or>
                                          cl_udp c1 = cl_udp c @ [Disconnected ''-port'' port]))"
proof (cases "strtok delims rest")
  case None
  with assms show ?thesis by (simp add: udp_client_def)
next
  case (Some p)
  then obtain action r1 where p: "strtok delims rest = Some (action, r1)" by (cases p) auto
  show ?thesis
  proof (cases "action = ''connect'' \<or> action = ''disconnect''")
    case False
    with assms p show ?thesis by (simp add: udp_client_def unsupported_def say_def) auto
  next
    case True
    define init where "init = (if action = ''connect'' then Some (-1 :: int) else None)"
    obtain res d1 where u: "udp_target env init r1 c = (res, d1)" by (cases "udp_target env init r1 c") auto
    note q = udp_target_quiet [OF u]
    consider "res = None" | ip r2 where "res = Some (ip, None, r2)" | ip port r2 where "res = Some (ip, Some port, r2)"
      by (metis option.exhaust prod_cases3)
    then show ?thesis
    proof cases
      case 1
      with assms p u True q show ?thesis by (simp add: udp_client_def init_def [symmetric])
    next
      case 2
      with assms p u True show ?thesis by (simp add: udp_client_def init_def [symmetric])
    next
      case 3
      note e = assms [unfolded udp_client_def p option.case prod.case init_def [symmetric] u 3 if_P [OF True]]
      show ?thesis
      proof (cases "ip = None \<or> \<not> port_ok port")
        case True
        with e q show ?thesis by (auto simp: say_def)
      next
        case False
        then have "ip = Some ''-port''" "1 \<le> port" "port \<le> 65535"
          using q 3 by (auto simp: port_ok_def init_def split: if_splits)
        with e q False show ?thesis by (intro disjI2 exI [of _ port]) (cases "action = ''connect''"; auto)
      qed
    qed
  qed
qed

definition fixed_env :: env where
  "fixed_env = \<lparr>env_ok = (\<lambda>_. True), env_addr = (\<lambda>_. 0)\<rparr>"

definition connected :: "udp_event list \<Rightarrow> bool" where
  "connected es = (case es of [Connected _ _] \<Rightarrow> True | _ \<Rightarrow> False)"

theorem udp_connects_to_port_option_witness:
  "\<exists>go c port. udp_client fixed_env ''connect -ip -port 80'' (start_cli []) = Inr (go, c) \<and>
     cl_udp c = [Connected ''-port'' port]"
proof -
  define r where "r = udp_client fixed_env ''connect -ip -port 80'' (start_cli [])"
  have t: "case r of Inl e \<Rightarrow> False | Inr p \<Rightarrow> connected (cl_udp (snd p))" unfolding r_def by code_simp
  then obtain go c where r: "r = Inr (go, c)" by (cases r) auto
  have e: "cl_udp (start_cli []) = []" by (simp add: start_cli_def)
  have "connected (cl_udp c)" using t by (simp add: r)
  with udp_connects_to_port_option [OF r [unfolded r_def]] show ?thesis
    unfolding r [unfolded r_def] e by (auto simp: connected_def)
qed

text \<open>"disconnect" from a real address reads the port variable of its block, which has no value.\<close>

theorem disconnect_undefined:
  assumes "words delims rest = ''disconnect'' # ''-ip'' # a # ws" and "a \<noteq> ''-port''" and "env_ok env (cl_mallocs c)"
  shows "udp_client env rest c = Inl Uninitialised"
proof -
  have step: "\<exists>r'. strtok delims r = Some (x, r') \<and> words delims r' = xs" if "words delims r = x # xs" for r x xs
    using that words_strtok [of delims r] by (cases "strtok delims r") auto
  obtain r1 where r1: "strtok delims rest = Some (''disconnect'', r1)" "words delims r1 = ''-ip'' # a # ws"
    using step [OF assms(1)] by blast
  obtain r2 where r2: "strtok delims r1 = Some (''-ip'', r2)" "words delims r2 = a # ws" using step [OF r1(2)] by blast
  obtain r3 where r3: "strtok delims r2 = Some (a, r3)" using step [OF r2(2)] by blast
  have "udp_target env None r1 c = (Some (Some a, None, r3), count_malloc c)"
    using r2(1) r3 assms(2,3) by (simp add: udp_target_def)
  then show ?thesis using r1(1) by (simp add: udp_client_def)
qed

theorem disconnect_undefined_witness:
  "udp_client good_env ''disconnect -ip 10.0.0.1 -port 80'' (start_cli []) = Inl Uninitialised"
proof -
  have "words delims ''disconnect -ip 10.0.0.1 -port 80'' = [''disconnect'', ''-ip'', ''10.0.0.1'', ''-port'', ''80'']"
    "''10.0.0.1'' \<noteq> ''-port''" by code_simp+
  then show ?thesis by (rule disconnect_undefined) (simp add: good_env_def)
qed

text \<open>
  In FileTransMain every "remove" with an argument that asks back is undefined: the scanf_s
  calls for the answer pass no buffer size.
\<close>

theorem cli_remove_undefined:
  assumes "words delims line = ''remove'' # w # ws" and "w = ''all'' \<or> 0 < atoi w" and "env_ok env (cl_mallocs c)"
  shows "cli_line env line c = Inl Uninitialised"
proof -
  obtain rest where r: "strtok delims line = Some (''remove'', rest)" "words delims rest = w # ws"
    using assms(1) words_strtok [of delims line] by (cases "strtok delims line") auto
  then obtain rest1 where "strtok delims rest = Some (w, rest1)"
    using words_strtok [of delims rest] by (cases "strtok delims rest") auto
  with r assms show ?thesis by (auto simp: cli_line_def remove_command_def ask_s_def Let_def)
qed

theorem cli_remove_undefined_witness:
  "cli_line good_env ''remove 2'' (start_cli []) = Inl Uninitialised"
proof -
  have "words delims ''remove 2'' = [''remove'', ''2'']" "0 < atoi ''2''" by code_simp+
  then show ?thesis using cli_remove_undefined [of "''remove 2''" "''2''" "[]"] by (simp add: good_env_def)
qed

end
