(* ===== verification/Poll_Server.thy ===== *)
theory Poll_Server
  imports Prelude
begin

text \<open>
  The transfer server in the first part of Project1/FileTransMain.cpp (disabled by a
  preprocessor condition in this revision): an acceptor thread and a pool of worker threads
  that are woken by real-time signals. Modelled are the multimap that orders the workers by
  their number of clients, the acceptor, the workers with the two reads of a request and the
  command table, and the start-up of main. The operating system supplies the results of its
  calls and the bytes that can be read; here one handler runs at a time (the program itself
  takes no lock around the shared maps; what follows for one of them, and the start-up step by step, is in
  Poll_Threads).
\<close>

section \<open>Data\<close>

record clidata =
  sockfd :: "int option"               \<comment> \<open>\<open>None\<close>: never assigned\<close>
  cl_signum :: "int option"
  cbuf :: string                       \<comment> \<open>512 bytes\<close>
  cl_status :: "int option"
  cl_uid :: "int option"
  regdate :: "string option"
  serviceinfo :: "string option"
  cl_ip :: "string option"
  cl_port :: "string option"

definition MAXDATALENTH :: nat where "MAXDATALENTH = 512"

record fd_per_signum =
  fs_signum :: int
  fs_pid :: int
  fs_uid :: "int option"

text \<open>The pool: a multimap from client counts to workers, in iteration order.\<close>

type_synonym poll_map = "(int \<times> fd_per_signum) list"

text \<open>\<open>multimap::insert\<close> places an element behind those with an equal key.\<close>

fun mm_insert :: "int \<Rightarrow> 'w \<Rightarrow> (int \<times> 'w) list \<Rightarrow> (int \<times> 'w) list" where
  "mm_insert k v [] = [(k, v)]"
| "mm_insert k v ((k', v') # r) = (if k < k' then (k, v) # (k', v') # r else (k', v') # mm_insert k v r)"

text \<open>An iterator into the pool: a position, or the remains of an erased element.\<close>

datatype iter = At nat | Erased

fun iter_next :: "'a list \<Rightarrow> iter \<Rightarrow> fault + nat" where
  "iter_next m (At i) = (if i < length m then Inr (Suc i) else Inl OutOfBounds)"
| "iter_next m Erased = Inl Dangling"

text \<open>The calls of fcntl that \<open>setup_sigio\<close> makes, in order.\<close>

datatype fcntl_call = SetFl int | SetSig int int | SetOwn int int

datatype handler = ProcessLogin | ProcessList | ProcessDown | ProcessQuit

record poll_server =
  poll_map :: poll_map                 \<comment> \<open>PollMap\<close>
  client_list :: "int \<Rightarrow> clidata option"  \<comment> \<open>ClientList\<close>
  processing_map :: "string \<Rightarrow> handler option"  \<comment> \<open>ProcessingMap\<close>
  gpid :: int
  fcntls :: "fcntl_call list"
  closed :: "int list"                 \<comment> \<open>descriptors passed to close\<close>
  printed :: "string list"             \<comment> \<open>what the program prints, call by call\<close>

definition print :: "string \<Rightarrow> poll_server \<Rightarrow> poll_server" where
  "print s G = G\<lparr>printed := printed G @ [s]\<rparr>"

text \<open>What a conversion \<open>%s\<close> and the constructor of std::string read from a buffer.\<close>

definition read_cstr :: "string \<Rightarrow> fault + string" where
  "read_cstr b = (if NUL \<in> set b then Inr (cstr b) else Inl OutOfBounds)"

section \<open>Request handlers\<close>

text \<open>The functions return no value although they are declared to; no caller uses it.\<close>

definition report :: "string \<Rightarrow> clidata \<Rightarrow> poll_server \<Rightarrow> fault + poll_server" where
  "report name d G =
     (case sockfd d of None \<Rightarrow> Inl Uninitialised
      | Some fd \<Rightarrow> and_then (read_cstr (cbuf d)) (\<lambda>s.
          Inr (print (''Read socket('' @ dec_int fd @ '') : '' @ name @ '' : '' @ s @ [CHR 0x0A]) G)))"

fun process :: "handler \<Rightarrow> clidata \<Rightarrow> poll_server \<Rightarrow> fault + poll_server" where
  "process ProcessLogin d G = report ''LoginProcess'' d G"
| "process ProcessList d G = report ''ListProcess'' d G"
| "process ProcessDown d G = report ''DownProcess'' d G"
| "process ProcessQuit d G = and_then (report ''QuitProcess'' d G) (\<lambda>G1.
     case sockfd d of None \<Rightarrow> Inl Uninitialised
     | Some fd \<Rightarrow> Inr (G1\<lparr>closed := closed G1 @ [fd]\<rparr>))"

definition ProtocolFuncRegist :: "poll_server \<Rightarrow> poll_server" where
  "ProtocolFuncRegist G =
     G\<lparr>processing_map := (processing_map G)(''login'' \<mapsto> ProcessLogin, ''list'' \<mapsto> ProcessList,
        ''down'' \<mapsto> ProcessDown, ''quit'' \<mapsto> ProcessQuit)\<rparr>"

section \<open>Binding a descriptor to a worker\<close>

definition setup_sigio ::
  "int \<Rightarrow> int \<times> int \<times> int \<Rightarrow> int \<Rightarrow> int \<Rightarrow> int \<Rightarrow> poll_server \<Rightarrow> int \<times> poll_server"
where
  "setup_sigio rtmin results fd sig_num pid G =
     (let (r1, r2, r3) = results;
          G1 = G\<lparr>fcntls := fcntls G @ [SetFl fd]\<rparr>;
          G2 = (if r1 < 0 then print (''setup nonblocking error:'' @ dec_int fd @ [CHR 0x0A]) G1 else G1);
          G3 = G2\<lparr>fcntls := fcntls G2 @ [SetSig fd (rtmin + sig_num)]\<rparr>
      in if r2 < 0
         then (- 1, print (''Couldn't set signal '' @ dec_int rtmin @ '' on '' @ dec_int fd @ [CHR 0x0A]) G3)
         else let G4 = G3\<lparr>fcntls := fcntls G3 @ [SetOwn fd pid]\<rparr>
              in if r3 < 0
                 then (- 1, print (''Couldn't set owner '' @ dec_int pid @ '' on '' @ dec_int fd @ [CHR 0x0A]) G4)
                 else (0, G4))"

section \<open>The acceptor\<close>

text \<open>The worker with the fewest clients is moved to the place of its new count.\<close>

fun pool_reinsert :: "(int \<times> 'w) list \<Rightarrow> (int \<times> 'w) list" where
  "pool_reinsert [] = []"
| "pool_reinsert ((k, f) # rest) = mm_insert (k + 1) f rest"

text \<open>The text before the number of the worker, as the bytes of the source.\<close>

definition assigned_text :: string where
  "assigned_text = map char_of [0xC7, 0xD2, 0xB4, 0xE7, 0x20, 0xBE, 0xB2, 0xB7, 0xB9, 0xB5, 0xE5,
     0x20, 0xB9, 0xF8, 0xC8, 0xA3, 0x20 :: nat]"

text \<open>One round of the loop of \<open>socket_acceptor\<close>: \<open>ret\<close> is the result of sigwaitinfo, \<open>cli\<close> that of
  accept. The first element of an empty multimap does not exist.\<close>

definition acceptor_round ::
  "int \<Rightarrow> int \<Rightarrow> int \<Rightarrow> int \<Rightarrow> int \<times> int \<times> int \<Rightarrow> poll_server \<Rightarrow> fault + poll_server"
where
  "acceptor_round rtmin signum ret cli results G =
     (let G1 = print (''IO Event OK'' @ [CHR 0x0A])
                 (print (''Wait I/O Event ('' @ dec_int signum @ '')'' @ [CHR 0x0A]) G)
      in if ret = rtmin + signum
         then let G2 = print (''Accept '' @ [CHR 0x0A]) G1
              in if cli < 0 then Inr (print (''Accept error'' @ [CHR 0x0A]) G2)
                 else case poll_map G2 of [] \<Rightarrow> Inl Dangling
                      | (k, f) # _ \<Rightarrow>
                          let G3 = snd (setup_sigio rtmin results cli (fs_signum f) (fs_pid f) G2);
                              G4 = print (assigned_text @ dec_int (fs_signum f) @ [CHR 0x0A]) G3
                          in Inr (G4\<lparr>poll_map := pool_reinsert (poll_map G4)\<rparr>)
         else Inr (print (''Unknown Error : '' @ dec_int ret @ [CHR 0x0A]) G1))"

section \<open>The workers\<close>

record worker =
  wk_signum :: int
  clientnum :: "int option"            \<comment> \<open>never assigned at first\<close>
  datalen :: string                    \<comment> \<open>the four bytes of the int, whatever they were at first\<close>

definition new_worker :: "int \<Rightarrow> string \<Rightarrow> worker" where
  "new_worker signum garbage = \<lparr>wk_signum = signum, clientnum = None, datalen = garbage\<rparr>"

text \<open>An int of four bytes, least significant first, in two's complement.\<close>

definition int_of_bytes :: "string \<Rightarrow> int" where
  "int_of_bytes bs =
     (let v = foldr (\<lambda>b v. of_char b + 256 * v) bs 0
      in if v \<ge> 2 ^ 31 then v - 2 ^ 32 else v)"

text \<open>read on a non-blocking descriptor with the bytes \<open>avail\<close> ready: the result, the buffer and the
  bytes left. The count becomes a size_t; a count beyond SSIZE_MAX is refused, as Linux does.
  With nothing to read the result is 0 or - 1, and the callers only test for a positive one.\<close>

definition sys_read :: "string \<Rightarrow> string \<Rightarrow> int \<Rightarrow> fault + int \<times> string \<times> string" where
  "sys_read buf avail cnt =
     (if cnt < 0 then Inr (- 1, buf, avail)
      else let got = take (nat cnt) avail
           in if length got > length buf then Inl OutOfBounds
              else Inr (int (length got), got @ drop (length got) buf, drop (length got) avail))"

definition mem_copy :: "string \<Rightarrow> string \<Rightarrow> int \<Rightarrow> fault + string" where
  "mem_copy dst src n =
     (if n < 0 \<or> int (length src) < n \<or> int (length dst) < n then Inl OutOfBounds
      else Inr (take (nat n) src @ drop (nat n) dst))"

text \<open>The object \<open>lclidata\<close> of one round, after its buffer was filled.\<close>

definition round_clidata :: "string \<Rightarrow> clidata" where
  "round_clidata b = \<lparr>sockfd = None, cl_signum = None, cbuf = b, cl_status = None, cl_uid = None,
     regdate = None, serviceinfo = None, cl_ip = None, cl_port = None\<rparr>"

text \<open>After a failed read the worker's entry is to be moved to a count one lower. The body of the
  loop erases the element at the iterator, and the loop then increments that iterator.\<close>

definition release_step ::
  "int \<Rightarrow> int option \<Rightarrow> poll_map \<Rightarrow> nat \<Rightarrow> fault + poll_map \<times> int option \<times> iter"
where
  "release_step signum cn m i =
     (let (k, f) = m ! i
      in if fs_signum f = signum
         then let cn' = (if k > 0 then Some (k - 1) else cn)
              in case cn' of None \<Rightarrow> Inl Uninitialised
                 | Some n \<Rightarrow> Inr (mm_insert n f (take i m @ drop (Suc i) m), cn', Erased)
         else Inr (m, cn, At i))"

function release_from ::
  "int \<Rightarrow> int option \<Rightarrow> poll_map \<Rightarrow> nat \<Rightarrow> fault + poll_map \<times> int option"
where
  "release_from signum cn m i =
     (if i < length m
      then and_then (release_step signum cn m i) (\<lambda>(m', cn', it).
             and_then (iter_next m' it) (\<lambda>j. release_from signum cn' m' j))
      else Inr (m, cn))"
  by pat_completeness auto
termination
  by (relation "measure (\<lambda>(_, _, m, i). length m - i)")
    (auto simp: release_step_def Let_def split: prod.splits if_splits option.splits)

declare release_from.simps [simp del]

text \<open>The rest of a round once a request has been read into \<open>buf\<close> and copied to \<open>cb\<close>: an unknown
  descriptor is entered into the client list, and the request is looked up.\<close>

definition dispatch :: "int \<Rightarrow> string \<Rightarrow> string \<Rightarrow> worker \<Rightarrow> poll_server \<Rightarrow> fault + poll_server" where
  "dispatch fd buf cb w G =
     (let l0 = round_clidata cb;
          l = (if client_list G fd = None
               then l0\<lparr>sockfd := Some fd, cl_signum := Some (wk_signum w), cl_status := Some 0\<rparr> else l0);
          G1 = (if client_list G fd = None then G\<lparr>client_list := (client_list G)(fd \<mapsto> l)\<rparr> else G)
      in and_then (read_cstr buf) (\<lambda>cmd.
           case processing_map G1 cmd of
             Some h \<Rightarrow> process h l (print (''Search Function data '' @ [CHR 0x0A]) G1)
           | None \<Rightarrow> Inr (print (''Unknown msg protocol : '' @ cmd @ [CHR 0x0A]) G1)))"

text \<open>The branch that reads a request: \<open>avail\<close> is what is left on the descriptor after the length.\<close>

definition worker_request ::
  "int \<Rightarrow> string \<Rightarrow> worker \<Rightarrow> poll_server \<Rightarrow> fault + poll_server \<times> string"
where
  "worker_request fd avail w G =
     (let len = int_of_bytes (datalen w)
      in if len + 4 \<ge> 2 ^ 31 then Inl SignedOverflow
         else and_then (sys_read (replicate MAXDATALENTH NUL) avail (len + 4)) (\<lambda>(_, buf, rest).
              and_then (mem_copy (replicate MAXDATALENTH NUL) buf len) (\<lambda>cb.
              and_then (dispatch fd buf cb w G) (\<lambda>G1. Inr (G1, rest)))))"

text \<open>One round of the loop of \<open>CliDataProcessing\<close>: \<open>ret\<close> is the result of sigwaitinfo, \<open>fd\<close> the
  descriptor it names and \<open>avail\<close> the bytes that can be read from it.\<close>

definition worker_round ::
  "int \<Rightarrow> int \<Rightarrow> int \<Rightarrow> string \<Rightarrow> worker \<Rightarrow> poll_server \<Rightarrow> fault + worker \<times> poll_server \<times> string"
where
  "worker_round rtmin ret fd avail w G =
     (if ret \<noteq> rtmin + wk_signum w then Inr (w, G, avail)
      else and_then (sys_read (datalen w) avail 4) (\<lambda>(readlen, dl, rest).
        let w1 = w\<lparr>datalen := dl\<rparr>
        in if readlen \<le> 0
           then and_then (release_from (wk_signum w1) (clientnum w1) (poll_map G) 0) (\<lambda>(m, cn).
                  Inr (w1\<lparr>clientnum := cn\<rparr>, G\<lparr>poll_map := m, closed := closed G @ [fd]\<rparr>, rest))
           else and_then (worker_request fd rest w1 G) (\<lambda>(G1, rest1). Inr (w1, G1, rest1))))"

section \<open>Start-up and steps\<close>

text \<open>What the operating system answers while a thread starts.\<close>

record thread_env =
  te_pid :: int                        \<comment> \<open>getpid\<close>
  te_garbage :: string                 \<comment> \<open>the bytes of the uninitialised \<open>datalen\<close>\<close>
  te_socket :: int
  te_bind :: int
  te_listen :: int
  te_fcntl :: "int \<times> int \<times> int"

datatype thread_body = SocketAcceptor | CliDataProcessing

record transfer_server =
  glob :: poll_server
  acceptor :: "int option"             \<comment> \<open>the signal of the acceptor, once started\<close>
  workers :: "int \<Rightarrow> worker option"      \<comment> \<open>by signal number\<close>

text \<open>The acceptor up to its loop; perror appends the text of the system error.\<close>

definition acceptor_start :: "int \<Rightarrow> int \<Rightarrow> thread_env \<Rightarrow> poll_server \<Rightarrow> poll_server" where
  "acceptor_start rtmin signum e G =
     (let G1 = (if te_socket e < 0 then print ''socket error '' G else G);
          G2 = (if te_bind e = - 1 then print ''bind error'' G1 else G1);
          G3 = (if te_listen e = - 1 then print ''listen error'' G2 else G2);
          (r, G4) = setup_sigio rtmin (te_fcntl e) (te_socket e) signum (te_pid e) G3;
          G5 = (if r = - 1 then print (''sigio setting error'' @ [CHR 0x0A]) G4 else G4)
      in G5\<lparr>gpid := te_pid e\<rparr>)"

definition thread_start ::
  "int \<Rightarrow> thread_body \<Rightarrow> int \<Rightarrow> thread_env \<Rightarrow> transfer_server \<Rightarrow> transfer_server"
where
  "thread_start rtmin t signum e S =
     (case t of
        SocketAcceptor \<Rightarrow> S\<lparr>glob := acceptor_start rtmin signum e (glob S), acceptor := Some signum\<rparr>
      | CliDataProcessing \<Rightarrow>
          S\<lparr>glob := (glob S)\<lparr>gpid := te_pid e\<rparr>,
            workers := (workers S)(signum \<mapsto> new_worker signum (te_garbage e))\<rparr>)"

definition thread_num :: nat where "thread_num = 2"

definition thread_list :: "thread_body list" where
  "thread_list = SocketAcceptor # replicate thread_num CliDataProcessing"

text \<open>The loop of main that starts the threads. The vector for their ids has \<open>thread_num\<close> elements, one less
  than there are threads, and the last pthread_create gets an address behind it. main waits until the new
  thread has read its number from the loop variable and has set \<open>gpid\<close>.\<close>

fun start_loop ::
  "int \<Rightarrow> (nat \<Rightarrow> thread_env) \<Rightarrow> thread_body list \<Rightarrow> nat \<Rightarrow> transfer_server \<Rightarrow> fault + transfer_server"
where
  "start_loop rtmin env [] i S = Inr S"
| "start_loop rtmin env (t # ts) i S =
     (if thread_num \<le> i then Inl OutOfBounds
      else let signum = int i + 1;
          S1 = thread_start rtmin t signum (env i) S;
          f = \<lparr>fs_signum = signum, fs_pid = gpid (glob S1), fs_uid = None\<rparr>;
          G = print (''PID is '' @ dec_int (gpid (glob S1)) @ [CHR 0x0A]) (glob S1);
          G1 = (if i \<noteq> 0 then G\<lparr>poll_map := mm_insert 0 f (poll_map G)\<rparr> else G)
      in start_loop rtmin env ts (Suc i) (S1\<lparr>glob := G1\<rparr>))"

definition empty_server :: transfer_server where
  "empty_server = \<lparr>glob = \<lparr>poll_map = [], client_list = (\<lambda>_. None), processing_map = (\<lambda>_. None),
       gpid = 0, fcntls = [], closed = [], printed = []\<rparr>,
     acceptor = None, workers = (\<lambda>_. None)\<rparr>"

definition registered_server :: transfer_server where
  "registered_server = empty_server\<lparr>glob := ProtocolFuncRegist (glob empty_server)\<rparr>"

definition transfer_main :: "int \<Rightarrow> (nat \<Rightarrow> thread_env) \<Rightarrow> fault + transfer_server" where
  "transfer_main rtmin env = start_loop rtmin env thread_list 0 registered_server"

text \<open>A step is one round of a thread's loop. \<open>S0\<close> is the state at the beginning, when threads have been
  started.\<close>

inductive transfer_step :: "int \<Rightarrow> transfer_server \<Rightarrow> transfer_server \<Rightarrow> bool" for rtmin where
  accept: "acceptor S = Some signum \<Longrightarrow> acceptor_round rtmin signum ret cli results (glob S) = Inr G \<Longrightarrow>
    transfer_step rtmin S (S\<lparr>glob := G\<rparr>)"
| work: "workers S i = Some w \<Longrightarrow> worker_round rtmin ret fd avail w (glob S) = Inr (w', G, rest) \<Longrightarrow>
    transfer_step rtmin S (S\<lparr>glob := G, workers := (workers S)(i \<mapsto> w')\<rparr>)"

inductive transfer_reach :: "int \<Rightarrow> transfer_server \<Rightarrow> transfer_server \<Rightarrow> bool" for rtmin S0 where
  start: "transfer_reach rtmin S0 S0"
| step: "transfer_reach rtmin S0 S \<Longrightarrow> transfer_step rtmin S S' \<Longrightarrow> transfer_reach rtmin S0 S'"

section \<open>Assigning clients to the least loaded worker\<close>

text \<open>The contract of a pool that gives a client to a worker with the fewest.\<close>

locale least_loaded =
  fixes ordered :: "'p \<Rightarrow> bool"
    and loads :: "'p \<Rightarrow> (int \<times> 'w) multiset"
    and assign :: "'p \<Rightarrow> 'p"
  assumes assign_ordered: "ordered p \<Longrightarrow> ordered (assign p)"
    and assign_least: "ordered p \<Longrightarrow> loads p \<noteq> {#} \<Longrightarrow>
      \<exists>k w. (k, w) \<in># loads p \<and> (\<forall>x \<in># loads p. k \<le> fst x) \<and>
        loads (assign p) = add_mset (k + 1, w) (loads p - {#(k, w)#})"
begin

definition balanced :: "'p \<Rightarrow> bool" where
  "balanced p \<longleftrightarrow> (\<forall>x \<in># loads p. \<forall>y \<in># loads p. fst x \<le> fst y + 1)"

lemma balanced_assign:
  assumes "ordered p" "loads p \<noteq> {#}" "balanced p"
  shows "balanced (assign p)"
proof -
  obtain k w where kw: "\<forall>x \<in># loads p. k \<le> fst x"
      "loads (assign p) = add_mset (k + 1, w) (loads p - {#(k, w)#})" "(k, w) \<in># loads p"
    using assign_least [OF assms(1,2)] by blast
  have le: "fst x \<le> k + 1" if "x \<in># loads p" for x
    using assms(3) that kw(3) unfolding balanced_def by fastforce
  have new: "x = (k + 1, w) \<or> x \<in># loads p" if "x \<in># loads (assign p)" for x
    using that unfolding kw(2) by (auto dest: in_diffD)
  show ?thesis
    unfolding balanced_def
  proof (intro ballI)
    fix x y assume xy: "x \<in># loads (assign p)" "y \<in># loads (assign p)"
    have "fst x \<le> k + 1" using new [OF xy(1)] le [of x] by (elim disjE) simp_all
    moreover have "k \<le> fst y" using new [OF xy(2)] kw(1) by auto
    ultimately show "fst x \<le> fst y + 1" by simp
  qed
qed

lemma total_assign:
  assumes "ordered p" "loads p \<noteq> {#}"
  shows "sum_mset (image_mset fst (loads (assign p))) = sum_mset (image_mset fst (loads p)) + 1"
proof -
  obtain k w where kw: "(k, w) \<in># loads p"
      "loads (assign p) = add_mset (k + 1, w) (loads p - {#(k, w)#})"
    using assign_least [OF assms] by blast
  from kw(1) obtain M where "loads p = add_mset (k, w) M" by (meson mset_add)
  with kw(2) show ?thesis by simp
qed

lemma members_assign:
  assumes "ordered p" "loads p \<noteq> {#}"
  shows "image_mset snd (loads (assign p)) = image_mset snd (loads p)"
proof -
  obtain k w where kw: "(k, w) \<in># loads p"
      "loads (assign p) = add_mset (k + 1, w) (loads p - {#(k, w)#})"
    using assign_least [OF assms] by blast
  from kw(1) obtain M where "loads p = add_mset (k, w) M" by (meson mset_add)
  with kw(2) show ?thesis by simp
qed

end

lemma mset_mm_insert [simp]: "mset (mm_insert k v m) = add_mset (k, v) (mset m)"
  by (induction k v m rule: mm_insert.induct) auto

lemma set_mm_insert [simp]: "set (mm_insert k v m) = insert (k, v) (set m)"
  by (induction k v m rule: mm_insert.induct) auto

lemma sorted_mm_insert [simp]: "sorted (map fst (mm_insert k v m)) = sorted (map fst m)"
  by (induction k v m rule: mm_insert.induct) (auto simp: less_imp_le intro: order_trans)

lemma pool_reinsert_least:
  assumes "sorted (map fst p)" "mset p \<noteq> {#}"
  shows "\<exists>k w. (k, w) \<in># mset p \<and> (\<forall>x \<in># mset p. k \<le> fst x) \<and>
    mset (pool_reinsert p) = add_mset (k + 1, w) (mset p - {#(k, w)#})"
  using assms by (cases p rule: pool_reinsert.cases) fastforce+

interpretation pool: least_loaded "\<lambda>p. sorted (map fst p)" mset pool_reinsert
proof unfold_locales
  show "sorted (map fst p) \<Longrightarrow> sorted (map fst (pool_reinsert p))" for p :: "(int \<times> 'a) list"
    by (cases p rule: pool_reinsert.cases) auto
qed (rule pool_reinsert_least)

section \<open>What the operations do\<close>

lemma print_fields [simp]:
  "poll_map (print s G) = poll_map G" "client_list (print s G) = client_list G"
  "processing_map (print s G) = processing_map G" "fcntls (print s G) = fcntls G"
  "closed (print s G) = closed G" "gpid (print s G) = gpid G"
  "printed (print s G) = printed G @ [s]"
  by (simp_all add: print_def)

lemma setup_sigio_frame [simp]:
  "poll_map (snd (setup_sigio rtmin res fd s pid G)) = poll_map G"
  "client_list (snd (setup_sigio rtmin res fd s pid G)) = client_list G"
  "processing_map (snd (setup_sigio rtmin res fd s pid G)) = processing_map G"
  by (auto simp: setup_sigio_def Let_def split: prod.splits)

text \<open>How many requests were made to bind a descriptor to a worker's signal (F_SETSIG), failed ones and those for
  descriptors closed since included.\<close>

definition given :: "int \<Rightarrow> int \<Rightarrow> fcntl_call list \<Rightarrow> int" where
  "given rtmin s calls =
     int (length (filter (\<lambda>c. case c of SetSig _ n \<Rightarrow> n = rtmin + s | _ \<Rightarrow> False) calls))"

lemma given_nil [simp]: "given rtmin s [] = 0"
  by (simp add: given_def)

lemma given_append [simp]: "given rtmin s (xs @ ys) = given rtmin s xs + given rtmin s ys"
  by (simp add: given_def)

lemma given_cons [simp]:
  "given rtmin s (SetFl fd # xs) = given rtmin s xs"
  "given rtmin s (SetOwn fd p # xs) = given rtmin s xs"
  "given rtmin s (SetSig fd n # xs) = (if n = rtmin + s then 1 else 0) + given rtmin s xs"
  by (simp_all add: given_def)

lemma setup_sigio_given [simp]:
  "given rtmin s (fcntls (snd (setup_sigio rtmin res fd t pid G))) =
     given rtmin s (fcntls G) + (if s = t then 1 else 0)"
  by (auto simp: setup_sigio_def Let_def split: prod.splits)

lemma report_frame:
  assumes "report n d G = Inr G'"
  shows "poll_map G' = poll_map G \<and> fcntls G' = fcntls G \<and> processing_map G' = processing_map G \<and>
    client_list G' = client_list G"
  using assms by (auto simp: report_def and_then_Inr_iff split: option.splits)

lemma process_frame:
  assumes "process h d G = Inr G'"
  shows "poll_map G' = poll_map G \<and> fcntls G' = fcntls G \<and> processing_map G' = processing_map G \<and>
    client_list G' = client_list G"
proof (cases h)
  case ProcessQuit
  with assms obtain G1 fd where r: "report ''QuitProcess'' d G = Inr G1"
      and G': "G' = G1\<lparr>closed := closed G1 @ [fd]\<rparr>"
    by (auto simp: and_then_Inr_iff split: option.splits)
  from report_frame [OF r] show ?thesis by (simp add: G')
qed (use assms report_frame in simp_all)

lemma dispatch_frame:
  assumes "dispatch fd buf cb w G = Inr G'"
  shows "poll_map G' = poll_map G \<and> fcntls G' = fcntls G \<and> processing_map G' = processing_map G"
proof -
  define l where "l = (if client_list G fd = None
    then (round_clidata cb)\<lparr>sockfd := Some fd, cl_signum := Some (wk_signum w), cl_status := Some 0\<rparr>
    else round_clidata cb)"
  define G1 where "G1 = (if client_list G fd = None then G\<lparr>client_list := (client_list G)(fd \<mapsto> l)\<rparr> else G)"
  have G1: "poll_map G1 = poll_map G \<and> fcntls G1 = fcntls G \<and> processing_map G1 = processing_map G"
    by (simp add: G1_def)
  from assms obtain cmd where
    "(case processing_map G1 cmd of
        Some h \<Rightarrow> process h l (print (''Search Function data '' @ [CHR 0x0A]) G1)
      | None \<Rightarrow> Inr (print (''Unknown msg protocol : '' @ cmd @ [CHR 0x0A]) G1)) = Inr G'"
    unfolding dispatch_def Let_def and_then_Inr_iff l_def [symmetric] G1_def [symmetric] by blast
  then show ?thesis
    using G1 by (cases "processing_map G1 cmd") (auto dest: process_frame)
qed

lemma worker_request_frame:
  assumes "worker_request fd avail w G = Inr (G', rest)"
  shows "poll_map G' = poll_map G \<and> fcntls G' = fcntls G \<and> processing_map G' = processing_map G"
proof -
  from assms have "\<exists>buf cb. dispatch fd buf cb w G = Inr G'"
    by (auto simp: worker_request_def Let_def and_then_Inr_iff split: if_splits)
  then show ?thesis using dispatch_frame by blast
qed

lemma release_from_spec:
  "release_from s cn m i =
     (case filter (\<lambda>x. fs_signum (snd x) = s) (drop i m) of
        [] \<Rightarrow> Inr (m, cn)
      | x # _ \<Rightarrow> Inl (if fst x > 0 \<or> cn \<noteq> None then Dangling else Uninitialised))"
proof (induction s cn m i rule: release_from.induct)
  case (1 s cn m i)
  show ?case
  proof (cases "i < length m \<and> fs_signum (snd (m ! i)) \<noteq> s")
    case True
    then have "release_step s cn m i = Inr (m, cn, At i)"
      by (auto simp: release_step_def split: prod.splits)
    with True 1 show ?thesis
      by (subst release_from.simps) (simp add: Cons_nth_drop_Suc [symmetric])
  next
    case False
    then show ?thesis
      by (subst release_from.simps)
        (auto simp: release_step_def Let_def Cons_nth_drop_Suc [symmetric]
          split: prod.splits option.splits)
  qed
qed

section \<open>The invariant of the server\<close>

definition command_table :: "string \<Rightarrow> handler option" where
  "command_table = [''login'' \<mapsto> ProcessLogin, ''list'' \<mapsto> ProcessList,
     ''down'' \<mapsto> ProcessDown, ''quit'' \<mapsto> ProcessQuit]"

text \<open>The pool holds every worker of \<open>W\<close> once, each with the number of requests to bind a descriptor to its
  signal, in ascending order, and these numbers differ by at most one.\<close>

definition pool_ok :: "int set \<Rightarrow> int \<Rightarrow> poll_server \<Rightarrow> bool" where
  "pool_ok W rtmin G \<longleftrightarrow> finite W \<and>
     sorted (map fst (poll_map G)) \<and>
     mset (map (fs_signum \<circ> snd) (poll_map G)) = mset_set W \<and>
     (\<forall>x \<in> set (poll_map G). fst x = given rtmin (fs_signum (snd x)) (fcntls G)) \<and>
     (\<forall>x \<in> set (poll_map G). \<forall>y \<in> set (poll_map G). fst x \<le> fst y + 1)"

definition threads_ok :: "int set \<Rightarrow> transfer_server \<Rightarrow> bool" where
  "threads_ok W S \<longleftrightarrow> acceptor S = Some 1 \<and> dom (workers S) = W \<and>
     (\<forall>i w. workers S i = Some w \<longrightarrow> wk_signum w = i \<and> clientnum w = None) \<and>
     processing_map (glob S) = command_table"

lemma pool_ok_frame:
  "pool_ok W rtmin G \<Longrightarrow> poll_map G' = poll_map G \<Longrightarrow> fcntls G' = fcntls G \<Longrightarrow> pool_ok W rtmin G'"
  unfolding pool_ok_def by (elim conjE, intro conjI) simp_all

lemma pool_ok_entry:
  assumes "pool_ok W rtmin G" "s \<in> W"
  shows "\<exists>x. filter (\<lambda>x. fs_signum (snd x) = s) (poll_map G) = [x] \<and> fst x = given rtmin s (fcntls G)"
proof -
  let ?xs = "filter (\<lambda>x. fs_signum (snd x) = s) (poll_map G)"
  have fin: "finite W" and ms: "mset (map (fs_signum \<circ> snd) (poll_map G)) = mset_set W"
    using assms(1) by (simp_all add: pool_ok_def)
  have "mset (map (fs_signum \<circ> snd) ?xs) = filter_mset (\<lambda>n. n = s) (mset (map (fs_signum \<circ> snd) (poll_map G)))"
    by (simp add: filter_mset_image_mset image_mset_filter_mset_swap [symmetric] o_def)
  also have "\<dots> = mset_set {n \<in> W. n = s}" unfolding ms by (rule filter_mset_mset_set [OF fin])
  also have "{n \<in> W. n = s} = {s}" using assms(2) by auto
  finally have "mset (map (fs_signum \<circ> snd) ?xs) = {#s#}" by (simp add: o_def)
  then have "length ?xs = 1" by (metis length_map size_mset size_single)
  then obtain x where x: "?xs = [x]" by (auto simp: length_Suc_conv)
  then have "x \<in> set (poll_map G) \<and> fs_signum (snd x) = s" by (auto dest: Cons_eq_filterD [OF sym])
  with assms(1) x show ?thesis by (auto simp: pool_ok_def)
qed

lemma pool_assign_ok:
  assumes ok: "pool_ok W rtmin G" and m: "poll_map G = (k, f) # r"
    and calls: "\<And>s. given rtmin s (fcntls G') = given rtmin s (fcntls G) + (if s = fs_signum f then 1 else 0)"
    and m': "poll_map G' = pool_reinsert (poll_map G)"
  shows "pool_ok W rtmin G'"
proof -
  have sig: "fs_signum (snd x) \<noteq> fs_signum f" if "x \<in> set r" for x
  proof
    assume eq: "fs_signum (snd x) = fs_signum f"
    have "fs_signum f \<in># mset (map (fs_signum \<circ> snd) (poll_map G))" by (simp add: m)
    with ok have "fs_signum f \<in> W" unfolding pool_ok_def by (metis elem_mset_set)
    from pool_ok_entry [OF ok this] that eq show False
      by (auto simp: m filter_eq_Cons_iff filter_empty_conv)
  qed
  have key: "k = given rtmin (fs_signum f) (fcntls G)"
    and keys: "\<forall>x \<in> set r. fst x = given rtmin (fs_signum (snd x)) (fcntls G)"
    using ok by (simp_all add: pool_ok_def m)
  have srt: "sorted (map fst (poll_map G))" using ok by (simp add: pool_ok_def)
  have ne: "mset (poll_map G) \<noteq> {#}" by (simp add: m)
  have bal: "pool.balanced (poll_map G)"
    using ok unfolding pool.balanced_def set_mset_mset pool_ok_def by blast
  have "image_mset snd (mset (poll_map G')) = image_mset snd (mset (poll_map G))"
    unfolding m' by (rule pool.members_assign [OF srt ne])
  then have "image_mset fs_signum (image_mset snd (mset (poll_map G'))) =
      image_mset fs_signum (image_mset snd (mset (poll_map G)))" by simp
  moreover have "image_mset fs_signum (image_mset snd (mset (poll_map G))) = mset_set W"
    using ok by (simp add: pool_ok_def multiset.map_comp)
  ultimately have "mset (map (fs_signum \<circ> snd) (poll_map G')) = mset_set W"
    by (simp add: multiset.map_comp)
  moreover have "sorted (map fst (poll_map G'))"
    unfolding m' by (rule pool.assign_ordered [OF srt])
  moreover have "\<forall>x \<in> set (poll_map G'). \<forall>y \<in> set (poll_map G'). fst x \<le> fst y + 1"
    using pool.balanced_assign [OF srt ne bal] unfolding pool.balanced_def m' by simp
  moreover have "\<forall>x \<in> set (poll_map G'). fst x = given rtmin (fs_signum (snd x)) (fcntls G')"
    using key keys sig by (auto simp: m' m calls)
  moreover have "finite W" using ok by (simp add: pool_ok_def)
  ultimately show ?thesis unfolding pool_ok_def by blast
qed

lemma acceptor_round_ok:
  assumes ok: "pool_ok W rtmin G" and r: "acceptor_round rtmin signum ret cli res G = Inr G'"
  shows "pool_ok W rtmin G' \<and> processing_map G' = processing_map G"
proof (cases "ret = rtmin + signum \<and> 0 \<le> cli")
  case False
  with r have "poll_map G' = poll_map G \<and> fcntls G' = fcntls G \<and> processing_map G' = processing_map G"
    by (auto simp: acceptor_round_def Let_def split: if_splits)
  with ok pool_ok_frame show ?thesis by blast
next
  case True
  then show ?thesis
  proof (cases "poll_map G")
    case Nil
    with True r show ?thesis by (simp add: acceptor_round_def Let_def)
  next
    case (Cons x rest)
    obtain k f where kf: "x = (k, f)" by fastforce
    with Cons True r have G': "poll_map G' = pool_reinsert (poll_map G)"
        "processing_map G' = processing_map G"
        "given rtmin s (fcntls G') = given rtmin s (fcntls G) + (if s = fs_signum f then 1 else 0)" for s
      by (auto simp: acceptor_round_def Let_def)
    from pool_assign_ok [OF ok Cons [unfolded kf] G'(3) G'(1)] G'(2) show ?thesis by simp
  qed
qed

lemma worker_round_hangup:
  assumes "pool_ok W rtmin G" "wk_signum w \<in> W" "clientnum w = None"
  shows "worker_round rtmin (rtmin + wk_signum w) fd [] w G =
    Inl (if given rtmin (wk_signum w) (fcntls G) > 0 then Dangling else Uninitialised)"
proof -
  obtain x where x: "filter (\<lambda>x. fs_signum (snd x) = wk_signum w) (poll_map G) = [x]"
      "fst x = given rtmin (wk_signum w) (fcntls G)"
    using pool_ok_entry [OF assms(1,2)] by blast
  show ?thesis
    by (simp add: worker_round_def sys_read_def release_from_spec x assms(3))
qed

lemma worker_round_ok:
  assumes ok: "pool_ok W rtmin G" and w: "wk_signum w \<in> W" "clientnum w = None"
    and r: "worker_round rtmin ret fd avail w G = Inr (w', G', rest)"
  shows "pool_ok W rtmin G' \<and> processing_map G' = processing_map G \<and>
    wk_signum w' = wk_signum w \<and> clientnum w' = None"
proof (cases "ret = rtmin + wk_signum w \<and> avail \<noteq> []")
  case True
  with r obtain w1 rest0 where
    "worker_request fd rest0 w1 G = Inr (G', rest)" "w' = w1" "wk_signum w1 = wk_signum w"
    "clientnum w1 = clientnum w"
    by (auto simp: worker_round_def sys_read_def Let_def and_then_Inr_iff min_def split: if_splits)
  with worker_request_frame pool_ok_frame [OF ok] w show ?thesis by metis
next
  case False
  with r worker_round_hangup [OF ok w, of fd] ok w show ?thesis
    by (auto simp: worker_round_def split: if_splits)
qed

lemma acceptor_start_fields:
  "poll_map (acceptor_start rtmin signum e G) = poll_map G"
  "processing_map (acceptor_start rtmin signum e G) = processing_map G"
  "given rtmin s (fcntls (acceptor_start rtmin signum e G)) =
     given rtmin s (fcntls G) + (if s = signum then 1 else 0)"
proof -
  define G1 where "G1 = (if te_socket e < 0 then print ''socket error '' G else G)"
  define G2 where "G2 = (if te_bind e = - 1 then print ''bind error'' G1 else G1)"
  define G3 where "G3 = (if te_listen e = - 1 then print ''listen error'' G2 else G2)"
  have G3: "poll_map G3 = poll_map G" "processing_map G3 = processing_map G" "fcntls G3 = fcntls G"
    by (simp_all add: G1_def G2_def G3_def)
  have eq: "acceptor_start rtmin signum e G =
      (let (r, G4) = setup_sigio rtmin (te_fcntl e) (te_socket e) signum (te_pid e) G3
       in (if r = - 1 then print (''sigio setting error'' @ [CHR 0x0A]) G4 else G4)\<lparr>gpid := te_pid e\<rparr>)"
    unfolding acceptor_start_def Let_def G1_def G2_def G3_def ..
  define p where "p = setup_sigio rtmin (te_fcntl e) (te_socket e) signum (te_pid e) G3"
  have p: "poll_map (snd p) = poll_map G" "processing_map (snd p) = processing_map G"
      "given rtmin s (fcntls (snd p)) = given rtmin s (fcntls G) + (if s = signum then 1 else 0)"
    by (simp_all add: p_def G3)
  show "poll_map (acceptor_start rtmin signum e G) = poll_map G"
    "processing_map (acceptor_start rtmin signum e G) = processing_map G"
    "given rtmin s (fcntls (acceptor_start rtmin signum e G)) =
     given rtmin s (fcntls G) + (if s = signum then 1 else 0)"
    unfolding eq p_def [symmetric] using p by (auto simp: split_beta Let_def)
qed

text \<open>The laps of main before the one that leaves the vector start the acceptor and one worker.\<close>

definition first_laps :: "int \<Rightarrow> (nat \<Rightarrow> thread_env) \<Rightarrow> fault + transfer_server" where
  "first_laps rtmin env = start_loop rtmin env (take thread_num thread_list) 0 registered_server"

lemma first_laps_ok:
  "\<exists>S. first_laps rtmin env = Inr S \<and> pool_ok {2} rtmin (glob S) \<and> threads_ok {2} S \<and>
     poll_map (glob S) = [(0, \<lparr>fs_signum = 2, fs_pid = te_pid (env 1), fs_uid = None\<rparr>)]"
proof -
  define G where "G = acceptor_start rtmin 1 (env 0) (glob registered_server)"
  have fr: "poll_map G = [] \<and> processing_map G = command_table \<and> given rtmin 2 (fcntls G) = 0"
    by (simp add: G_def acceptor_start_fields registered_server_def ProtocolFuncRegist_def empty_server_def
        command_table_def)
  define S where "S = registered_server\<lparr>glob := print (''PID is '' @ dec_int (gpid G) @ [CHR 0x0A]) G, acceptor := Some 1\<rparr>"
  have "first_laps rtmin env = start_loop rtmin env [CliDataProcessing] (Suc 0) S"
    by (simp add: first_laps_def thread_list_def thread_num_def numeral_2_eq_2 thread_start_def Let_def G_def S_def)
  then show ?thesis using fr
    by (simp add: thread_start_def Let_def pool_ok_def threads_ok_def registered_server_def empty_server_def
        new_worker_def thread_num_def S_def)
qed

lemma transfer_main_overruns: "transfer_main rtmin env = Inl OutOfBounds"
  by (simp add: transfer_main_def thread_list_def thread_num_def numeral_2_eq_2 Let_def)

lemma transfer_reach_ok:
  assumes "transfer_reach rtmin S0 S" "pool_ok W rtmin (glob S0)" "threads_ok W S0"
  shows "pool_ok W rtmin (glob S) \<and> threads_ok W S"
  using assms
proof (induction rule: transfer_reach.induct)
  case (step S S')
  then have IH: "pool_ok W rtmin (glob S)" "threads_ok W S" by simp_all
  from step.hyps(2) show ?case
  proof (cases rule: transfer_step.cases)
    case (accept signum ret cli results G)
    from acceptor_round_ok [OF IH(1) accept(3)] IH show ?thesis
      by (simp add: accept(1) threads_ok_def)
  next
    case (work i w ret fd avail w' G rest)
    have w: "wk_signum w = i" "i \<in> W" "clientnum w = None"
      using IH(2) work(2) unfolding threads_ok_def by auto
    from worker_round_ok [OF IH(1) _ w(3) work(3)] w IH show ?thesis
      by (auto simp: work(1) threads_ok_def)
  qed
qed simp

section \<open>Properties\<close>

text \<open>
  C20. The acceptor spreads the connections evenly. Take any state in which the workers of a set, each once,
  stand in the pool in the order of their counts, the count of a worker is the number of requests made so far to bind
  a descriptor to its signal (F_SETSIG calls, failed ones and those for descriptors closed since included),
  and the counts differ by at most one. Then all this holds in every state that rounds of the acceptor and of the
  workers lead to. main reaches such a state, with one worker, before its third pthread_create, which it
  gives an address behind the vector of thread ids.\<close>

theorem pool_balanced:
  assumes "pool_ok W rtmin (glob S0)" "threads_ok W S0" "transfer_reach rtmin S0 S"
  shows "pool_ok W rtmin (glob S) \<and>
    (\<exists>S1. start_loop rtmin env (take thread_num thread_list) 0 registered_server = Inr S1 \<and>
       pool_ok {2} rtmin (glob S1) \<and> threads_ok {2} S1) \<and>
    transfer_main rtmin env = Inl OutOfBounds"
  using transfer_reach_ok [OF assms(3,1,2)] first_laps_ok [of rtmin env, unfolded first_laps_def]
    transfer_main_overruns by blast

text \<open>A server with two workers after its first three connections, for the witnesses.\<close>

definition sample_start :: transfer_server where
  "sample_start = \<lparr>glob = (ProtocolFuncRegist (glob empty_server))
       \<lparr>poll_map := [(0, \<lparr>fs_signum = 2, fs_pid = 101, fs_uid = None\<rparr>), (0, \<lparr>fs_signum = 3, fs_pid = 102, fs_uid = None\<rparr>)]\<rparr>,
     acceptor = Some 1,
     workers = [2 \<mapsto> new_worker 2 (replicate 4 NUL), 3 \<mapsto> new_worker 3 (replicate 4 NUL)]\<rparr>"

lemma sample_start_ok: "pool_ok {2, 3} 34 (glob sample_start)" "threads_ok {2, 3} sample_start"
  by (simp_all add: sample_start_def pool_ok_def threads_ok_def new_worker_def ProtocolFuncRegist_def empty_server_def
      command_table_def)
    auto

definition after_accept :: "int \<Rightarrow> transfer_server \<Rightarrow> transfer_server" where
  "after_accept fd S =
     (case acceptor_round 34 1 35 fd (0, 0, 0) (glob S) of Inl _ \<Rightarrow> S | Inr G \<Rightarrow> S\<lparr>glob := G\<rparr>)"

lemma after_accept_reach:
  assumes "transfer_reach 34 sample_start S"
  shows "transfer_reach 34 sample_start (after_accept fd S)"
proof (cases "acceptor_round 34 1 35 fd (0, 0, 0) (glob S)")
  case (Inl e)
  with assms show ?thesis by (simp add: after_accept_def)
next
  case (Inr G)
  have "acceptor S = Some 1" using transfer_reach_ok [OF assms sample_start_ok] by (simp add: threads_ok_def)
  from transfer_step.accept [OF this Inr] have "transfer_step 34 S (S\<lparr>glob := G\<rparr>)" .
  with assms show ?thesis by (simp add: after_accept_def Inr transfer_reach.step)
qed

definition sample_server :: transfer_server where
  "sample_server = after_accept 8 (after_accept 7 (after_accept 6 sample_start))"

lemma sample_reach: "transfer_reach 34 sample_start sample_server"
  unfolding sample_server_def by (intro after_accept_reach transfer_reach.start)

lemma after_accept_pool:
  assumes "0 \<le> fd" "poll_map (glob S) \<noteq> []"
  shows "poll_map (glob (after_accept fd S)) = pool_reinsert (poll_map (glob S))"
    "workers (after_accept fd S) = workers S"
  using assms by (cases "poll_map (glob S)"; simp add: after_accept_def acceptor_round_def Let_def
      split: prod.split)+

lemma pool_reinsert_Nil [simp]: "pool_reinsert m = [] \<longleftrightarrow> m = []"
  by (cases m rule: pool_reinsert.cases) (auto dest: arg_cong [of _ _ set])

lemma sample_pool:
  "map (\<lambda>x. (fst x, fs_signum (snd x))) (poll_map (glob sample_server)) = [(1, 3), (2, 2)]"
  "workers sample_server 2 = Some (new_worker 2 (replicate 4 NUL))"
proof -
  have ne: "poll_map (glob sample_start) \<noteq> []" by (simp add: sample_start_def)
  show "map (\<lambda>x. (fst x, fs_signum (snd x))) (poll_map (glob sample_server)) = [(1, 3), (2, 2)]"
    using ne by (simp add: sample_server_def after_accept_pool) (simp add: sample_start_def)
  show "workers sample_server 2 = Some (new_worker 2 (replicate 4 NUL))"
    using ne by (simp add: sample_server_def after_accept_pool) (simp add: sample_start_def)
qed

lemma sample_given: "given 34 2 (fcntls (glob sample_server)) = 2"
proof -
  have "(2, 2) \<in> set (map (\<lambda>x. (fst x, fs_signum (snd x))) (poll_map (glob sample_server)))"
    unfolding sample_pool by simp
  with transfer_reach_ok [OF sample_reach sample_start_ok] show ?thesis by (auto simp: pool_ok_def)
qed

lemma pool_balanced_witness:
  "pool_ok {2, 3} 34 (glob sample_server) \<and>
   map (\<lambda>x. (fst x, fs_signum (snd x))) (poll_map (glob sample_server)) = [(1, 3), (2, 2)]"
  using pool_balanced [OF sample_start_ok sample_reach] sample_pool(1) by blast

text \<open>A read error or a hang-up of a client always faults: the worker's entry is erased from the
  pool and the loop then increments the iterator of the erased element; for a worker without
  clients the count to insert was never assigned.\<close>

theorem hangup_faults:
  assumes "pool_ok W rtmin (glob S0)" "threads_ok W S0" "transfer_reach rtmin S0 S" "workers S i = Some w"
  shows "worker_round rtmin (rtmin + i) fd [] w (glob S) =
    Inl (if given rtmin i (fcntls (glob S)) > 0 then Dangling else Uninitialised)"
proof -
  have ok: "pool_ok W rtmin (glob S)" "threads_ok W S" using transfer_reach_ok [OF assms(3,1,2)] by simp_all
  with assms(4) have "wk_signum w = i \<and> i \<in> W \<and> clientnum w = None"
    unfolding threads_ok_def by auto
  with worker_round_hangup [OF ok(1), of w fd] show ?thesis by simp
qed

lemma hangup_faults_witness:
  "worker_round 34 36 7 [] (new_worker 2 (replicate 4 NUL)) (glob sample_server) = Inl Dangling"
  using hangup_faults [OF sample_start_ok sample_reach sample_pool(2), of 7] sample_given by simp

section \<open>Requests\<close>

fun handler_name :: "handler \<Rightarrow> string" where
  "handler_name ProcessLogin = ''LoginProcess''"
| "handler_name ProcessList = ''ListProcess''"
| "handler_name ProcessDown = ''DownProcess''"
| "handler_name ProcessQuit = ''QuitProcess''"

text \<open>What serving a request shows and closes.\<close>

definition served :: "int \<Rightarrow> string \<Rightarrow> handler \<Rightarrow> poll_server \<Rightarrow> poll_server" where
  "served fd s h G =
     (let G1 = print (''Read socket('' @ dec_int fd @ '') : '' @ handler_name h @ '' : '' @ s @ [CHR 0x0A])
                 (print (''Search Function data '' @ [CHR 0x0A]) G)
      in if h = ProcessQuit then G1\<lparr>closed := closed G1 @ [fd]\<rparr> else G1)"

definition entered :: "int \<Rightarrow> int \<Rightarrow> string \<Rightarrow> poll_server \<Rightarrow> poll_server" where
  "entered fd signum b G =
     G\<lparr>client_list := (client_list G)(fd \<mapsto> \<lparr>sockfd = Some fd, cl_signum = Some signum, cbuf = b,
        cl_status = Some 0, cl_uid = None, regdate = None, serviceinfo = None, cl_ip = None,
        cl_port = None\<rparr>)\<rparr>"

lemma process_known:
  assumes "sockfd d = None"
  shows "process h d G = Inl Uninitialised"
  using assms by (cases h) (simp_all add: report_def)

lemma process_new:
  assumes "sockfd d = Some fd" "NUL \<in> set (cbuf d)"
  shows "process h d (print (''Search Function data '' @ [CHR 0x0A]) G) = Inr (served fd (cstr (cbuf d)) h G)"
  using assms by (cases h) (simp_all add: report_def read_cstr_def served_def Let_def)

lemma cstr_padded: "cstr (p @ replicate n NUL) = cstr p"
proof (cases "NUL \<in> set p")
  case True
  then show ?thesis unfolding cstr_def by (subst takeWhile_append1) auto
next
  case False
  then have "cstr (p @ replicate n NUL) = p @ takeWhile (\<lambda>c. c \<noteq> NUL) (replicate n NUL)"
    unfolding cstr_def by (subst takeWhile_append2) auto
  with False show ?thesis by (cases n) (simp_all add: cstr_id)
qed

lemma take_padded: "cstr (take n (p @ replicate m NUL)) = cstr (take n p)"
  by (simp add: cstr_padded)

lemma sys_read_fits:
  assumes "0 \<le> n" "length (take (nat n) avail) \<le> length buf"
  shows "sys_read buf avail n =
    Inr (int (length (take (nat n) avail)),
      take (nat n) avail @ drop (length (take (nat n) avail)) buf, drop (nat n) avail)"
proof -
  have "drop (length (take (nat n) avail)) avail = drop (nat n) avail"
    by (simp add: min_def)
  then show ?thesis using assms
    unfolding sys_read_def Let_def by (simp del: length_take)
qed

lemma mem_copy_fits:
  assumes "0 \<le> n" "n \<le> int (length src)" "n \<le> int (length dst)"
  shows "mem_copy dst src n = Inr (take (nat n) src @ drop (nat n) dst)"
  using assms by (simp add: mem_copy_def)

lemma worker_request_dispatch:
  fixes len :: int and avail :: string
  assumes len: "len = int_of_bytes (datalen w)" "0 \<le> len" "len < 512"
    and p: "p = take (nat len + 4) avail" "length p < 512"
  shows "worker_request fd avail w G =
    and_then (dispatch fd (p @ replicate (512 - length p) NUL)
        (take (nat len) (p @ replicate (512 - length p) NUL) @ replicate (512 - nat len) NUL) w G)
      (\<lambda>G1. Inr (G1, drop (nat len + 4) avail))"
proof -
  have n: "nat (len + 4) = nat len + 4" using len by simp
  have "sys_read (replicate MAXDATALENTH NUL) avail (len + 4) =
      Inr (int (length p), p @ replicate (512 - length p) NUL, drop (nat len + 4) avail)"
    using len(2,3) p by (subst sys_read_fits) (simp_all add: n MAXDATALENTH_def)
  moreover have "mem_copy (replicate MAXDATALENTH NUL) (p @ replicate (512 - length p) NUL) len =
      Inr (take (nat len) (p @ replicate (512 - length p) NUL) @ replicate (512 - nat len) NUL)"
    using len p(2) by (subst mem_copy_fits) (simp_all add: MAXDATALENTH_def)
  ultimately show ?thesis
    using len by (simp add: worker_request_def Let_def)
qed

lemma dispatch_cases:
  assumes nul: "NUL \<in> set buf" "NUL \<in> set cb"
  shows "dispatch fd buf cb w G =
    (if client_list G fd = None
     then Inr (case processing_map G (cstr buf) of
         Some h \<Rightarrow> served fd (cstr cb) h (entered fd (wk_signum w) cb G)
       | None \<Rightarrow> print (''Unknown msg protocol : '' @ cstr buf @ [CHR 0x0A]) (entered fd (wk_signum w) cb G))
     else (case processing_map G (cstr buf) of
         Some h \<Rightarrow> Inl Uninitialised
       | None \<Rightarrow> Inr (print (''Unknown msg protocol : '' @ cstr buf @ [CHR 0x0A]) G)))"
proof -
  have r: "read_cstr buf = Inr (cstr buf)" using nul by (simp add: read_cstr_def)
  show ?thesis
  proof (cases "client_list G fd = None")
    case True
    define l where "l = (round_clidata cb)\<lparr>sockfd := Some fd, cl_signum := Some (wk_signum w), cl_status := Some 0\<rparr>"
    have e: "G\<lparr>client_list := (client_list G)(fd \<mapsto> l)\<rparr> = entered fd (wk_signum w) cb G"
      by (simp add: l_def entered_def round_clidata_def)
    have pm: "processing_map (entered fd (wk_signum w) cb G) = processing_map G"
      by (simp add: entered_def)
    have l: "sockfd l = Some fd" "cbuf l = cb" by (simp_all add: l_def round_clidata_def)
    show ?thesis
      unfolding dispatch_def Let_def r l_def [symmetric]
      using True nul(2) by (simp add: e pm process_new [simplified] l split: option.split)
  next
    case False
    then obtain c where "client_list G fd = Some c" by blast
    then show ?thesis
      unfolding dispatch_def Let_def r
      by (simp add: process_known round_clidata_def split: option.split)
  qed
qed

text \<open>
  C35. A request whose announced length is below 512 and of which fewer than 512 bytes arrive is
  read whole (four bytes more than announced). A new descriptor is entered into the client list
  and, when the text read is one of the four commands, served; any other text is reported as
  unknown. A command on a descriptor that is already in the list reads the descriptor of an object
  that was never assigned.\<close>

theorem request_served:
  assumes "len = int_of_bytes (datalen w)" "0 \<le> len" "len < 512"
    and "p = take (nat len + 4) avail" "length p < 512"
    and "cb = take (nat len) (p @ replicate (512 - length p) NUL) @ replicate (512 - nat len) NUL"
  shows "worker_request fd avail w G =
    (if client_list G fd = None
     then Inr (case processing_map G (cstr p) of
           Some h \<Rightarrow> served fd (cstr (take (nat len) p)) h (entered fd (wk_signum w) cb G)
         | None \<Rightarrow> print (''Unknown msg protocol : '' @ cstr p @ [CHR 0x0A]) (entered fd (wk_signum w) cb G),
         drop (nat len + 4) avail)
     else (case processing_map G (cstr p) of
           Some h \<Rightarrow> Inl Uninitialised
         | None \<Rightarrow> Inr (print (''Unknown msg protocol : '' @ cstr p @ [CHR 0x0A]) G,
             drop (nat len + 4) avail)))"
proof -
  define buf where "buf = p @ replicate (512 - length p) NUL"
  have nul: "NUL \<in> set buf" using assms(5) by (simp add: buf_def)
  have nul2: "NUL \<in> set cb" using assms(2,3) by (simp add: assms(6))
  have c: "cstr buf = cstr p" by (simp add: buf_def cstr_padded)
  have cb: "cb = take (nat len) buf @ replicate (512 - nat len) NUL"
    unfolding buf_def by (rule assms(6))
  have d: "cstr cb = cstr (take (nat len) p)"
    unfolding cb cstr_padded buf_def by (simp add: cstr_padded)
  show ?thesis
    unfolding worker_request_dispatch [OF assms(1-5), of fd G] buf_def [symmetric] cb [symmetric]
      dispatch_cases [OF nul nul2, of fd w G] c d
    by (cases "client_list G fd"; cases "processing_map G (cstr p)") simp_all
qed

definition login_request :: string where
  "login_request = ''login'' @ replicate 4 NUL"

lemma request_served_witness:
  "printed (fst (projr (worker_request 7 (login_request @ ''rest'')
      (new_worker 2 (CHR 0x05 # replicate 3 NUL)) (ProtocolFuncRegist (glob empty_server))))) =
   [''Search Function data '' @ [CHR 0x0A], ''Read socket(7) : LoginProcess : login'' @ [CHR 0x0A]]"
proof -
  have a: "5 = int_of_bytes (datalen (new_worker 2 (CHR 0x05 # replicate 3 NUL)))"
    by (simp add: int_of_bytes_def new_worker_def NUL_def numeral_3_eq_3)
  have b: "login_request = take (nat 5 + 4) (login_request @ ''rest'')" by code_simp
  have c: "length login_request < 512" by code_simp
  have e: "cstr login_request = ''login''" "cstr (take (nat 5) login_request) = ''login''" by code_simp+
  have f: "processing_map (ProtocolFuncRegist (glob empty_server)) ''login'' = Some ProcessLogin"
    by (simp add: ProtocolFuncRegist_def)
  have g: "client_list (ProtocolFuncRegist (glob empty_server)) 7 = None"
    "printed (ProtocolFuncRegist (glob empty_server)) = []"
    by (simp_all add: ProtocolFuncRegist_def empty_server_def)
  have d: "dec_int 7 = ''7''" by code_simp
  show ?thesis
    unfolding request_served [OF a _ _ b c refl, simplified, unfolded e f]
    by (simp add: e f g served_def entered_def d Let_def)
qed

text \<open>A negative announced length, or one above 512, always faults, whatever bytes arrive: the
  copy leaves one of the two buffers of 512 bytes.\<close>

theorem request_overflow:
  assumes "int_of_bytes (datalen w) < 0 \<or> 512 < int_of_bytes (datalen w)"
  shows "\<exists>e. e \<in> {OutOfBounds, SignedOverflow} \<and> worker_request fd avail w G = Inl e"
proof (cases "2 ^ 31 \<le> int_of_bytes (datalen w) + 4")
  case True
  then show ?thesis by (simp add: worker_request_def Let_def)
next
  case False
  define len where "len = int_of_bytes (datalen w)"
  have c: "mem_copy (replicate MAXDATALENTH NUL) buf len = Inl OutOfBounds" for buf
    using assms by (auto simp: mem_copy_def len_def MAXDATALENTH_def)
  show ?thesis
    using False unfolding worker_request_def Let_def len_def [symmetric]
    by (cases "sys_read (replicate MAXDATALENTH NUL) avail (len + 4)")
      (auto simp: c sys_read_def Let_def split: if_splits)
qed

lemma request_overflow_witness:
  "\<exists>e. e \<in> {OutOfBounds, SignedOverflow} \<and>
     worker_request 7 [] (new_worker 2 [NUL, NUL, NUL, CHR 0xFF]) (glob empty_server) = Inl e"
  by (rule request_overflow) (simp add: int_of_bytes_def new_worker_def NUL_def)

end
