(* ===== verification/Hash.thy ===== *)
theory Hash
  imports Prelude
begin

text \<open>
  Project1/myhash.c: the hash of a C string over 32-bit words, four bits shifted per character, the
  top four bits folded back, and the remainder by the size of the table. The function hash of
  Project1/MyTestMain01.cpp, a polynomial of the characters in an unsigned long of 32 bits.
\<close>

unbundle bit_operations_syntax

text \<open>A plain char is signed: it is extended to int and then converted to unsigned int.\<close>

definition char_word :: "char \<Rightarrow> 32 word" where
  "char_word c = (let n = of_char c :: int in word_of_int (if n < 128 then n else n - 256))"

text \<open>The body of the loop.\<close>

definition hash_step :: "32 word \<Rightarrow> char \<Rightarrow> 32 word" where
  "hash_step val c =
     (let val1 = push_bit 4 val + char_word c;
          tmp = val1 AND 0xf0000000
      in if tmp \<noteq> 0
         then let val2 = val1 XOR drop_bit 24 tmp in val2 XOR tmp
         else val1)"

text \<open>The loop over the characters up to the NUL of the buffer.\<close>

fun hash_loop :: "32 word \<Rightarrow> string \<Rightarrow> fault + 32 word" where
  "hash_loop val [] = Inl OutOfBounds"
| "hash_loop val (c # cs) = (if c = NUL then Inr val else hash_loop (hash_step val c) cs)"

definition myhash :: "32 word \<Rightarrow> string \<Rightarrow> fault + 32 word" where
  "myhash prime_tabsiz key =
     and_then (hash_loop 0 key) (\<lambda>val.
       if prime_tabsiz = 0 then Inl DivByZero else Inr (val mod prime_tabsiz))"

text \<open>hash of MyTestMain01.cpp (\<open>s.size\<close> stands in the loop without its parentheses): the int \<open>size\<close> is converted to
  unsigned long, and the remainder back to int.\<close>

definition hash :: "string \<Rightarrow> int \<Rightarrow> fault + int" where
  "hash s size' =
     (let seed = 151; h = foldl (\<lambda>h c. h * seed + char_word c) (0 :: 32 word) s; n = word_of_int size'
      in if n = 0 then Inl DivByZero else Inr (sint (h mod n)))"

section \<open>The fold of the top four bits\<close>

lemma top_mask: "(0xf0000000 :: 32 word) = push_bit 28 (mask 4)"
  by (simp add: mask_numeral)

lemma fold_top:
  "(v XOR drop_bit 24 (v AND 0xf0000000)) XOR (v AND 0xf0000000) =
     take_bit 28 v XOR push_bit 4 (drop_bit 28 (v :: 32 word))"
  unfolding top_mask
  by (rule bit_word_eqI) (auto simp: bit_simps dest: bit_imp_le_length)

lemma no_top: "v AND 0xf0000000 = 0 \<Longrightarrow> v = take_bit 28 (v :: 32 word) XOR push_bit 4 (drop_bit 28 v)"
  using fold_top [of v] by simp

lemma hash_step_fold:
  "hash_step val c = take_bit 28 (push_bit 4 val + char_word c) XOR
     push_bit 4 (drop_bit 28 (push_bit 4 val + char_word c))"
  using no_top [of "push_bit 4 val + char_word c"] fold_top [of "push_bit 4 val + char_word c"]
  by (auto simp: hash_step_def Let_def)

lemma hash_step_top: "drop_bit 28 (hash_step val c) = 0"
  unfolding hash_step_fold by (rule bit_word_eqI) (auto simp: bit_simps dest: bit_imp_le_length)

lemma hash_loop_top:
  assumes "hash_loop val s = Inr v" "drop_bit 28 val = 0"
  shows "drop_bit 28 v = 0"
  using assms by (induction val s rule: hash_loop.induct) (auto simp: hash_step_top split: if_splits)

section \<open>A reference on natural numbers\<close>

text \<open>The published algorithm: multiply by 16, add the character modulo \<open>2 ^ 32\<close>, and fold the part
  from \<open>2 ^ 28\<close> upwards back into the bits 4 to 7.\<close>

definition char_nat :: "char \<Rightarrow> nat" where
  "char_nat c = (let n = of_char c in if n < 128 then n else n + (2 ^ 32 - 2 ^ 8))"

definition pjw_step :: "nat \<Rightarrow> char \<Rightarrow> nat" where
  "pjw_step h c = (let x = (16 * h + char_nat c) mod 2 ^ 32
     in (x mod 2 ^ 28) XOR (16 * (x div 2 ^ 28)))"

definition pjw :: "string \<Rightarrow> nat" where
  "pjw s = foldl pjw_step 0 s"

lemma of_char_less: "(of_char c :: nat) < 256"
proof -
  have "of_char c mod 256 < (256 :: nat)" by (rule mod_less_divisor) simp
  then show ?thesis by simp
qed

lemma unat_char_word: "unat (char_word c) = char_nat c"
proof -
  define n :: nat where "n = of_char c"
  have n: "n < 256" "(of_char c :: int) = int n"
    unfolding n_def using of_char_less by (simp_all add: of_nat_of_char)
  have u: "unat (char_word c) = nat ((if int n < 128 then int n else int n - 256) mod 2 ^ 32)"
    by (simp add: char_word_def n Let_def unat_eq_nat_uint uint_word_of_int)
  show ?thesis
  proof (cases "n < 128")
    case True
    then show ?thesis unfolding u by (simp add: char_nat_def n_def [symmetric] Let_def)
  next
    case False
    have "(int n - 256) mod 2 ^ 32 = (int n - 256 + 2 ^ 32) mod 2 ^ 32"
      by (rule mod_add_self2 [symmetric])
    also have "\<dots> = int n - 256 + 2 ^ 32" using False n(1) by (intro mod_pos_pos_trivial) simp_all
    finally have "(int n - 256) mod 2 ^ 32 = int (n + (2 ^ 32 - 2 ^ 8))" by simp
    then show ?thesis unfolding u using False
      by (simp add: char_nat_def n_def [symmetric] Let_def)
  qed
qed

lemma unat_hash_step: "unat (hash_step val c) = pjw_step (unat val) c"
proof -
  define x where "x = push_bit 4 val + char_word c"
  have x: "unat x = (16 * unat val + char_nat c) mod 2 ^ 32"
    by (simp add: x_def push_bit_eq_mult unat_word_ariths unat_char_word mod_simps mult.commute)
  have l: "unat x div 2 ^ 28 < 16" using x by (simp add: less_mult_imp_div_less)
  have "take_bit 32 (push_bit 4 (drop_bit 28 (take_bit 32 (unat x)))) = 16 * (unat x div 2 ^ 28)"
    using l x by (simp add: take_bit_eq_mod push_bit_eq_mult drop_bit_eq_div)
  then have p: "unat (push_bit 4 (drop_bit 28 x)) = 16 * (unat x div 2 ^ 28)"
    by (simp only: unsigned_push_bit_eq unsigned_drop_bit_eq) simp
  have "unat (take_bit 28 x) = unat x mod 2 ^ 28"
    unfolding unsigned_take_bit_eq by (rule take_bit_eq_mod)
  with p have "unat (take_bit 28 x XOR push_bit 4 (drop_bit 28 x)) =
      (unat x mod 2 ^ 28) XOR (16 * (unat x div 2 ^ 28))"
    by (simp only: unsigned_xor_eq)
  then show ?thesis
    unfolding hash_step_fold x_def [symmetric] pjw_step_def Let_def x .
qed

lemma hash_loop_string:
  assumes "NUL \<notin> set s"
  shows "hash_loop val (s @ NUL # rest) = Inr (foldl hash_step val s)"
  using assms by (induction s arbitrary: val) auto

lemma unat_foldl: "unat (foldl hash_step val s) = foldl pjw_step (unat val) s"
  by (induction s arbitrary: val) (simp_all add: unat_hash_step)

lemma foldl_hash_top: "drop_bit 28 val = 0 \<Longrightarrow> drop_bit 28 (foldl hash_step val s) = 0"
  by (induction s arbitrary: val) (simp_all add: hash_step_top)

section \<open>Properties\<close>

text \<open>
  C29. On every string terminated by a NUL and for every table size other than 0, \<open>myhash\<close> returns the
  published hash of the string, modulo the size, without a fault: the folding with masks and shifts
  over 32-bit words equals the arithmetic on natural numbers.\<close>

theorem myhash_pjw:
  assumes "NUL \<notin> set s" "prime_tabsiz \<noteq> 0"
  shows "\<exists>v. myhash prime_tabsiz (s @ NUL # rest) = Inr v \<and> unat v = pjw s mod unat prime_tabsiz"
proof -
  have "unat (foldl hash_step 0 s mod prime_tabsiz) = pjw s mod unat prime_tabsiz"
    by (simp add: unat_mod unat_foldl pjw_def)
  with assms show ?thesis by (simp add: myhash_def hash_loop_string)
qed

lemma myhash_pjw_witness:
  "\<exists>v. myhash 1699 (''key'' @ NUL # []) = Inr v \<and> unat v = pjw ''key'' mod unat (1699 :: 32 word)"
  by (rule myhash_pjw) (simp_all add: NUL_def)

text \<open>The result is below the table size, and the hash before the remainder is below \<open>2 ^ 28\<close>; a size
  of 0 divides by zero, and a buffer without a NUL is read past its end.\<close>

theorem myhash_bounds:
  "(case myhash prime_tabsiz key of
      Inr v \<Rightarrow> v < prime_tabsiz \<and> (\<exists>h. hash_loop 0 key = Inr h \<and> unat h < 2 ^ 28)
    | Inl e \<Rightarrow> e = DivByZero \<and> prime_tabsiz = 0 \<and> NUL \<in> set key \<or> e = OutOfBounds \<and> NUL \<notin> set key)"
proof (cases "NUL \<in> set key")
  case True
  then obtain s rest where k: "key = s @ NUL # rest" "NUL \<notin> set s" by (meson split_list_first)
  have l: "hash_loop 0 key = Inr (foldl hash_step 0 s)" unfolding k(1) by (rule hash_loop_string [OF k(2)])
  have "drop_bit 28 (foldl hash_step 0 s) = 0" by (rule foldl_hash_top) simp
  then have "unat (foldl hash_step 0 s) div 2 ^ 28 = 0"
    by (metis drop_bit_eq_div unat_drop_bit_eq unsigned_0)
  then have "unat (foldl hash_step 0 s) < 2 ^ 28" by (simp add: div_eq_0_iff)
  with l True show ?thesis by (simp add: myhash_def word_mod_less_divisor word_gt_0)
next
  case False
  then have "hash_loop v key = Inl OutOfBounds" for v
    by (induction key arbitrary: v) auto
  with False show ?thesis by (simp add: myhash_def)
qed

text \<open>For a positive size hash is the value of the polynomial of the characters at 151, modulo \<open>2 ^ 32\<close> and then the
  size, and a valid index; a table of negative size gives the value modulo a large number.\<close>

lemma unat_poly:
  "unat (foldl (\<lambda>h c. h * 151 + char_word c) h s) = foldl (\<lambda>h c. h * 151 + char_nat c) (unat h) s mod 2 ^ 32"
proof (induction s rule: rev_induct)
  case Nil
  have "unat h < 2 ^ LENGTH(32)" by (rule unsigned_less)
  then show ?case by simp
next
  case (snoc c s)
  then show ?case by (simp add: unat_word_ariths unat_char_word mod_simps)
qed

theorem hash_polynomial:
  assumes "0 < size'" "size' < 2 ^ 31"
  shows "hash s size' = Inr (int (foldl (\<lambda>h c. h * 151 + char_nat c) 0 s mod 2 ^ 32 mod nat size'))"
proof -
  define n :: "32 word" where "n = word_of_int size'"
  define h :: "32 word" where "h = foldl (\<lambda>h c. h * 151 + char_word c) 0 s"
  have n: "unat n = nat size'" using assms by (simp add: n_def unat_eq_nat_uint uint_word_of_int)
  then have "n \<noteq> 0" using assms by auto
  have m: "unat (h mod n) = foldl (\<lambda>h c. h * 151 + char_nat c) 0 s mod 2 ^ 32 mod nat size'"
    using unat_poly [of 0 s] n by (simp add: unat_mod h_def)
  have "unat (h mod n) < nat size'" unfolding m by (rule mod_less_divisor) (use assms(1) in simp)
  then have "int (unat (h mod n)) < 2 ^ 31" using assms by linarith
  then have "uint (h mod n) < 2 ^ 31" by (simp only: uint_nat)
  moreover have "- (2 ^ 31) \<le> uint (h mod n)" by (rule order_trans [OF _ uint_ge_0]) simp
  ultimately have "signed_take_bit 31 (uint (h mod n)) = uint (h mod n)" by (intro signed_take_bit_int_eq_self)
  then have "sint (h mod n) = int (unat (h mod n))" unfolding sint_uint by (simp only: uint_nat) simp
  with \<open>n \<noteq> 0\<close> m show ?thesis by (simp add: hash_def Let_def n_def [symmetric] h_def [symmetric])
qed

lemma hash_no_table: "hash s 0 = Inl DivByZero"
  by (simp add: hash_def Let_def)

end
