(* ===== verification/Bounce_Screen.thy ===== *)
theory Bounce_Screen
  imports Prelude
begin

text \<open>
  The moving characters of Project1/MThread01.c, MThread02.c and Main01.c: the random start of a
  thread, its motion with the reversal at the borders, what a round of its loop reads from and
  writes to the console, and the title and clearing routines. The results of rand and of the
  console reads are arguments, the console calls are returned in order. MThread01 and Main01 share
  the motion and the start of MThread02 text by text.
\<close>

section \<open>Coordinates and random numbers\<close>

text \<open>SHORT is a signed 16-bit integer; conversions to it wrap around.\<close>

definition to_short :: "int \<Rightarrow> int" where
  "to_short x = (x + 2 ^ 15) mod 2 ^ 16 - 2 ^ 15"

lemma to_short_id [simp]: "- (2 ^ 15) \<le> x \<Longrightarrow> x < 2 ^ 15 \<Longrightarrow> to_short x = x"
  by (simp add: to_short_def)

type_synonym coord = "int \<times> int"

text \<open>The macro getrandom on a result \<open>r\<close> of rand.\<close>

definition getrandom :: "int \<Rightarrow> int \<Rightarrow> int \<Rightarrow> fault + int" where
  "getrandom lo hi r = and_then (checked_mod r ((hi + 1) - lo)) (\<lambda>k. Inr (to_short (k + lo)))"

section \<open>A thread's face\<close>

record bouncer =
  my_cell :: int
  my_attr :: int
  old_cell :: "int option"             \<comment> \<open>\<open>None\<close>: never assigned\<close>
  old_attr :: "int option"
  coords :: coord
  delta :: coord
  old_at :: coord

datatype console_call =
    PutChar int coord                  \<comment> \<open>WriteConsoleOutputCharacter of one character\<close>
  | PutAttr int coord                  \<comment> \<open>WriteConsoleOutputAttribute of one cell\<close>
  | FillChar int int coord             \<comment> \<open>FillConsoleOutputCharacter\<close>
  | Beep int int

text \<open>The start of a thread: \<open>ids\<close> are the three values it reads through \<open>myId\<close>, a char pointer to the shared
  counter (for the seed, the shape and the colour), \<open>rs\<close> the results of rand; the seed is also returned.\<close>

definition bounce_start ::
  "int \<Rightarrow> int \<Rightarrow> int \<times> int \<times> int \<Rightarrow> int \<times> int \<times> int \<times> int \<Rightarrow> fault + int \<times> bouncer"
where
  "bounce_start W H ids rs =
     (let (id1, id2, id3) = ids; (r1, r2, r3, r4) = rs
      in and_then (getrandom 0 (W - 1) r1) (\<lambda>x.
         and_then (getrandom 0 (H - 1) r2) (\<lambda>y.
         and_then (getrandom (- 3) 3 r3) (\<lambda>dx.
         and_then (getrandom (- 3) 3 r4) (\<lambda>dy.
           Inr ((id1 * 3) mod 2 ^ 32,
             \<lparr>my_cell = (if id2 > 16 then 1 else 2), my_attr = and id3 0x0F, old_cell = None,
              old_attr = None, coords = (x, y), delta = (dx, dy), old_at = (0, 0)\<rparr>))))))"

text \<open>The motion: remember the position, advance, turn round at the borders.\<close>

definition bounce_move :: "int \<Rightarrow> int \<Rightarrow> bouncer \<Rightarrow> bouncer \<times> console_call list" where
  "bounce_move W H b =
     (let old = coords b;
          x = to_short (fst (coords b) + fst (delta b));
          y = to_short (snd (coords b) + snd (delta b));
          turn_x = (x < 0 \<or> x \<ge> W);
          turn_y = (y < 0 \<or> y > H);
          dx = (if turn_x then to_short (- fst (delta b)) else fst (delta b));
          dy = (if turn_y then to_short (- snd (delta b)) else snd (delta b))
      in (b\<lparr>coords := (x, y), delta := (dx, dy), old_at := old\<rparr>,
          (if turn_x then [Beep 400 50] else []) @ (if turn_y then [Beep 600 50] else [])))"

text \<open>A console read that fails leaves the variable as it was.\<close>

definition after_read :: "'a option \<Rightarrow> 'a option \<Rightarrow> 'a option" where
  "after_read r v = (case r of None \<Rightarrow> v | Some c \<Rightarrow> Some c)"

text \<open>The comparison of the old cell with the thread's own.\<close>

definition still_there :: "bouncer \<Rightarrow> fault + bool" where
  "still_there b =
     (case old_cell b of None \<Rightarrow> Inl Uninitialised
      | Some c \<Rightarrow>
          if c = my_cell b
          then (case old_attr b of None \<Rightarrow> Inl Uninitialised | Some a \<Rightarrow> Inr (a = my_attr b))
          else Inr False)"

definition blank_cell :: int where "blank_cell = 0x20"

text \<open>A round in MThread01: the attribute is read and written as an attribute.\<close>

definition BounceProc_round ::
  "int \<Rightarrow> int \<Rightarrow> int option \<Rightarrow> int option \<Rightarrow> bouncer \<Rightarrow> fault + bouncer \<times> console_call list"
where
  "BounceProc_round W H rc ra b =
     (let b1 = b\<lparr>old_cell := after_read rc (old_cell b), old_attr := after_read ra (old_attr b)\<rparr>
      in and_then (still_there b1) (\<lambda>there.
           let (b2, beeps) = bounce_move W H b1
           in Inr (b2, (if there then [PutChar blank_cell (old_at b1)] else []) @
                [PutChar (my_cell b1) (coords b1), PutAttr (my_attr b1) (coords b1)] @ beeps)))"

text \<open>A round in MThread02: the character function is used for the attribute too. It fills one byte
  of the two of \<open>oldAttrb\<close>, so that this variable never has a value; writing it puts the
  low byte of \<open>myAttrib\<close> on the screen as a character.\<close>

definition bounceProc_round ::
  "int \<Rightarrow> int \<Rightarrow> int option \<Rightarrow> int option \<Rightarrow> bouncer \<Rightarrow> fault + bouncer \<times> console_call list"
where
  "bounceProc_round W H rc ra b =
     (let b1 = b\<lparr>old_cell := after_read rc (old_cell b)\<rparr>
      in and_then (still_there b1) (\<lambda>there.
           let (b2, beeps) = bounce_move W H b1
           in Inr (b2, (if there then [PutChar blank_cell (old_at b1)] else []) @
                [PutChar (my_cell b1) (coords b1), PutChar (my_attr b1) (coords b1)] @ beeps)))"

text \<open>A round in Main01: as in MThread02, but the attribute variables are single characters.\<close>

definition bounceProc_char_round ::
  "int \<Rightarrow> int \<Rightarrow> int option \<Rightarrow> int option \<Rightarrow> bouncer \<Rightarrow> fault + bouncer \<times> console_call list"
where
  "bounceProc_char_round W H rc ra b =
     (let b1 = b\<lparr>old_cell := after_read rc (old_cell b), old_attr := after_read ra (old_attr b)\<rparr>
      in and_then (still_there b1) (\<lambda>there.
           let (b2, beeps) = bounce_move W H b1
           in Inr (b2, (if there then [PutChar blank_cell (old_at b1)] else []) @
                [PutChar (my_cell b1) (coords b1), PutChar (my_attr b1) (coords b1)] @ beeps)))"

section \<open>Titles and clearing\<close>

text \<open>The conversion \<open>%02d\<close>.\<close>

definition dec_02 :: "int \<Rightarrow> string" where
  "dec_02 i = (if 0 \<le> i \<and> i < 10 then CHR ''0'' # dec_int i else dec_int i)"

definition WriteTitle :: "int \<Rightarrow> fault + string" where
  "WriteTitle n = sprintf_s 80
     (''Threads running: '' @ dec_02 n @ ''.  Press 'A' '' @ ''to start a thread,'Q' to quit.'')"

definition writeTitle :: "int \<Rightarrow> fault + string" where
  "writeTitle n = sprintf_s 200
     (''Threads running: '' @ dec_02 n @ '', Press 'A' to start a thread, '' @
      '''D' to stop a thread, 'Q' to quit.'')"

definition writeTitle_main :: "int \<Rightarrow> fault + string" where
  "writeTitle_main n = sprintf_s 200
     (''Threads running: '' @ dec_02 n @ '', Press 'A' '' @
      ''to start a thread, 'D' to stop a thread, 'Q' to quit.'')"

definition clearScreen :: "int \<Rightarrow> int \<Rightarrow> console_call" where
  "clearScreen W H = FillChar 0x20 (W * H) (0, 0)"

section \<open>Facts about the parts\<close>

lemma length_dec_int: "- (2 ^ 31) \<le> i \<Longrightarrow> i < 2 ^ 31 \<Longrightarrow> length (dec_int i) \<le> 11"
proof -
  assume i: "- (2 ^ 31) \<le> i" "i < 2 ^ 31"
  then have "nat (- i) < 10 ^ 10" "nat i < 10 ^ 10" by auto
  with length_dec_nat_le [of "nat (- i)" 10] length_dec_nat_le [of "nat i" 10]
  show ?thesis by (simp add: dec_int_def)
qed

lemma titles_fit:
  assumes "- (2 ^ 31) \<le> n" "n < 2 ^ 31"
  shows "\<exists>s. WriteTitle n = Inr s" "\<exists>s. writeTitle n = Inr s" "\<exists>s. writeTitle_main n = Inr s"
proof -
  have l: "length (dec_02 n) \<le> 11"
  proof (cases "0 \<le> n \<and> n < 10")
    case True
    then have "dec_02 n = CHR ''0'' # dec_nat (nat n)" and "nat n < 10 ^ 1"
      by (auto simp: dec_02_def dec_int_def)
    with length_dec_nat_le [of "nat n" 1] show ?thesis by simp
  next
    case False
    then show ?thesis using length_dec_int [OF assms] by (auto simp: dec_02_def)
  qed
  show "\<exists>s. WriteTitle n = Inr s" "\<exists>s. writeTitle n = Inr s" "\<exists>s. writeTitle_main n = Inr s"
    unfolding WriteTitle_def writeTitle_def writeTitle_main_def sprintf_s_def using l by simp_all
qed

lemma getrandom_bounds:
  assumes "0 \<le> r" "lo \<le> hi" "- (2 ^ 15) \<le> lo" "hi < 2 ^ 15"
  shows "\<exists>v. getrandom lo hi r = Inr v \<and> lo \<le> v \<and> v \<le> hi"
proof -
  define k where "k = r mod ((hi + 1) - lo)"
  have k: "0 \<le> k \<and> k < (hi + 1) - lo" using assms(2) by (simp add: k_def)
  have "getrandom lo hi r = Inr (to_short (k + lo))"
    using assms(1,2) by (simp add: getrandom_def checked_mod_def k_def)
  also have "to_short (k + lo) = k + lo" using k assms(3,4) by (intro to_short_id) linarith+
  finally show ?thesis using k by auto
qed

text \<open>The columns 0 to W - 1 are inside; the rows 0 to H count as inside although row H is not on
  the screen. A position outside is the last one before the next is inside again.\<close>

definition coord_ok :: "int \<Rightarrow> int \<Rightarrow> int \<Rightarrow> bool" where
  "coord_ok m x d \<longleftrightarrow> \<bar>d\<bar> \<le> 3 \<and>
     (0 \<le> x \<and> x < m \<or> - 3 \<le> x \<and> x \<le> m + 2 \<and> 0 \<le> x + d \<and> x + d < m)"

definition bounce_ok :: "int \<Rightarrow> int \<Rightarrow> bouncer \<Rightarrow> bool" where
  "bounce_ok W H b \<longleftrightarrow> coord_ok W (fst (coords b)) (fst (delta b)) \<and>
     coord_ok (H + 1) (snd (coords b)) (snd (delta b))"

lemma coord_ok_step:
  assumes "coord_ok m x d" "m < 2 ^ 15 - 3"
  shows "to_short (x + d) = x + d" "to_short (- d) = - d"
    "coord_ok m (x + d) (if x + d < 0 \<or> x + d \<ge> m then - d else d)"
  using assms by (auto simp: coord_ok_def)

lemma bounce_move_ok:
  assumes "bounce_ok W H b" "W < 2 ^ 15 - 4" "H < 2 ^ 15 - 4"
  shows "bounce_ok W H (fst (bounce_move W H b))"
proof -
  have x: "coord_ok W (fst (coords b)) (fst (delta b))"
    and y: "coord_ok (H + 1) (snd (coords b)) (snd (delta b))"
    using assms(1) by (simp_all add: bounce_ok_def)
  have W: "W < 2 ^ 15 - 3" and H: "H + 1 < 2 ^ 15 - 3" using assms(2,3) by simp_all
  have ge: "(y > H) = (y \<ge> H + 1)" for y :: int by auto
  show ?thesis
    unfolding bounce_ok_def bounce_move_def Let_def ge
    using coord_ok_step [OF x W] coord_ok_step [OF y H] by (auto split: if_splits)
qed

lemma bounce_start_ok:
  assumes W: "0 < W" "W < 2 ^ 15 - 4" and H: "0 < H" "H < 2 ^ 15 - 4"
    and rs: "rs = (r1, r2, r3, r4)" "0 \<le> r1" "0 \<le> r2" "0 \<le> r3" "0 \<le> r4"
  shows "\<exists>s b. bounce_start W H ids rs = Inr (s, b) \<and> bounce_ok W H b \<and> old_cell b = None \<and>
    old_at b = (0, 0) \<and> my_cell b \<in> {1, 2} \<and> my_attr b \<in> {0..15}"
proof -
  obtain i1 i2 i3 where ids: "ids = (i1, i2, i3)" by (cases ids)
  obtain x where x: "getrandom 0 (W - 1) r1 = Inr x" "0 \<le> x" "x < W"
    using getrandom_bounds [of r1 0 "W - 1"] assms by auto
  obtain y where y: "getrandom 0 (H - 1) r2 = Inr y" "0 \<le> y" "y < H"
    using getrandom_bounds [of r2 0 "H - 1"] assms by auto
  obtain dx where dx: "getrandom (- 3) 3 r3 = Inr dx" "- 3 \<le> dx" "dx \<le> 3"
    using getrandom_bounds [of r3 "- 3" 3] assms by auto
  obtain dy where dy: "getrandom (- 3) 3 r4 = Inr dy" "- 3 \<le> dy" "dy \<le> 3"
    using getrandom_bounds [of r4 "- 3" 3] assms by auto
  have "and i3 0x0F = i3 mod 2 ^ 4"
    using take_bit_eq_mask [of 4 i3] by (simp add: take_bit_eq_mod mask_eq_exp_minus_1)
  then have a: "and i3 0x0F \<in> {0..15}" by simp
  show ?thesis
    unfolding bounce_start_def ids rs(1)
    using x y dx dy a by (simp add: bounce_ok_def coord_ok_def abs_le_iff)
qed

section \<open>One thread on a screen\<close>

text \<open>A screen as the console documents it: a character and an attribute per cell; reads and writes
  outside fail.\<close>

type_synonym grid = "coord \<Rightarrow> int \<times> int"

definition on_screen :: "int \<Rightarrow> int \<Rightarrow> coord \<Rightarrow> bool" where
  "on_screen W H p \<longleftrightarrow> 0 \<le> fst p \<and> fst p < W \<and> 0 \<le> snd p \<and> snd p < H"

fun show_call :: "int \<Rightarrow> int \<Rightarrow> console_call \<Rightarrow> grid \<Rightarrow> grid" where
  "show_call W H (PutChar c p) g = (if on_screen W H p then g(p := (c, snd (g p))) else g)"
| "show_call W H (PutAttr a p) g = (if on_screen W H p then g(p := (fst (g p), a)) else g)"
| "show_call W H (FillChar c n p) g =
     (\<lambda>q. if on_screen W H q \<and> snd p * W + fst p \<le> snd q * W + fst q \<and>
            snd q * W + fst q < snd p * W + fst p + n then (c, snd (g q)) else g q)"
| "show_call W H (Beep f d) g = g"

definition read_char :: "int \<Rightarrow> int \<Rightarrow> grid \<Rightarrow> coord \<Rightarrow> int option" where
  "read_char W H g p = (if on_screen W H p then Some (fst (g p)) else None)"

definition read_attr :: "int \<Rightarrow> int \<Rightarrow> grid \<Rightarrow> coord \<Rightarrow> int option" where
  "read_attr W H g p = (if on_screen W H p then Some (snd (g p)) else None)"

type_synonym round_fun =
  "int \<Rightarrow> int \<Rightarrow> int option \<Rightarrow> int option \<Rightarrow> bouncer \<Rightarrow> fault + bouncer \<times> console_call list"

text \<open>Rounds of a single thread, each applied to the screen it reads.\<close>

fun solo :: "round_fun \<Rightarrow> int \<Rightarrow> int \<Rightarrow> nat \<Rightarrow> bouncer \<times> grid \<Rightarrow> fault + bouncer \<times> grid" where
  "solo rnd W H 0 bg = Inr bg"
| "solo rnd W H (Suc n) bg =
     and_then (solo rnd W H n bg) (\<lambda>(b, g).
     and_then (rnd W H (read_char W H g (old_at b)) (read_attr W H g (old_at b)) b) (\<lambda>(b', calls).
       Inr (b', fold (show_call W H) calls g)))"

lemma bounce_move_fields [simp]:
  "my_cell (fst (bounce_move W H b)) = my_cell b" "my_attr (fst (bounce_move W H b)) = my_attr b"
  "old_cell (fst (bounce_move W H b)) = old_cell b" "old_attr (fst (bounce_move W H b)) = old_attr b"
  "old_at (fst (bounce_move W H b)) = coords b"
  by (simp_all add: bounce_move_def Let_def)

lemma fold_beeps [simp]: "fold (show_call W H) (snd (bounce_move W H b)) g = g"
  by (simp add: bounce_move_def Let_def)

text \<open>Behind the thread of MThread01 the screen is blank but for the cell drawn last.\<close>

definition face_alone :: "int \<Rightarrow> int \<Rightarrow> bouncer \<Rightarrow> grid \<Rightarrow> bool" where
  "face_alone W H b g \<longleftrightarrow>
     (\<forall>p. on_screen W H p \<longrightarrow> fst (g p) = (if p = old_at b then my_cell b else blank_cell)) \<and>
     (on_screen W H (old_at b) \<longrightarrow> snd (g (old_at b)) = my_attr b)"

lemma bounce_move_read [simp]:
  "coords (fst (bounce_move W H (b\<lparr>old_cell := x\<rparr>))) = coords (fst (bounce_move W H b))"
  "delta (fst (bounce_move W H (b\<lparr>old_cell := x\<rparr>))) = delta (fst (bounce_move W H b))"
  "coords (fst (bounce_move W H (b\<lparr>old_attr := y\<rparr>))) = coords (fst (bounce_move W H b))"
  "delta (fst (bounce_move W H (b\<lparr>old_attr := y\<rparr>))) = delta (fst (bounce_move W H b))"
  by (simp_all add: bounce_move_def Let_def)

lemma draw_alone:
  assumes rest: "\<forall>p. on_screen W H p \<longrightarrow> p \<noteq> o1 \<longrightarrow> fst (g p) = blank_cell"
    and here: "on_screen W H o1 \<longrightarrow> there \<or> fst (g o1) = blank_cell"
    and b': "old_at b' = c" "my_cell b' = ch" "my_attr b' = at"
  shows "face_alone W H b' (fold (show_call W H)
    ((if there then [PutChar blank_cell o1] else []) @ [PutChar ch c, PutAttr at c]) g)"
  using rest here by (cases there; cases "on_screen W H o1"; cases "on_screen W H c"; cases "o1 = c")
    (auto simp: face_alone_def b')

definition after_round :: "int \<Rightarrow> int \<Rightarrow> bouncer \<Rightarrow> bouncer \<Rightarrow> bool" where
  "after_round W H b b' \<longleftrightarrow> my_cell b' = my_cell b \<and> my_attr b' = my_attr b \<and> old_at b' = coords b \<and>
     coords b' = coords (fst (bounce_move W H b)) \<and> delta b' = delta (fst (bounce_move W H b))"

lemma BounceProc_round_alone:
  assumes c: "my_cell b \<noteq> blank_cell"
    and known: "on_screen W H (old_at b) \<or> old_cell b \<noteq> None \<and> old_attr b \<noteq> None"
    and g: "face_alone W H b g \<or> (\<forall>p. on_screen W H p \<longrightarrow> fst (g p) = blank_cell)"
  shows "\<exists>b' calls. BounceProc_round W H (read_char W H g (old_at b)) (read_attr W H g (old_at b)) b =
      Inr (b', calls) \<and> face_alone W H b' (fold (show_call W H) calls g) \<and> after_round W H b b' \<and>
      old_cell b' \<noteq> None \<and> old_attr b' \<noteq> None"
proof -
  define b1 where "b1 = b\<lparr>old_cell := after_read (read_char W H g (old_at b)) (old_cell b),
    old_attr := after_read (read_attr W H g (old_at b)) (old_attr b)\<rparr>"
  have b1: "old_cell b1 \<noteq> None" "old_attr b1 \<noteq> None"
    using known by (auto simp: b1_def after_read_def read_char_def read_attr_def)
  define there where "there \<longleftrightarrow> old_cell b1 = Some (my_cell b1) \<and> old_attr b1 = Some (my_attr b1)"
  have t: "still_there b1 = Inr there"
    using b1 by (cases "old_cell b1 = Some (my_cell b1)") (auto simp: still_there_def there_def)
  have here: "on_screen W H (old_at b) \<longrightarrow> there \<or> fst (g (old_at b)) = blank_cell"
  proof
    assume on: "on_screen W H (old_at b)"
    with t have "there \<longleftrightarrow> fst (g (old_at b)) = my_cell b \<and> snd (g (old_at b)) = my_attr b"
      by (auto simp: still_there_def b1_def after_read_def read_char_def read_attr_def split: if_splits)
    moreover have "fst (g (old_at b)) = my_cell b \<and> snd (g (old_at b)) = my_attr b \<or>
        fst (g (old_at b)) = blank_cell"
      using g
    proof
      assume f: "face_alone W H b g"
      show ?thesis using f [unfolded face_alone_def, THEN conjunct1, rule_format, OF on]
          f [unfolded face_alone_def, THEN conjunct2, rule_format, OF on] by simp
    next
      assume f: "\<forall>p. on_screen W H p \<longrightarrow> fst (g p) = blank_cell"
      show ?thesis using f [rule_format, OF on] by simp
    qed
    ultimately show "there \<or> fst (g (old_at b)) = blank_cell" by blast
  qed
  have rest: "\<forall>p. on_screen W H p \<longrightarrow> p \<noteq> old_at b \<longrightarrow> fst (g p) = blank_cell"
    using g unfolding face_alone_def by (metis (full_types))
  define calls where "calls = (if there then [PutChar blank_cell (old_at b)] else []) @
    [PutChar (my_cell b) (coords b), PutAttr (my_attr b) (coords b)]"
  have flds: "old_at b1 = old_at b" "coords b1 = coords b" "my_cell b1 = my_cell b" "my_attr b1 = my_attr b"
    by (simp_all add: b1_def)
  have r: "BounceProc_round W H (read_char W H g (old_at b)) (read_attr W H g (old_at b)) b =
      Inr (fst (bounce_move W H b1), calls @ snd (bounce_move W H b1))"
    unfolding BounceProc_round_def Let_def b1_def [symmetric] t
    by (simp add: split_beta calls_def flds)
  have "face_alone W H (fst (bounce_move W H b1)) (fold (show_call W H) calls g)"
    unfolding calls_def by (rule draw_alone [OF rest here]) (simp_all add: flds)
  moreover have "after_round W H b (fst (bounce_move W H b1))"
    by (simp add: after_round_def b1_def)
  ultimately show ?thesis
    using b1 unfolding r by simp
qed

lemma bounce_ok_round:
  assumes "bounce_ok W H b" "after_round W H b b'" "W < 2 ^ 15 - 4" "H < 2 ^ 15 - 4"
  shows "bounce_ok W H b'"
  using bounce_move_ok [OF assms(1,3,4)] assms(2) by (simp add: bounce_ok_def after_round_def)

lemma solo_alone:
  assumes "bounce_ok W H b" "W < 2 ^ 15 - 4" "H < 2 ^ 15 - 4" "my_cell b \<noteq> blank_cell"
    and "on_screen W H (old_at b)" "\<forall>p. on_screen W H p \<longrightarrow> fst (g p) = blank_cell"
  shows "\<exists>b' g'. solo BounceProc_round W H (Suc n) (b, g) = Inr (b', g') \<and> face_alone W H b' g' \<and>
    bounce_ok W H b' \<and> my_cell b' = my_cell b \<and> old_cell b' \<noteq> None \<and> old_attr b' \<noteq> None"
proof (induction n)
  case 0
  from BounceProc_round_alone [of b W H g] assms obtain b' calls where
    "BounceProc_round W H (read_char W H g (old_at b)) (read_attr W H g (old_at b)) b = Inr (b', calls)"
    "face_alone W H b' (fold (show_call W H) calls g)" "after_round W H b b'"
    "old_cell b' \<noteq> None" "old_attr b' \<noteq> None" by blast
  then show ?case
    using bounce_ok_round [OF assms(1) _ assms(2,3)] by (simp add: after_round_def)
next
  case (Suc n)
  then obtain b1 g1 where s: "solo BounceProc_round W H (Suc n) (b, g) = Inr (b1, g1)"
    and i: "face_alone W H b1 g1" "bounce_ok W H b1" "my_cell b1 = my_cell b" "old_cell b1 \<noteq> None"
      "old_attr b1 \<noteq> None" by blast
  from BounceProc_round_alone [of b1 W H g1] i assms(4) obtain b' calls where
    r: "BounceProc_round W H (read_char W H g1 (old_at b1)) (read_attr W H g1 (old_at b1)) b1 = Inr (b', calls)"
    "face_alone W H b' (fold (show_call W H) calls g1)" "after_round W H b1 b'"
    "old_cell b' \<noteq> None" "old_attr b' \<noteq> None" by auto
  show ?case
    unfolding solo.simps(2) [of _ _ _ "Suc n"] s
    using r i(3) bounce_ok_round [OF i(2) r(3) assms(2,3)] by (simp add: after_round_def)
qed

text \<open>In MThread02 and Main01 nothing is ever blanked.\<close>

definition visited :: "int \<Rightarrow> int \<Rightarrow> nat \<Rightarrow> bouncer \<Rightarrow> coord set" where
  "visited W H n b = {coords (((\<lambda>b. fst (bounce_move W H b)) ^^ k) b) |k. k < n}"

lemma visited_Suc:
  "visited W H (Suc n) b = insert (coords (((\<lambda>b. fst (bounce_move W H b)) ^^ n) b)) (visited W H n b)"
  unfolding visited_def less_Suc_eq by blast

text \<open>Main01 reads the character of the old cell for the attribute too.\<close>

definition char_reads :: round_fun where
  "char_reads W H rc ra = bounceProc_char_round W H rc rc"

lemma char_round_trail:
  assumes rnd: "rnd = bounceProc_round \<or> rnd = char_reads"
    and ne: "my_attr b \<noteq> my_cell b"
    and known: "on_screen W H (old_at b) \<or> old_cell b \<noteq> None" "old_cell b \<noteq> Some (my_cell b)"
    and g: "\<forall>p. on_screen W H p \<longrightarrow> fst (g p) \<noteq> my_cell b"
  shows "\<exists>b' calls. rnd W H (read_char W H g (old_at b)) (read_attr W H g (old_at b)) b = Inr (b', calls) \<and>
    fold (show_call W H) calls g =
      (if on_screen W H (coords b) then g(coords b := (my_attr b, snd (g (coords b)))) else g) \<and>
    after_round W H b b' \<and> old_cell b' \<noteq> None \<and> old_cell b' \<noteq> Some (my_cell b)"
proof -
  define oc where "oc = after_read (read_char W H g (old_at b)) (old_cell b)"
  define oa where "oa = after_read (read_char W H g (old_at b)) (old_attr b)"
  have "fst (g (old_at b)) \<noteq> my_cell b" if "on_screen W H (old_at b)" using g that by blast
  then have oc: "oc \<noteq> None" "oc \<noteq> Some (my_cell b)"
    using known by (auto simp: oc_def after_read_def read_char_def)
  then obtain y where y: "oc = Some y" "y \<noteq> my_cell b" by blast
  then have t: "still_there (b\<lparr>old_cell := oc\<rparr>) = Inr False"
    "still_there (b\<lparr>old_cell := oc, old_attr := oa\<rparr>) = Inr False"
    by (simp_all add: still_there_def)
  from rnd show ?thesis
  proof
    assume r: "rnd = bounceProc_round"
    show ?thesis
      unfolding r bounceProc_round_def Let_def oc_def [symmetric] t
      using oc by (auto simp: split_beta after_round_def)
  next
    assume r: "rnd = char_reads"
    show ?thesis
      unfolding r char_reads_def bounceProc_char_round_def Let_def oc_def [symmetric] oa_def [symmetric] t
      using oc by (auto simp: split_beta after_round_def)
  qed
qed

lemma bounce_move_cong:
  assumes "coords b = coords c" "delta b = delta c"
  shows "coords (fst (bounce_move W H b)) = coords (fst (bounce_move W H c))"
    "delta (fst (bounce_move W H b)) = delta (fst (bounce_move W H c))"
  using assms by (simp_all add: bounce_move_def Let_def)

lemma solo_trail:
  assumes rnd: "rnd = bounceProc_round \<or> rnd = char_reads"
    and ne: "my_attr b \<noteq> my_cell b"
    and known: "on_screen W H (old_at b)" "old_cell b \<noteq> Some (my_cell b)"
    and g: "\<forall>p. on_screen W H p \<longrightarrow> fst (g p) \<noteq> my_cell b"
  shows "\<exists>b' g'. solo rnd W H n (b, g) = Inr (b', g') \<and>
    (\<forall>p. fst (g' p) = (if on_screen W H p \<and> p \<in> visited W H n b then my_attr b else fst (g p))) \<and>
    my_cell b' = my_cell b \<and> my_attr b' = my_attr b \<and>
    coords b' = coords (((\<lambda>b. fst (bounce_move W H b)) ^^ n) b) \<and>
    delta b' = delta (((\<lambda>b. fst (bounce_move W H b)) ^^ n) b) \<and>
    (on_screen W H (old_at b') \<or> old_cell b' \<noteq> None) \<and> old_cell b' \<noteq> Some (my_cell b)"
proof (induction n)
  case 0
  with known show ?case by (simp add: visited_def)
next
  case (Suc n)
  then obtain b1 g1 where s: "solo rnd W H n (b, g) = Inr (b1, g1)"
    and gr: "\<And>p. fst (g1 p) = (if on_screen W H p \<and> p \<in> visited W H n b then my_attr b else fst (g p))"
    and i: "my_cell b1 = my_cell b" "my_attr b1 = my_attr b"
      "on_screen W H (old_at b1) \<or> old_cell b1 \<noteq> None" "old_cell b1 \<noteq> Some (my_cell b)"
    and c: "coords b1 = coords (((\<lambda>b. fst (bounce_move W H b)) ^^ n) b)"
      "delta b1 = delta (((\<lambda>b. fst (bounce_move W H b)) ^^ n) b)" by blast
  have "\<forall>p. on_screen W H p \<longrightarrow> fst (g1 p) \<noteq> my_cell b1" using g ne by (simp add: gr i)
  from char_round_trail [OF rnd _ _ _ this] i ne obtain b' calls where
    r: "rnd W H (read_char W H g1 (old_at b1)) (read_attr W H g1 (old_at b1)) b1 = Inr (b', calls)"
    "fold (show_call W H) calls g1 =
      (if on_screen W H (coords b1) then g1(coords b1 := (my_attr b1, snd (g1 (coords b1)))) else g1)"
    "after_round W H b1 b'" "old_cell b' \<noteq> None" "old_cell b' \<noteq> Some (my_cell b1)" by auto
  have "\<forall>p. fst (fold (show_call W H) calls g1 p) =
      (if on_screen W H p \<and> p \<in> visited W H (Suc n) b then my_attr b else fst (g p))"
    by (auto simp: r(2) gr visited_Suc c(1) [symmetric] i)
  with r i bounce_move_cong [OF c] show ?case
    by (simp add: s after_round_def)
qed

section \<open>Properties\<close>

lemma bounce_moves_ok:
  assumes "bounce_ok W H b" "W < 2 ^ 15 - 4" "H < 2 ^ 15 - 4"
  shows "bounce_ok W H (((\<lambda>b. fst (bounce_move W H b)) ^^ n) b)"
  by (induction n) (simp_all add: assms bounce_move_ok [OF _ assms(2,3)] del: power_Suc)

text \<open>On every screen of at least one cell, for every seed and all results of rand, a thread starts
  inside the screen without a fault, and after any number of moves it is within three columns of the
  screen, with a speed of at most three, and returns inside with the next move when it is outside.
  Rows are counted with one too many: row H is treated as inside.\<close>

theorem bounce_stays:
  assumes "0 < W" "W < 2 ^ 15 - 4" "0 < H" "H < 2 ^ 15 - 4"
    and "0 \<le> r1" "0 \<le> r2" "0 \<le> r3" "0 \<le> r4"
  shows "\<exists>s b. bounce_start W H ids (r1, r2, r3, r4) = Inr (s, b) \<and>
    (\<forall>n. let b' = ((\<lambda>b. fst (bounce_move W H b)) ^^ n) b
         in coord_ok W (fst (coords b')) (fst (delta b')) \<and>
            coord_ok (H + 1) (snd (coords b')) (snd (delta b')))"
proof -
  obtain s b where b: "bounce_start W H ids (r1, r2, r3, r4) = Inr (s, b)" "bounce_ok W H b"
    using bounce_start_ok [OF assms(1-4) refl assms(5-8), of ids] by blast
  have "bounce_ok W H (((\<lambda>b. fst (bounce_move W H b)) ^^ n) b)" for n
    by (rule bounce_moves_ok [OF b(2) assms(2,4)])
  with b(1) show ?thesis by (auto simp: bounce_ok_def Let_def)
qed

lemma bounce_stays_witness:
  "\<exists>s b. bounce_start 80 25 (1, 1, 1) (79, 24, 6, 0) = Inr (s, b) \<and>
    (\<forall>n. let b' = ((\<lambda>b. fst (bounce_move 80 25 b)) ^^ n) b
         in coord_ok 80 (fst (coords b')) (fst (delta b')) \<and>
            coord_ok (25 + 1) (snd (coords b')) (snd (delta b')))"
  by (rule bounce_stays) simp_all

text \<open>A single thread of MThread01 on a blank screen never faults, and after each round the screen
  shows its face in its colour at the cell drawn last (when that is on the screen) and nothing
  else.\<close>

theorem face_moves:
  assumes "0 < W" "W < 2 ^ 15 - 4" "0 < H" "H < 2 ^ 15 - 4"
    and "0 \<le> r1" "0 \<le> r2" "0 \<le> r3" "0 \<le> r4"
    and "\<forall>p. on_screen W H p \<longrightarrow> fst (g p) = blank_cell"
  shows "\<exists>s b b' g'. bounce_start W H ids (r1, r2, r3, r4) = Inr (s, b) \<and>
    solo BounceProc_round W H (Suc n) (b, g) = Inr (b', g') \<and>
    my_cell b' \<in> {1, 2} \<and> face_alone W H b' g'"
proof -
  obtain s b where b: "bounce_start W H ids (r1, r2, r3, r4) = Inr (s, b)" "bounce_ok W H b"
      "old_at b = (0, 0)" "my_cell b \<in> {1, 2}"
    using bounce_start_ok [OF assms(1-4) refl assms(5-8), of ids] by blast
  have on: "on_screen W H (old_at b)" using assms(1,3) by (simp add: b(3) on_screen_def)
  have ne: "my_cell b \<noteq> blank_cell" using b(4) by (auto simp: blank_cell_def)
  obtain b' g' where "solo BounceProc_round W H (Suc n) (b, g) = Inr (b', g')" "face_alone W H b' g'"
      "my_cell b' = my_cell b"
    using solo_alone [OF b(2) assms(2,4) ne on assms(9)] by blast
  then show ?thesis using b(1,4) by (intro exI conjI) auto
qed

lemma face_moves_witness:
  "\<exists>s b b' g'. bounce_start 80 25 (1, 1, 1) (79, 24, 6, 0) = Inr (s, b) \<and>
    solo BounceProc_round 80 25 (Suc 9) (b, \<lambda>_. (blank_cell, 7)) = Inr (b', g') \<and>
    my_cell b' \<in> {1, 2} \<and> face_alone 80 25 b' g'"
  by (rule face_moves) simp_all

text \<open>In MThread02 and Main01 the attribute is written as a character over the face and the old
  cell is never recognised: a single thread leaves the character of its attribute at every cell it
  visited, for ever, and its face is nowhere on the screen (for threads whose attribute differs from
  their face).\<close>

theorem face_never_shown:
  assumes "rnd = bounceProc_round \<or> rnd = char_reads"
    and "my_attr b \<noteq> my_cell b" "old_cell b = None" "on_screen W H (old_at b)"
    and "\<forall>p. on_screen W H p \<longrightarrow> fst (g p) \<noteq> my_cell b"
  shows "\<exists>b' g'. solo rnd W H n (b, g) = Inr (b', g') \<and>
    (\<forall>p. fst (g' p) = (if on_screen W H p \<and> p \<in> visited W H n b then my_attr b else fst (g p)))"
proof -
  have "old_cell b \<noteq> Some (my_cell b)" using assms(3) by simp
  from solo_trail [OF assms(1,2,4) this assms(5), of n] show ?thesis by blast
qed

definition sample_face :: bouncer where
  "sample_face = \<lparr>my_cell = 2, my_attr = 1, old_cell = None, old_attr = None, coords = (5, 5),
     delta = (1, 0), old_at = (0, 0)\<rparr>"

lemma face_never_shown_witness:
  "\<exists>b' g'. solo bounceProc_round 80 25 3 (sample_face, \<lambda>_. (blank_cell, 7)) = Inr (b', g') \<and>
    (\<forall>p. fst (g' p) = (if on_screen 80 25 p \<and> p \<in> visited 80 25 3 sample_face then 1 else blank_cell))"
proof -
  have a: "my_attr sample_face = 1" by (simp add: sample_face_def)
  have "\<exists>b' g'. solo bounceProc_round 80 25 3 (sample_face, \<lambda>_. (blank_cell, 7)) = Inr (b', g') \<and>
    (\<forall>p. fst (g' p) = (if on_screen 80 25 p \<and> p \<in> visited 80 25 3 sample_face
      then my_attr sample_face else fst (blank_cell, 7 :: int)))"
    by (rule face_never_shown) (simp_all add: sample_face_def on_screen_def blank_cell_def)
  then show ?thesis unfolding a fst_conv .
qed

end
