(* ===== verification/Bounce_Threads.thy ===== *)
theory Bounce_Threads
  imports Bounce_Screen
begin

text \<open>
  The threads of Project1/MThread01.c, MThread02.c and Main01.c: the keyboard loop of main, the
  shared counters, the mutex that keeps the threads running, and the end of the threads. A thread
  waits for the mutex once per round; what a round draws is in the theory of the screen. The test of a
  delete request, its clearing, the read and the write of \<open>threadNr--\<close> at a thread's end, the read for
  the title, the title and the exit are steps of their own; the handling of one key is a single step
  of main. The mutex of the operating system is a parameter.
\<close>

section \<open>The mutex\<close>

datatype wait_result = WAIT_OBJECT_0 | WAIT_ABANDONED | WAIT_TIMEOUT

text \<open>The operations on \<open>hRunMutex\<close>, called by main (0) or a thread (from 1), with its owner and the
  number of times the owner holds it as what can be observed.\<close>

record 'm mutex_api =
  mx_owner :: "'m \<Rightarrow> nat option"
  mx_depth :: "'m \<Rightarrow> nat"
  mx_new :: 'm                         \<comment> \<open>CreateMutex with initial owner\<close>
  mx_wait :: "nat \<Rightarrow> 'm \<Rightarrow> wait_result \<times> 'm"  \<comment> \<open>WaitForSingleObject with a time limit\<close>
  mx_release :: "nat \<Rightarrow> 'm \<Rightarrow> 'm"      \<comment> \<open>ReleaseMutex\<close>
  mx_exit :: "nat \<Rightarrow> 'm \<Rightarrow> 'm"         \<comment> \<open>the end of a thread\<close>

text \<open>What Windows documents: a free mutex, or one's own, is acquired; one held by another times out;
  only the owner releases; a mutex whose owner ends is abandoned and can be acquired.\<close>

definition mutex_ok :: "'m mutex_api \<Rightarrow> bool" where
  "mutex_ok api \<longleftrightarrow>
     (mx_owner api (mx_new api) = Some 0 \<and> mx_depth api (mx_new api) = 1) \<and>
     (\<forall>t m. mx_owner api m = None \<or> mx_owner api m = Some t \<longrightarrow>
        fst (mx_wait api t m) \<noteq> WAIT_TIMEOUT \<and> mx_owner api (snd (mx_wait api t m)) = Some t \<and>
        mx_depth api (snd (mx_wait api t m)) = Suc (mx_depth api m)) \<and>
     (\<forall>t u m. mx_owner api m = Some u \<and> u \<noteq> t \<longrightarrow> mx_wait api t m = (WAIT_TIMEOUT, m)) \<and>
     (\<forall>t m. mx_owner api m = Some t \<longrightarrow>
        mx_owner api (mx_release api t m) = (if mx_depth api m > 1 then Some t else None) \<and>
        mx_depth api (mx_release api t m) = mx_depth api m - 1) \<and>
     (\<forall>t m. mx_owner api m \<noteq> Some t \<longrightarrow> mx_release api t m = m) \<and>
     (\<forall>t m. mx_owner api m = Some t \<longrightarrow> mx_owner api (mx_exit api t m) = None \<and>
        mx_depth api (mx_exit api t m) = 0) \<and>
     (\<forall>t m. mx_owner api m \<noteq> Some t \<longrightarrow> mx_exit api t m = m)"

section \<open>State\<close>

text \<open>Where a thread is: drawing and about to wait, after the wait in MThread02, about to clear the
  delete request, behind its loop; in MThread02 then with the value of \<open>threadNr\<close> it read and is to lower, about
  to read it for the title, about to set the title, about to return; ended.\<close>

datatype phase =
    Drawing | Checking | Stopping | Leaving | Lowering int | Titling | Naming int | Returning | Ended

record 'm bounce_sys =
  threadNr :: int
  threadDeleteNr :: int
  run_mutex :: 'm
  threads :: "phase list"
  titles :: "string list"              \<comment> \<open>what SetConsoleTitle was given\<close>
  delete_keys :: nat                   \<comment> \<open>how often main took the branch for D\<close>
  quitting :: bool                     \<comment> \<open>main left its keyboard loop\<close>

definition MAX_THREADS :: int where "MAX_THREADS = 32"

definition bounce_init :: "'m mutex_api \<Rightarrow> string \<Rightarrow> 'm bounce_sys" where
  "bounce_init api title = \<lparr>threadNr = 0, threadDeleteNr = 0, run_mutex = mx_new api, threads = [],
     titles = [title], delete_keys = 0, quitting = False\<rparr>"

definition bounce_main :: "'m mutex_api \<Rightarrow> (int \<Rightarrow> fault + string) \<Rightarrow> fault + 'm bounce_sys" where
  "bounce_main api title = and_then (title 0) (\<lambda>s. Inr (bounce_init api s))"

definition to_lower :: "int \<Rightarrow> int" where
  "to_lower k = (if 65 \<le> k \<and> k \<le> 90 then k + 32 else k)"

text \<open>Starting a thread: \<open>started\<close> says whether _beginthread succeeded, which the program ignores.\<close>

definition start_bouncer ::
  "(int \<Rightarrow> fault + string) \<Rightarrow> bool \<Rightarrow> 'm bounce_sys \<Rightarrow> fault + 'm bounce_sys"
where
  "start_bouncer title started S =
     and_then (title (threadNr S + 1)) (\<lambda>s.
       Inr (S\<lparr>threadNr := threadNr S + 1, threads := threads S @ (if started then [Drawing] else []),
              titles := titles S @ [s]\<rparr>))"

section \<open>MThread01\<close>

function ShutDown_loop :: "'m mutex_api \<Rightarrow> 'm bounce_sys \<Rightarrow> 'm bounce_sys" where
  "ShutDown_loop api S =
     (if threadNr S > 0
      then ShutDown_loop api (S\<lparr>run_mutex := mx_release api 0 (run_mutex S), threadNr := threadNr S - 1\<rparr>)
      else S)"
  by pat_completeness auto
termination
  by (relation "measure (\<lambda>(api, S). nat (threadNr S))") auto

declare ShutDown_loop.simps [simp del]

text \<open>The rest of \<open>ShutDown\<close> takes the screen mutex and clears the screen.\<close>

definition ShutDown :: "'m mutex_api \<Rightarrow> 'm bounce_sys \<Rightarrow> 'm bounce_sys" where
  "ShutDown api S = (ShutDown_loop api S)\<lparr>quitting := True\<rparr>"

definition KbdFunc_key ::
  "'m mutex_api \<Rightarrow> bool \<Rightarrow> int \<Rightarrow> 'm bounce_sys \<Rightarrow> fault + 'm bounce_sys"
where
  "KbdFunc_key api started k S =
     and_then (if to_lower k = 97 \<and> threadNr S < MAX_THREADS then start_bouncer WriteTitle started S
               else Inr S) (\<lambda>S1.
       Inr (if to_lower k \<noteq> 113 then S1 else ShutDown api S1))"

text \<open>The condition of a thread's loop, and its end.\<close>

definition wait_run :: "'m mutex_api \<Rightarrow> nat \<Rightarrow> 'm bounce_sys \<Rightarrow> 'm bounce_sys" where
  "wait_run api i S =
     (let (r, m) = mx_wait api (Suc i) (run_mutex S)
      in S\<lparr>run_mutex := m, threads := (threads S)[i := (if r = WAIT_TIMEOUT then Drawing else Leaving)]\<rparr>)"

definition end_thread :: "'m mutex_api \<Rightarrow> nat \<Rightarrow> 'm bounce_sys \<Rightarrow> 'm bounce_sys" where
  "end_thread api i S =
     S\<lparr>run_mutex := mx_exit api (Suc i) (run_mutex S), threads := (threads S)[i := Ended]\<rparr>"

inductive thread_step :: "'m mutex_api \<Rightarrow> 'm bounce_sys \<Rightarrow> 'm bounce_sys \<Rightarrow> bool" for api where
  wait: "i < length (threads S) \<Longrightarrow> threads S ! i = Drawing \<Longrightarrow> thread_step api S (wait_run api i S)"
| leave: "i < length (threads S) \<Longrightarrow> threads S ! i = Leaving \<Longrightarrow> thread_step api S (end_thread api i S)"

inductive bounce01 :: "'m mutex_api \<Rightarrow> 'm bounce_sys \<Rightarrow> bool" for api where
  start: "bounce_main api WriteTitle = Inr S \<Longrightarrow> bounce01 api S"
| key: "bounce01 api S \<Longrightarrow> \<not> quitting S \<Longrightarrow> KbdFunc_key api started k S = Inr S' \<Longrightarrow> bounce01 api S'"
| thread: "bounce01 api S \<Longrightarrow> thread_step api S S' \<Longrightarrow> bounce01 api S'"

section \<open>Main01\<close>

function stopThread_loop :: "'m mutex_api \<Rightarrow> 'm bounce_sys \<Rightarrow> 'm bounce_sys" where
  "stopThread_loop api S =
     (if threadDeleteNr S > 0
      then stopThread_loop api
             (S\<lparr>run_mutex := mx_release api 0 (run_mutex S), threadDeleteNr := threadDeleteNr S - 1\<rparr>)
      else S)"
  by pat_completeness auto
termination
  by (relation "measure (\<lambda>(api, S). nat (threadDeleteNr S))") auto

declare stopThread_loop.simps [simp del]

definition readInput_main_key ::
  "'m mutex_api \<Rightarrow> bool \<Rightarrow> int \<Rightarrow> 'm bounce_sys \<Rightarrow> fault + 'm bounce_sys"
where
  "readInput_main_key api started k S =
     and_then (if to_lower k = 97 \<and> threadNr S < MAX_THREADS then start_bouncer writeTitle_main started S
               else Inr S) (\<lambda>S1.
       let S2 = (if to_lower k = 100 \<and> threadNr S1 > 0
                 then stopThread_loop api (S1\<lparr>threadDeleteNr := threadDeleteNr S1 + 1,
                        delete_keys := Suc (delete_keys S1)\<rparr>)
                 else S1)
       in Inr (if to_lower k \<noteq> 113 then S2 else ShutDown api S2))"

inductive bounce_main01 :: "'m mutex_api \<Rightarrow> 'm bounce_sys \<Rightarrow> bool" for api where
  start: "bounce_main api writeTitle_main = Inr S \<Longrightarrow> bounce_main01 api S"
| key: "bounce_main01 api S \<Longrightarrow> \<not> quitting S \<Longrightarrow> readInput_main_key api started k S = Inr S' \<Longrightarrow>
    bounce_main01 api S'"
| thread: "bounce_main01 api S \<Longrightarrow> thread_step api S S' \<Longrightarrow> bounce_main01 api S'"

section \<open>MThread02\<close>

definition stopThread :: "'m mutex_api \<Rightarrow> 'm bounce_sys \<Rightarrow> 'm bounce_sys" where
  "stopThread api S = S\<lparr>run_mutex := mx_release api 0 (run_mutex S)\<rparr>"

text \<open>The key C only clears the screen.\<close>

definition readInput_key ::
  "'m mutex_api \<Rightarrow> bool \<Rightarrow> int \<Rightarrow> 'm bounce_sys \<Rightarrow> fault + 'm bounce_sys"
where
  "readInput_key api started k S =
     and_then (if to_lower k = 97 \<and> threadNr S < MAX_THREADS then start_bouncer writeTitle started S
               else Inr S) (\<lambda>S1.
       let S2 = (if to_lower k = 100 \<and> threadDeleteNr S1 = 0 \<and> threadNr S1 > 0
                 then stopThread api (S1\<lparr>threadDeleteNr := threadNr S1,
                        delete_keys := Suc (delete_keys S1)\<rparr>)
                 else S1)
       in Inr (if to_lower k \<noteq> 113 then S2 else ShutDown api S2))"

text \<open>Every thread's \<open>myId\<close> points to the first byte of the shared counter.\<close>

definition my_id :: "'m bounce_sys \<Rightarrow> int" where
  "my_id S = (threadNr S + 128) mod 256 - 128"

definition wait_run2 :: "'m mutex_api \<Rightarrow> nat \<Rightarrow> 'm bounce_sys \<Rightarrow> 'm bounce_sys" where
  "wait_run2 api i S =
     S\<lparr>run_mutex := snd (mx_wait api (Suc i) (run_mutex S)), threads := (threads S)[i := Checking]\<rparr>"

text \<open>Both branches after the wait make the same test.\<close>

definition check_delete :: "nat \<Rightarrow> 'm bounce_sys \<Rightarrow> 'm bounce_sys" where
  "check_delete i S =
     S\<lparr>threads := (threads S)[i :=
        (if threadDeleteNr S > 0 \<and> threadDeleteNr S = my_id S then Stopping else Drawing)]\<rparr>"

definition clear_delete :: "nat \<Rightarrow> 'm bounce_sys \<Rightarrow> 'm bounce_sys" where
  "clear_delete i S = S\<lparr>threadDeleteNr := 0, threads := (threads S)[i := Leaving]\<rparr>"

text \<open>The end of a thread: \<open>threadNr--\<close> reads and then writes the counter that main and the other threads
  change, \<open>writeTitle\<close> gets what it reads afterwards, and the thread returns.\<close>

definition read_nr :: "nat \<Rightarrow> 'm bounce_sys \<Rightarrow> 'm bounce_sys" where
  "read_nr i S = S\<lparr>threads := (threads S)[i := Lowering (threadNr S)]\<rparr>"

definition lower_nr :: "nat \<Rightarrow> int \<Rightarrow> 'm bounce_sys \<Rightarrow> 'm bounce_sys" where
  "lower_nr i v S = S\<lparr>threadNr := v - 1, threads := (threads S)[i := Titling]\<rparr>"

definition read_title :: "nat \<Rightarrow> 'm bounce_sys \<Rightarrow> 'm bounce_sys" where
  "read_title i S = S\<lparr>threads := (threads S)[i := Naming (threadNr S)]\<rparr>"

definition set_title :: "nat \<Rightarrow> int \<Rightarrow> 'm bounce_sys \<Rightarrow> fault + 'm bounce_sys" where
  "set_title i v S =
     and_then (writeTitle v) (\<lambda>s. Inr (S\<lparr>titles := titles S @ [s], threads := (threads S)[i := Returning]\<rparr>))"

inductive thread_step2 :: "'m mutex_api \<Rightarrow> 'm bounce_sys \<Rightarrow> 'm bounce_sys \<Rightarrow> bool" for api where
  wait: "i < length (threads S) \<Longrightarrow> threads S ! i = Drawing \<Longrightarrow> thread_step2 api S (wait_run2 api i S)"
| check: "i < length (threads S) \<Longrightarrow> threads S ! i = Checking \<Longrightarrow> thread_step2 api S (check_delete i S)"
| clear: "i < length (threads S) \<Longrightarrow> threads S ! i = Stopping \<Longrightarrow> thread_step2 api S (clear_delete i S)"
| reads: "i < length (threads S) \<Longrightarrow> threads S ! i = Leaving \<Longrightarrow> thread_step2 api S (read_nr i S)"
| lowers: "i < length (threads S) \<Longrightarrow> threads S ! i = Lowering v \<Longrightarrow> thread_step2 api S (lower_nr i v S)"
| asks: "i < length (threads S) \<Longrightarrow> threads S ! i = Titling \<Longrightarrow> thread_step2 api S (read_title i S)"
| names: "i < length (threads S) \<Longrightarrow> threads S ! i = Naming v \<Longrightarrow> set_title i v S = Inr S' \<Longrightarrow>
    thread_step2 api S S'"
| returns: "i < length (threads S) \<Longrightarrow> threads S ! i = Returning \<Longrightarrow> thread_step2 api S (end_thread api i S)"

inductive step02 :: "'m mutex_api \<Rightarrow> 'm bounce_sys \<Rightarrow> 'm bounce_sys \<Rightarrow> bool" for api where
  key: "\<not> quitting S \<Longrightarrow> readInput_key api started k S = Inr S' \<Longrightarrow> step02 api S S'"
| thread: "thread_step2 api S S' \<Longrightarrow> step02 api S S'"

inductive bounce02 :: "'m mutex_api \<Rightarrow> 'm bounce_sys \<Rightarrow> bool" for api where
  start: "bounce_main api writeTitle = Inr S \<Longrightarrow> bounce02 api S"
| step: "bounce02 api S \<Longrightarrow> step02 api S S' \<Longrightarrow> bounce02 api S'"

section \<open>The mutex laws as rules\<close>

lemma mutex_new: "mutex_ok api \<Longrightarrow> mx_owner api (mx_new api) = Some 0 \<and> mx_depth api (mx_new api) = 1"
  by (simp add: mutex_ok_def)

lemma mutex_acquire:
  "mutex_ok api \<Longrightarrow> mx_owner api m = None \<Longrightarrow>
     fst (mx_wait api t m) \<noteq> WAIT_TIMEOUT \<and> mx_owner api (snd (mx_wait api t m)) = Some t"
  by (simp add: mutex_ok_def)

lemma mutex_busy:
  "mutex_ok api \<Longrightarrow> mx_owner api m = Some u \<Longrightarrow> u \<noteq> t \<Longrightarrow> mx_wait api t m = (WAIT_TIMEOUT, m)"
  by (simp add: mutex_ok_def)

lemma mutex_release_last:
  "mutex_ok api \<Longrightarrow> mx_owner api m = Some t \<Longrightarrow> mx_depth api m \<le> 1 \<Longrightarrow>
     mx_owner api (mx_release api t m) = None"
  by (simp add: mutex_ok_def)

lemma mutex_release_other: "mutex_ok api \<Longrightarrow> mx_owner api m \<noteq> Some t \<Longrightarrow> mx_release api t m = m"
  by (simp add: mutex_ok_def)

lemma mutex_exit: "mutex_ok api \<Longrightarrow> mx_owner api m = Some t \<Longrightarrow> mx_owner api (mx_exit api t m) = None"
  by (simp add: mutex_ok_def)

text \<open>A mutex that satisfies the laws: its owner with the depth.\<close>

definition simple_mutex :: "(nat \<times> nat) option mutex_api" where
  "simple_mutex = \<lparr>mx_owner = map_option fst, mx_depth = (\<lambda>m. case m of None \<Rightarrow> 0 | Some (t, n) \<Rightarrow> n),
     mx_new = Some (0, 1),
     mx_wait = (\<lambda>t m. case m of None \<Rightarrow> (WAIT_OBJECT_0, Some (t, 1))
       | Some (u, n) \<Rightarrow> if u = t then (WAIT_OBJECT_0, Some (t, Suc n)) else (WAIT_TIMEOUT, m)),
     mx_release = (\<lambda>t m. case m of None \<Rightarrow> None
       | Some (u, n) \<Rightarrow> if u = t then (if n > 1 then Some (u, n - 1) else None) else m),
     mx_exit = (\<lambda>t m. case m of None \<Rightarrow> None | Some (u, n) \<Rightarrow> if u = t then None else m)\<rparr>"

lemma simple_mutex_ok: "mutex_ok simple_mutex"
  unfolding mutex_ok_def simple_mutex_def by (auto split: option.splits)

section \<open>Shutting down\<close>

lemma ShutDown_loop_fields [simp]:
  "threads (ShutDown_loop api S) = threads S" "threadDeleteNr (ShutDown_loop api S) = threadDeleteNr S"
  "titles (ShutDown_loop api S) = titles S" "delete_keys (ShutDown_loop api S) = delete_keys S"
  "quitting (ShutDown_loop api S) = quitting S"
  by (induction api S rule: ShutDown_loop.induct; subst ShutDown_loop.simps; simp)+

lemma ShutDown_loop_Nr: "0 \<le> threadNr S \<Longrightarrow> threadNr (ShutDown_loop api S) = 0"
  by (induction api S rule: ShutDown_loop.induct) (subst ShutDown_loop.simps; simp)

lemma ShutDown_loop_other:
  assumes "mutex_ok api" "mx_owner api (run_mutex S) \<noteq> Some 0"
  shows "run_mutex (ShutDown_loop api S) = run_mutex S"
  using assms
  by (induction api S rule: ShutDown_loop.induct)
    (subst ShutDown_loop.simps; simp add: mutex_release_other)

lemma ShutDown_loop_release:
  assumes "mutex_ok api" "mx_owner api (run_mutex S) = Some 0" "mx_depth api (run_mutex S) \<le> 1" "threadNr S > 0"
  shows "mx_owner api (run_mutex (ShutDown_loop api S)) = None"
  using assms
  by (subst ShutDown_loop.simps) (simp add: ShutDown_loop_other mutex_release_last)

section \<open>The chain of ending threads\<close>

text \<open>Once main has released the mutex, it is free or held by a thread that is about to end.\<close>

definition chain_ok :: "'m mutex_api \<Rightarrow> 'm bounce_sys \<Rightarrow> bool" where
  "chain_ok api S \<longleftrightarrow>
     (mx_owner api (run_mutex S) = None \<and> set (threads S) \<subseteq> {Drawing, Ended}) \<or>
     (\<exists>i < length (threads S). mx_owner api (run_mutex S) = Some (Suc i) \<and> threads S ! i = Leaving \<and>
        (\<forall>j < length (threads S). j \<noteq> i \<longrightarrow> threads S ! j \<in> {Drawing, Ended}))"

lemma chain_wait_free:
  assumes "mutex_ok api" "mx_owner api (run_mutex S) = None" "i < length (threads S)"
  shows "threads (wait_run api i S) = (threads S)[i := Leaving]"
    "mx_owner api (run_mutex (wait_run api i S)) = Some (Suc i)"
  using mutex_acquire [OF assms(1,2), of "Suc i"] by (auto simp: wait_run_def split: prod.splits)

lemma chain_wait_busy:
  assumes "mutex_ok api" "mx_owner api (run_mutex S) = Some (Suc k)" "k \<noteq> i" "threads S ! i = Drawing"
  shows "wait_run api i S = S"
proof -
  have "(threads S)[i := Drawing] = threads S" using assms(4) list_update_id by metis
  with mutex_busy [OF assms(1,2), of "Suc i"] assms(3) show ?thesis by (simp add: wait_run_def)
qed

lemma chain_step:
  assumes m: "mutex_ok api" and c: "chain_ok api S" and s: "thread_step api S S'"
  shows "chain_ok api S'"
  using s
proof (cases rule: thread_step.cases)
  case (wait i)
  show ?thesis
  proof (cases "mx_owner api (run_mutex S)")
    case None
    with c have sub: "set (threads S) \<subseteq> {Drawing, Ended}" by (auto simp: chain_ok_def)
    have "\<forall>j < length (threads S). j \<noteq> i \<longrightarrow> threads S ! j \<in> {Drawing, Ended}"
      using sub nth_mem by blast
    with chain_wait_free [OF m None wait(2)] wait(1,2) show ?thesis
      unfolding chain_ok_def by (intro disjI2 exI [of _ i]) auto
  next
    case (Some u)
    with c obtain k where k: "u = Suc k" "threads S ! k = Leaving" by (auto simp: chain_ok_def)
    with wait(3) have "k \<noteq> i" by auto
    with chain_wait_busy [OF m _ this wait(3)] Some k c wait(1) show ?thesis by simp
  qed
next
  case (leave i)
  have "\<not> set (threads S) \<subseteq> {Drawing, Ended}"
    using nth_mem [OF leave(2)] leave(3) by auto
  with c obtain k where k: "mx_owner api (run_mutex S) = Some (Suc k)"
      "\<forall>j < length (threads S). j \<noteq> k \<longrightarrow> threads S ! j \<in> {Drawing, Ended}"
    unfolding chain_ok_def by blast
  have "k = i"
  proof (rule ccontr)
    assume "k \<noteq> i"
    with k(2) [rule_format, OF leave(2)] leave(3) show False by simp
  qed
  with k have o: "mx_owner api (run_mutex S) = Some (Suc i)"
      and rest: "\<forall>j < length (threads S). j \<noteq> i \<longrightarrow> threads S ! j \<in> {Drawing, Ended}" by simp_all
  have "set ((threads S)[i := Ended]) \<subseteq> {Drawing, Ended}"
  proof
    fix p assume "p \<in> set ((threads S)[i := Ended])"
    then obtain j where "j < length (threads S)" "p = (threads S)[i := Ended] ! j"
      by (auto simp: in_set_conv_nth)
    with rest show "p \<in> {Drawing, Ended}" by (cases "j = i") auto
  qed
  with mutex_exit [OF m o] leave(1) show ?thesis by (simp add: chain_ok_def end_thread_def)
qed

lemma thread_step_frame:
  assumes "thread_step api S S'"
  shows "threadNr S' = threadNr S \<and> threadDeleteNr S' = threadDeleteNr S \<and> titles S' = titles S \<and>
    delete_keys S' = delete_keys S \<and> quitting S' = quitting S \<and> length (threads S') = length (threads S)"
  using assms by (cases rule: thread_step.cases) (auto simp: wait_run_def end_thread_def split: prod.splits)

definition phase_rest :: "phase \<Rightarrow> nat" where
  "phase_rest p = (case p of Ended \<Rightarrow> 0 | Leaving \<Rightarrow> 1 | _ \<Rightarrow> 2)"

text \<open>So all threads can end, one after the other.\<close>

lemma chain_drains:
  assumes "mutex_ok api" "chain_ok api S"
  shows "\<exists>S'. (thread_step api)\<^sup>*\<^sup>* S S' \<and> set (threads S') \<subseteq> {Ended}"
  using assms(2)
proof (induction "sum_list (map phase_rest (threads S))" arbitrary: S rule: less_induct)
  case less
  show ?case
  proof (cases "set (threads S) \<subseteq> {Ended}")
    case True
    then show ?thesis by blast
  next
    case False
    have "\<exists>S1. thread_step api S S1 \<and>
        sum_list (map phase_rest (threads S1)) < sum_list (map phase_rest (threads S))"
    proof (cases "mx_owner api (run_mutex S)")
      case None
      with less.prems have "set (threads S) \<subseteq> {Drawing, Ended}" by (auto simp: chain_ok_def)
      with False obtain i where i: "i < length (threads S)" "threads S ! i = Drawing"
        by (auto simp: subset_iff in_set_conv_nth)
      show ?thesis
      proof (intro exI conjI)
        show "thread_step api S (wait_run api i S)" by (rule thread_step.wait [OF i])
        show "sum_list (map phase_rest (threads (wait_run api i S))) < sum_list (map phase_rest (threads S))"
          unfolding chain_wait_free(1) [OF assms(1) None i(1)]
          by (rule sum_list_update_less [OF i(1)]) (simp add: i(2) phase_rest_def)
      qed
    next
      case (Some u)
      with less.prems obtain i where i: "i < length (threads S)" "threads S ! i = Leaving"
        by (auto simp: chain_ok_def)
      show ?thesis
      proof (intro exI conjI)
        show "thread_step api S (end_thread api i S)" by (rule thread_step.leave [OF i])
        show "sum_list (map phase_rest (threads (end_thread api i S))) < sum_list (map phase_rest (threads S))"
          unfolding end_thread_def
          by (simp add: sum_list_update_less [OF i(1)] i(2) phase_rest_def)
      qed
    qed
    then obtain S1 where S1: "thread_step api S S1"
        "sum_list (map phase_rest (threads S1)) < sum_list (map phase_rest (threads S))" by blast
    from less.hyps [OF S1(2) chain_step [OF assms(1) less.prems S1(1)]] obtain S' where
      "(thread_step api)\<^sup>*\<^sup>* S1 S'" "set (threads S') \<subseteq> {Ended}" by blast
    with S1(1) show ?thesis by (meson converse_rtranclp_into_rtranclp)
  qed
qed

section \<open>Invariants\<close>

lemma chain_frame:
  "chain_ok api S \<Longrightarrow> run_mutex S' = run_mutex S \<Longrightarrow> threads S' = threads S \<Longrightarrow> chain_ok api S'"
  by (simp add: chain_ok_def)

lemma chain_append:
  assumes "chain_ok api S" "run_mutex S' = run_mutex S" "threads S' = threads S @ [Drawing]"
  shows "chain_ok api S'"
  using assms(1) [unfolded chain_ok_def]
proof (elim disjE exE conjE)
  assume "mx_owner api (run_mutex S) = None" "set (threads S) \<subseteq> {Drawing, Ended}"
  with assms(2,3) show ?thesis by (simp add: chain_ok_def)
next
  fix i assume i: "i < length (threads S)" "mx_owner api (run_mutex S) = Some (Suc i)"
    "threads S ! i = Leaving"
    "\<forall>j < length (threads S). j \<noteq> i \<longrightarrow> threads S ! j \<in> {Drawing, Ended}"
  have "\<forall>j < length (threads S'). j \<noteq> i \<longrightarrow> threads S' ! j \<in> {Drawing, Ended}"
    using i(4) by (simp add: assms(3) nth_append less_Suc_eq)
  with i assms(2,3) show ?thesis unfolding chain_ok_def by (intro disjI2 exI [of _ i]) (simp add: nth_append)
qed

lemma start_bouncer_cases:
  assumes "start_bouncer title started S = Inr S1"
  shows "threadNr S1 = threadNr S + 1 \<and> run_mutex S1 = run_mutex S \<and> threadDeleteNr S1 = threadDeleteNr S \<and>
    delete_keys S1 = delete_keys S \<and> quitting S1 = quitting S \<and>
    threads S1 = threads S @ (if started then [Drawing] else [])"
  using assms by (auto simp: start_bouncer_def and_then_Inr_iff)

text \<open>While main holds the mutex all threads draw; afterwards they end in a chain.\<close>

definition held :: "'m mutex_api \<Rightarrow> 'm bounce_sys \<Rightarrow> bool" where
  "held api S \<longleftrightarrow> mx_owner api (run_mutex S) = Some 0 \<and> mx_depth api (run_mutex S) \<le> 1 \<and>
     set (threads S) \<subseteq> {Drawing}"

definition counted :: "'m bounce_sys \<Rightarrow> bool" where
  "counted S \<longleftrightarrow> int (length (threads S)) \<le> threadNr S \<and> threadNr S \<le> MAX_THREADS"

lemma held_wait:
  assumes "mutex_ok api" "held api S" "thread_step api S S'"
  shows "S' = S"
  using assms(3)
proof (cases rule: thread_step.cases)
  case (wait i)
  have "mx_wait api (Suc i) (run_mutex S) = (WAIT_TIMEOUT, run_mutex S)"
    using assms(2) by (intro mutex_busy [OF assms(1)]) (auto simp: held_def)
  moreover have "(threads S)[i := Drawing] = threads S" using wait(3) list_update_id by metis
  ultimately show ?thesis using wait(1) by (simp add: wait_run_def)
next
  case (leave i)
  with assms(2) nth_mem [OF leave(2)] show ?thesis by (auto simp: held_def)
qed

lemma held_start:
  assumes "held api S" "counted S" "threadNr S < MAX_THREADS" "start_bouncer title started S = Inr S1"
  shows "held api S1 \<and> counted S1"
  using start_bouncer_cases [OF assms(4)] assms(1-3) by (auto simp: held_def counted_def)

lemma held_shutdown:
  assumes "mutex_ok api" "held api S" "counted S"
  shows "threads (ShutDown api S) = [] \<or> chain_ok api (ShutDown api S)"
proof (cases "threadNr S > 0")
  case True
  with ShutDown_loop_release [OF assms(1), of S] assms(2)
  have "mx_owner api (run_mutex (ShutDown_loop api S)) = None" by (simp add: held_def)
  with assms(2) show ?thesis by (auto simp: ShutDown_def chain_ok_def held_def)
next
  case False
  with assms(3) have "threads S = []" by (cases "threads S") (auto simp: counted_def)
  then show ?thesis by (simp add: ShutDown_def)
qed

lemma chain_shutdown:
  assumes "mutex_ok api" "chain_ok api S"
  shows "chain_ok api (ShutDown api S)"
proof -
  have "mx_owner api (run_mutex S) \<noteq> Some 0" using assms(2) by (auto simp: chain_ok_def)
  then show ?thesis
    using assms by (intro chain_frame [OF assms(2)]) (simp_all add: ShutDown_def ShutDown_loop_other)
qed

lemma bounce01_inv:
  assumes m: "mutex_ok api" and r: "bounce01 api S"
  shows "if quitting S then threads S = [] \<or> chain_ok api S else held api S \<and> counted S"
  using r
proof (induction rule: bounce01.induct)
  case (start S)
  then show ?case
    using mutex_new [OF m]
    by (auto simp: bounce_main_def and_then_Inr_iff bounce_init_def held_def counted_def MAX_THREADS_def)
next
  case (key S started k S')
  from key.hyps(3) obtain S1 where
      S1: "(if to_lower k = 97 \<and> threadNr S < MAX_THREADS then start_bouncer WriteTitle started S
        else Inr S) = Inr S1" and S': "S' = (if to_lower k \<noteq> 113 then S1 else ShutDown api S1)"
    unfolding KbdFunc_key_def and_then_Inr_iff by auto
  have hc: "held api S" "counted S" using key by simp_all
  have "held api S1 \<and> counted S1 \<and> quitting S1 = quitting S"
  proof (cases "to_lower k = 97 \<and> threadNr S < MAX_THREADS")
    case True
    with S1 have st: "start_bouncer WriteTitle started S = Inr S1" by simp
    from held_start [OF hc _ st] start_bouncer_cases [OF st] True show ?thesis by simp
  next
    case False
    with S1 hc show ?thesis by auto
  qed
  with key.hyps(2) held_shutdown [OF m, of S1] S' show ?case by (auto simp: ShutDown_def)
next
  case (thread S S')
  show ?case
  proof (cases "quitting S")
    case True
    with thread.IH have "threads S = [] \<or> chain_ok api S" by simp
    moreover have "threads S \<noteq> []" using thread(2) by (cases rule: thread_step.cases) auto
    ultimately show ?thesis
      using chain_step [OF m _ thread(2)] thread_step_frame [OF thread(2)] True by simp
  next
    case False
    with thread.IH held_wait [OF m _ thread(2)] show ?thesis by simp
  qed
qed

text \<open>In Main01 the first D already starts the chain.\<close>

lemma stopThread_loop_once:
  assumes "threadDeleteNr S = 1"
  shows "stopThread_loop api S =
    S\<lparr>run_mutex := mx_release api 0 (run_mutex S), threadDeleteNr := 0\<rparr>"
  using assms by (subst stopThread_loop.simps, simp, subst stopThread_loop.simps, simp)

definition main01_ok :: "'m mutex_api \<Rightarrow> 'm bounce_sys \<Rightarrow> bool" where
  "main01_ok api S \<longleftrightarrow> counted S \<and> threadDeleteNr S = 0 \<and>
     (if delete_keys S = 0 then held api S else chain_ok api S)"

lemma main01_delete:
  assumes m: "mutex_ok api" and ok: "main01_ok api S"
  shows "main01_ok api (stopThread_loop api (S\<lparr>threadDeleteNr := threadDeleteNr S + 1,
      delete_keys := Suc (delete_keys S)\<rparr>))"
proof -
  have d: "threadDeleteNr S = 0" using ok by (simp add: main01_ok_def)
  have e: "stopThread_loop api (S\<lparr>threadDeleteNr := threadDeleteNr S + 1, delete_keys := Suc (delete_keys S)\<rparr>) =
      S\<lparr>run_mutex := mx_release api 0 (run_mutex S), threadDeleteNr := 0, delete_keys := Suc (delete_keys S)\<rparr>"
    using d by (simp add: stopThread_loop_once)
  have "chain_ok api (S\<lparr>run_mutex := mx_release api 0 (run_mutex S), threadDeleteNr := 0,
      delete_keys := Suc (delete_keys S)\<rparr>)"
  proof (cases "delete_keys S = 0")
    case True
    with ok have h: "held api S" by (simp add: main01_ok_def)
    with mutex_release_last [OF m, of "run_mutex S" 0]
    have "mx_owner api (mx_release api 0 (run_mutex S)) = None" by (simp add: held_def)
    with h show ?thesis by (auto simp: chain_ok_def held_def)
  next
    case False
    with ok have c: "chain_ok api S" by (simp add: main01_ok_def)
    then have "mx_owner api (run_mutex S) \<noteq> Some 0" by (auto simp: chain_ok_def)
    with mutex_release_other [OF m this] c show ?thesis by (intro chain_frame [OF c]) simp_all
  qed
  with ok show ?thesis unfolding e by (simp add: main01_ok_def counted_def)
qed

lemma main01_start:
  assumes "main01_ok api S" "threadNr S < MAX_THREADS" "start_bouncer title started S = Inr S1"
  shows "main01_ok api S1"
proof -
  note c = start_bouncer_cases [OF assms(3)]
  show ?thesis
  proof (cases "delete_keys S = 0")
    case True
    with assms(1) have h: "held api S" "counted S" by (simp_all add: main01_ok_def)
    from held_start [OF h assms(2,3)] True assms(1) c show ?thesis by (simp add: main01_ok_def)
  next
    case False
    with assms(1) have "chain_ok api S" by (simp add: main01_ok_def)
    then have "chain_ok api S1"
      using c chain_append [of api S S1] chain_frame [of api S S1] by (cases started) simp_all
    with False assms(1,2) c show ?thesis by (auto simp: main01_ok_def counted_def)
  qed
qed

lemma bounce_main01_inv:
  assumes m: "mutex_ok api" and r: "bounce_main01 api S"
  shows "if quitting S then threads S = [] \<or> chain_ok api S else main01_ok api S"
  using r
proof (induction rule: bounce_main01.induct)
  case (start S)
  then show ?case
    using mutex_new [OF m]
    by (auto simp: bounce_main_def and_then_Inr_iff bounce_init_def held_def counted_def main01_ok_def
        MAX_THREADS_def)
next
  case (key S started k S')
  from key.hyps(3) obtain S1 where
      S1: "(if to_lower k = 97 \<and> threadNr S < MAX_THREADS then start_bouncer writeTitle_main started S
        else Inr S) = Inr S1"
    and S': "S' = (let S2 = (if to_lower k = 100 \<and> threadNr S1 > 0
                 then stopThread_loop api (S1\<lparr>threadDeleteNr := threadDeleteNr S1 + 1,
                        delete_keys := Suc (delete_keys S1)\<rparr>)
                 else S1) in if to_lower k \<noteq> 113 then S2 else ShutDown api S2)"
    unfolding readInput_main_key_def and_then_Inr_iff Let_def by auto
  have ok: "main01_ok api S" using key by simp
  have S1ok: "main01_ok api S1 \<and> quitting S1 = quitting S"
  proof (cases "to_lower k = 97 \<and> threadNr S < MAX_THREADS")
    case True
    with S1 have st: "start_bouncer writeTitle_main started S = Inr S1" by simp
    from main01_start [OF ok _ st] start_bouncer_cases [OF st] True show ?thesis by simp
  next
    case False
    with S1 ok show ?thesis by auto
  qed
  define S2 where "S2 = (if to_lower k = 100 \<and> threadNr S1 > 0
      then stopThread_loop api (S1\<lparr>threadDeleteNr := threadDeleteNr S1 + 1,
             delete_keys := Suc (delete_keys S1)\<rparr>) else S1)"
  have q: "quitting S2 = quitting S1"
    using S1ok by (simp add: S2_def stopThread_loop_once main01_ok_def)
  have ok2: "main01_ok api S2" using S1ok main01_delete [OF m] by (simp add: S2_def)
  have "threads (ShutDown api S2) = [] \<or> chain_ok api (ShutDown api S2)"
    using ok2 held_shutdown [OF m, of S2] chain_shutdown [OF m, of S2]
    by (auto simp: main01_ok_def split: if_splits)
  with ok2 q S1ok key.hyps(2) show ?case
    unfolding S' S2_def [symmetric] Let_def by (simp add: ShutDown_def)
next
  case (thread S S')
  have ne: "threads S \<noteq> []" using thread(2) by (cases rule: thread_step.cases) auto
  show ?case
  proof (cases "quitting S")
    case True
    with thread.IH ne have "chain_ok api S" by simp
    then show ?thesis
      using chain_step [OF m _ thread(2)] thread_step_frame [OF thread(2)] True by simp
  next
    case False
    with thread.IH have ok: "main01_ok api S" by simp
    show ?thesis
    proof (cases "delete_keys S = 0")
      case True
      with ok held_wait [OF m _ thread(2)] False show ?thesis by (simp add: main01_ok_def)
    next
      case d: False
      with ok have "chain_ok api S" by (simp add: main01_ok_def)
      with chain_step [OF m this thread(2)] thread_step_frame [OF thread(2)] ok d False show ?thesis
        by (simp add: main01_ok_def counted_def)
    qed
  qed
qed

lemma thread_steps_frame:
  "(thread_step api)\<^sup>*\<^sup>* S S' \<Longrightarrow> threadNr S' = threadNr S \<and> length (threads S') = length (threads S)"
  by (induction rule: rtranclp_induct) (auto dest: thread_step_frame)

section \<open>The counter and the delete request of MThread02\<close>

definition live :: "'m bounce_sys \<Rightarrow> nat" where
  "live S = length (filter (\<lambda>p. p \<noteq> Ended) (threads S))"

lemma filter_update:
  "i < length xs \<Longrightarrow> P (xs ! i) = P y \<Longrightarrow> length (filter P (xs[i := y])) = length (filter P xs)"
  by (induction xs arbitrary: i) (auto split: nat.split)

text \<open>Whatever updates are lost, the counter never exceeds 32.\<close>

definition nr_le :: "'m bounce_sys \<Rightarrow> bool" where
  "nr_le S \<longleftrightarrow> threadNr S \<le> MAX_THREADS \<and> (\<forall>v. Lowering v \<in> set (threads S) \<longrightarrow> v \<le> MAX_THREADS)"

lemma ShutDown_loop_le: "threadNr (ShutDown_loop api S) \<le> threadNr S"
  by (induction api S rule: ShutDown_loop.induct) (subst ShutDown_loop.simps; fastforce)

lemma nr_le_update:
  assumes "nr_le S" "threads S' = (threads S)[i := p]" "threadNr S' \<le> MAX_THREADS"
    "\<And>v. p = Lowering v \<Longrightarrow> v \<le> MAX_THREADS"
  shows "nr_le S'"
  using assms set_update_subset_insert [of "threads S" i p] unfolding nr_le_def by auto

lemma thread_step2_nr_le:
  assumes "nr_le S" "thread_step2 api S S'"
  shows "nr_le S'"
  using assms(2)
proof (cases rule: thread_step2.cases)
  case (lowers i v)
  then have "v \<le> MAX_THREADS" using assms(1) nth_mem unfolding nr_le_def by metis
  with lowers show ?thesis by (intro nr_le_update [OF assms(1), of S' i Titling]) (simp_all add: lower_nr_def)
next
  case (names i v)
  then show ?thesis
    by (intro nr_le_update [OF assms(1), of S' i Returning])
      (use assms(1) in \<open>auto simp: set_title_def and_then_Inr_iff nr_le_def\<close>)
next
  case (wait i)
  then show ?thesis
    by (intro nr_le_update [OF assms(1), of S' i Checking]) (use assms(1) in \<open>simp_all add: wait_run2_def nr_le_def\<close>)
next
  case (check i)
  then show ?thesis
    by (intro nr_le_update [OF assms(1), of S' i "threads S' ! i"])
      (use assms(1) in \<open>auto simp: check_delete_def nr_le_def split: if_splits\<close>)
next
  case (clear i)
  then show ?thesis
    by (intro nr_le_update [OF assms(1), of S' i Leaving]) (use assms(1) in \<open>simp_all add: clear_delete_def nr_le_def\<close>)
next
  case (reads i)
  then show ?thesis
    by (intro nr_le_update [OF assms(1), of S' i "Lowering (threadNr S)"]) (use assms(1) in \<open>simp_all add: read_nr_def nr_le_def\<close>)
next
  case (asks i)
  then show ?thesis
    by (intro nr_le_update [OF assms(1), of S' i "Naming (threadNr S)"]) (use assms(1) in \<open>simp_all add: read_title_def nr_le_def\<close>)
next
  case (returns i)
  then show ?thesis
    by (intro nr_le_update [OF assms(1), of S' i Ended]) (use assms(1) in \<open>simp_all add: end_thread_def nr_le_def\<close>)
qed

lemma readInput_key_nr_le:
  assumes "nr_le S" "readInput_key api started k S = Inr S'"
  shows "nr_le S'"
proof -
  from assms(2) obtain S1 where
      S1: "(if to_lower k = 97 \<and> threadNr S < MAX_THREADS then start_bouncer writeTitle started S
        else Inr S) = Inr S1"
    and S': "S' = (let S2 = (if to_lower k = 100 \<and> threadDeleteNr S1 = 0 \<and> threadNr S1 > 0
                 then stopThread api (S1\<lparr>threadDeleteNr := threadNr S1,
                        delete_keys := Suc (delete_keys S1)\<rparr>)
                 else S1) in if to_lower k \<noteq> 113 then S2 else ShutDown api S2)"
    unfolding readInput_key_def and_then_Inr_iff Let_def by auto
  have ok1: "nr_le S1"
  proof (cases "to_lower k = 97 \<and> threadNr S < MAX_THREADS")
    case True
    with S1 have "start_bouncer writeTitle started S = Inr S1" by simp
    from start_bouncer_cases [OF this] assms(1) True show ?thesis by (auto simp: nr_le_def)
  next
    case False
    with S1 assms(1) show ?thesis by auto
  qed
  have q: "nr_le (ShutDown api T)" if "nr_le T" for T :: "'a bounce_sys"
    using that ShutDown_loop_le [of api T] by (auto simp: nr_le_def ShutDown_def)
  have "nr_le (stopThread api (S1\<lparr>threadDeleteNr := threadNr S1, delete_keys := Suc (delete_keys S1)\<rparr>))"
    using ok1 by (simp add: nr_le_def stopThread_def)
  with ok1 q show ?thesis unfolding S' Let_def by simp
qed

lemma bounce02_nr_le: "bounce02 api S \<Longrightarrow> nr_le S"
proof (induction rule: bounce02.induct)
  case (start S)
  then show ?case
    by (auto simp: bounce_main_def and_then_Inr_iff bounce_init_def nr_le_def MAX_THREADS_def)
next
  case (step S S')
  from step.hyps(2) show ?case
    by (cases rule: step02.cases) (use step.IH readInput_key_nr_le thread_step2_nr_le in blast)+
qed

text \<open>A request that no thread can take while main reads keys: the counter has grown since.\<close>

definition stuck :: "'m bounce_sys \<Rightarrow> bool" where
  "stuck S \<longleftrightarrow> set (threads S) \<subseteq> {Drawing, Checking, Ended} \<and> 0 < threadDeleteNr S \<and>
     threadDeleteNr S < threadNr S \<and> threadNr S \<le> MAX_THREADS"

lemma stuck_check:
  assumes "stuck S"
  shows "\<not> (threadDeleteNr S > 0 \<and> threadDeleteNr S = my_id S)"
proof -
  have "my_id S = threadNr S"
    using assms by (auto simp: my_id_def stuck_def MAX_THREADS_def)
  with assms show ?thesis by (auto simp: stuck_def)
qed

definition blocked_from :: "'m bounce_sys \<Rightarrow> 'm bounce_sys \<Rightarrow> bool" where
  "blocked_from S S' \<longleftrightarrow> stuck S' \<and> threadDeleteNr S' = threadDeleteNr S \<and>
     length (threads S) \<le> length (threads S') \<and>
     (\<forall>i < length (threads S). threads S' ! i = Ended \<longleftrightarrow> threads S ! i = Ended)"

lemma blocked_refl: "stuck S \<Longrightarrow> blocked_from S S"
  by (simp add: blocked_from_def)

lemma blocked_trans: "blocked_from S T \<Longrightarrow> blocked_from T U \<Longrightarrow> blocked_from S U"
  by (auto simp: blocked_from_def)

lemma blocked_update:
  assumes "stuck S" "i < length (threads S)" "threads S ! i \<noteq> Ended" "p \<in> {Drawing, Checking}"
    "threads S' = (threads S)[i := p]" "threadNr S' = threadNr S" "threadDeleteNr S' = threadDeleteNr S"
  shows "blocked_from S S'"
proof -
  have "set (threads S') \<subseteq> {Drawing, Checking, Ended}"
    using assms(1,4) set_update_subset_insert [of "threads S" i p] by (auto simp: assms(5) stuck_def)
  then show ?thesis using assms by (auto simp: blocked_from_def stuck_def nth_list_update)
qed

lemma stuck_thread:
  assumes st: "stuck S" and s: "thread_step2 api S S'"
  shows "blocked_from S S'"
proof -
  have in_phase: "threads S ! i \<in> {Drawing, Checking, Ended}" if "i < length (threads S)" for i
    using st that nth_mem unfolding stuck_def by blast
  show ?thesis
    using s
  proof (cases rule: thread_step2.cases)
    case (wait i)
    then show ?thesis
      by (intro blocked_update [OF st wait(2), where p = Checking]) (simp_all add: wait_run2_def)
  next
    case (check i)
    have "check_delete i S = S\<lparr>threads := (threads S)[i := Drawing]\<rparr>"
      unfolding check_delete_def if_not_P [OF stuck_check [OF st]] ..
    with check show ?thesis
      by (intro blocked_update [OF st check(2), where p = Drawing]) simp_all
  qed (use in_phase in fastforce)+
qed

lemma stuck_key:
  assumes st: "stuck S" and k: "readInput_key api started k S = Inr S'" and q: "\<not> quitting S'"
  shows "blocked_from S S'"
proof -
  from k obtain S1 where
      S1: "(if to_lower k = 97 \<and> threadNr S < MAX_THREADS then start_bouncer writeTitle started S
        else Inr S) = Inr S1"
    and S': "S' = (let S2 = (if to_lower k = 100 \<and> threadDeleteNr S1 = 0 \<and> threadNr S1 > 0
                 then stopThread api (S1\<lparr>threadDeleteNr := threadNr S1,
                        delete_keys := Suc (delete_keys S1)\<rparr>)
                 else S1) in if to_lower k \<noteq> 113 then S2 else ShutDown api S2)"
    unfolding readInput_key_def and_then_Inr_iff Let_def by auto
  have ok1: "blocked_from S S1"
  proof (cases "to_lower k = 97 \<and> threadNr S < MAX_THREADS")
    case True
    with S1 have "start_bouncer writeTitle started S = Inr S1" by simp
    from start_bouncer_cases [OF this] st True show ?thesis
      by (auto simp: stuck_def blocked_from_def nth_append)
  next
    case False
    with S1 blocked_refl [OF st] show ?thesis by auto
  qed
  then have "threadDeleteNr S1 \<noteq> 0" by (auto simp: stuck_def blocked_from_def)
  then have S'': "S' = (if to_lower k \<noteq> 113 then S1 else ShutDown api S1)"
    unfolding S' Let_def by simp
  with q ok1 show ?thesis by (auto simp: ShutDown_def split: if_splits)
qed

lemma step02_quitting:
  assumes "step02 api S S'" "quitting S"
  shows "quitting S'"
  using assms(1)
proof (cases rule: step02.cases)
  case thread
  then show ?thesis
    using assms(2) by (cases rule: thread_step2.cases)
      (auto simp: wait_run2_def check_delete_def clear_delete_def read_nr_def lower_nr_def read_title_def
        set_title_def end_thread_def and_then_Inr_iff)
qed (use assms(2) in simp)

lemma stuck_steps:
  assumes "(step02 api)\<^sup>*\<^sup>* S S'" "stuck S" "\<not> quitting S'"
  shows "blocked_from S S'"
  using assms
proof (induction rule: rtranclp_induct)
  case (step T U)
  from step02_quitting [OF step.hyps(2)] step.prems(2) have "\<not> quitting T" by blast
  with step have T: "blocked_from S T" by blast
  then have st: "stuck T" by (simp add: blocked_from_def)
  from step.hyps(2) have "blocked_from T U"
  proof (cases rule: step02.cases)
    case (key started k)
    with stuck_key [OF st] step.prems(2) show ?thesis by blast
  qed (rule stuck_thread [OF st])
  with T show ?case by (rule blocked_trans)
qed (rule blocked_refl)

section \<open>Executable runs\<close>

text \<open>A schedule of MThread02: keys pressed (all threads start) and steps of threads.\<close>

definition act02 :: "'m mutex_api \<Rightarrow> nat \<Rightarrow> 'm bounce_sys \<Rightarrow> fault + 'm bounce_sys" where
  "act02 api i S =
     (if i < length (threads S)
      then (case threads S ! i of
          Drawing \<Rightarrow> Inr (wait_run2 api i S) | Checking \<Rightarrow> Inr (check_delete i S)
        | Stopping \<Rightarrow> Inr (clear_delete i S) | Leaving \<Rightarrow> Inr (read_nr i S)
        | Lowering v \<Rightarrow> Inr (lower_nr i v S) | Titling \<Rightarrow> Inr (read_title i S)
        | Naming v \<Rightarrow> set_title i v S | Returning \<Rightarrow> Inr (end_thread api i S) | Ended \<Rightarrow> Inr S)
      else Inr S)"

fun run02 :: "'m mutex_api \<Rightarrow> (int + nat) list \<Rightarrow> 'm bounce_sys \<Rightarrow> fault + 'm bounce_sys" where
  "run02 api [] S = Inr S"
| "run02 api (Inl k # as) S =
     (if quitting S then Inr S else and_then (readInput_key api True k S) (run02 api as))"
| "run02 api (Inr i # as) S = and_then (act02 api i S) (run02 api as)"

lemma act02_step: "act02 api i S = Inr S' \<Longrightarrow> (step02 api)\<^sup>*\<^sup>* S S'"
  unfolding act02_def
  by (auto split: if_splits phase.splits intro!: r_into_rtranclp step02.thread thread_step2.intros)

lemma run02_steps: "run02 api as S = Inr S' \<Longrightarrow> (step02 api)\<^sup>*\<^sup>* S S'"
proof (induction api as S rule: run02.induct)
  case (2 api k as S)
  show ?case
  proof (cases "quitting S")
    case False
    with "2.prems" obtain T where T: "readInput_key api True k S = Inr T" "run02 api as T = Inr S'"
      by (auto simp: and_then_Inr_iff)
    from step02.key [OF False T(1)] "2.IH" [OF False T] show ?thesis
      by (rule converse_rtranclp_into_rtranclp)
  next
    case True
    with "2.prems" show ?thesis by simp
  qed
next
  case (3 api i as S)
  then obtain T where "act02 api i S = Inr T" "run02 api as T = Inr S'" by (auto simp: and_then_Inr_iff)
  with act02_step "3.IH" show ?case by (meson rtranclp_trans)
qed simp

lemma bounce02_steps: "(step02 api)\<^sup>*\<^sup>* S S' \<Longrightarrow> bounce02 api S \<Longrightarrow> bounce02 api S'"
  by (induction rule: rtranclp_induct) (auto intro: bounce02.step)

lemma Inr_projr: "\<not> isl r \<Longrightarrow> r = Inr (projr r)"
  by (cases r) auto

definition start02 :: "(nat \<times> nat) option bounce_sys" where
  "start02 = projr (bounce_main simple_mutex writeTitle)"

lemma start02_reach: "bounce02 simple_mutex start02"
proof -
  have "\<not> isl (bounce_main simple_mutex writeTitle)" by code_simp
  from Inr_projr [OF this] show ?thesis unfolding start02_def by (rule bounce02.start)
qed

definition played02 :: "(int + nat) list \<Rightarrow> (nat \<times> nat) option bounce_sys" where
  "played02 as = projr (run02 simple_mutex as start02)"

lemma played02_steps:
  assumes "\<not> isl (run02 simple_mutex as start02)"
  shows "bounce02 simple_mutex (played02 as)"
  using run02_steps [OF Inr_projr [OF assms]] bounce02_steps start02_reach
  unfolding played02_def by blast

section \<open>Properties\<close>

text \<open>In MThread01, once Q was pressed, the threads can end one after the other until none runs, and
  a thread that waits while no other is just ending gets the mutex, so it ends at this wait.\<close>

theorem shutdown_ends_all:
  assumes "mutex_ok api" "bounce01 api S" "quitting S"
  shows "(\<exists>S'. (thread_step api)\<^sup>*\<^sup>* S S' \<and> set (threads S') \<subseteq> {Ended}) \<and>
    (\<forall>i < length (threads S). threads S ! i = Drawing \<longrightarrow> Leaving \<notin> set (threads S) \<longrightarrow>
       threads (wait_run api i S) ! i = Leaving)"
proof -
  have inv: "threads S = [] \<or> chain_ok api S" using bounce01_inv [OF assms(1,2)] assms(3) by simp
  show ?thesis
  proof (cases "threads S = []")
    case True
    then show ?thesis by (intro conjI exI [of _ S]) auto
  next
    case False
    with inv have c: "chain_ok api S" by simp
    have "threads (wait_run api i S) ! i = Leaving"
      if i: "i < length (threads S)" "Leaving \<notin> set (threads S)" for i
    proof -
      from c i(2) have "mx_owner api (run_mutex S) = None"
        unfolding chain_ok_def by (metis nth_mem)
      from chain_wait_free(1) [OF assms(1) this i(1)] i(1) show ?thesis by simp
    qed
    with chain_drains [OF assms(1) c] show ?thesis by blast
  qed
qed

definition start01 :: "(nat \<times> nat) option bounce_sys" where
  "start01 = projr (bounce_main simple_mutex WriteTitle)"

definition quit01 :: "(nat \<times> nat) option bounce_sys" where
  "quit01 = projr (KbdFunc_key simple_mutex True 113 (projr (KbdFunc_key simple_mutex True 97
     (projr (KbdFunc_key simple_mutex True 65 start01)))))"

lemma quit01_reach: "bounce01 simple_mutex quit01" "quitting quit01" "threads quit01 = [Drawing, Drawing]"
proof -
  define S1 where "S1 = projr (KbdFunc_key simple_mutex True 65 start01)"
  define S2 where "S2 = projr (KbdFunc_key simple_mutex True 97 S1)"
  have n: "\<not> isl (bounce_main simple_mutex WriteTitle)" "\<not> isl (KbdFunc_key simple_mutex True 65 start01)"
    "\<not> isl (KbdFunc_key simple_mutex True 97 S1)" "\<not> isl (KbdFunc_key simple_mutex True 113 S2)"
    "\<not> quitting start01" "\<not> quitting S1" "\<not> quitting S2"
    unfolding S2_def S1_def by code_simp+
  have "bounce01 simple_mutex start01"
    using Inr_projr [OF n(1)] unfolding start01_def by (rule bounce01.start)
  from bounce01.key [OF this n(5) Inr_projr [OF n(2)]] have "bounce01 simple_mutex S1"
    unfolding S1_def .
  from bounce01.key [OF this n(6) Inr_projr [OF n(3)]] have "bounce01 simple_mutex S2"
    unfolding S2_def .
  from bounce01.key [OF this n(7) Inr_projr [OF n(4)]] show "bounce01 simple_mutex quit01"
    unfolding quit01_def S2_def S1_def .
  show "quitting quit01" "threads quit01 = [Drawing, Drawing]" by code_simp+
qed

lemma shutdown_ends_all_witness:
  "(\<exists>S'. (thread_step simple_mutex)\<^sup>*\<^sup>* quit01 S' \<and> set (threads S') \<subseteq> {Ended}) \<and>
   threads (wait_run simple_mutex 1 quit01) ! 1 = Leaving"
  using shutdown_ends_all [OF simple_mutex_ok quit01_reach(1,2)] quit01_reach(3) by simp

text \<open>In Main01 one press of D, which is to stop one thread, lets all threads end, one after the
  other, while the counter still counts all of them.\<close>

theorem one_delete_ends_all:
  assumes "mutex_ok api" "bounce_main01 api S" "delete_keys S > 0" "\<not> quitting S"
  shows "\<exists>S'. (thread_step api)\<^sup>*\<^sup>* S S' \<and> set (threads S') \<subseteq> {Ended} \<and> threadNr S' = threadNr S \<and>
    int (length (threads S')) \<le> threadNr S'"
proof -
  have ok: "main01_ok api S" using bounce_main01_inv [OF assms(1,2)] assms(4) by simp
  then have c: "chain_ok api S" using assms(3) by (simp add: main01_ok_def)
  obtain S' where S': "(thread_step api)\<^sup>*\<^sup>* S S'" "set (threads S') \<subseteq> {Ended}"
    using chain_drains [OF assms(1) c] by blast
  with thread_steps_frame [OF S'(1)] ok show ?thesis by (auto simp: main01_ok_def counted_def)
qed

definition start_main01 :: "(nat \<times> nat) option bounce_sys" where
  "start_main01 = projr (bounce_main simple_mutex writeTitle_main)"

definition deleted_main01 :: "(nat \<times> nat) option bounce_sys" where
  "deleted_main01 = projr (readInput_main_key simple_mutex True 100 (projr (readInput_main_key simple_mutex True 97
     (projr (readInput_main_key simple_mutex True 97 start_main01)))))"

lemma deleted_main01_reach:
  "bounce_main01 simple_mutex deleted_main01" "delete_keys deleted_main01 > 0" "\<not> quitting deleted_main01"
  "threadNr deleted_main01 = 2"
proof -
  define S1 where "S1 = projr (readInput_main_key simple_mutex True 97 start_main01)"
  define S2 where "S2 = projr (readInput_main_key simple_mutex True 97 S1)"
  have n: "\<not> isl (bounce_main simple_mutex writeTitle_main)"
    "\<not> isl (readInput_main_key simple_mutex True 97 start_main01)"
    "\<not> isl (readInput_main_key simple_mutex True 97 S1)" "\<not> isl (readInput_main_key simple_mutex True 100 S2)"
    "\<not> quitting start_main01" "\<not> quitting S1" "\<not> quitting S2"
    unfolding S2_def S1_def by code_simp+
  have "bounce_main01 simple_mutex start_main01"
    using Inr_projr [OF n(1)] unfolding start_main01_def by (rule bounce_main01.start)
  from bounce_main01.key [OF this n(5) Inr_projr [OF n(2)]] have "bounce_main01 simple_mutex S1"
    unfolding S1_def .
  from bounce_main01.key [OF this n(6) Inr_projr [OF n(3)]] have "bounce_main01 simple_mutex S2"
    unfolding S2_def .
  from bounce_main01.key [OF this n(7) Inr_projr [OF n(4)]]
  show "bounce_main01 simple_mutex deleted_main01"
    unfolding deleted_main01_def S2_def S1_def .
  show "delete_keys deleted_main01 > 0" "\<not> quitting deleted_main01" "threadNr deleted_main01 = 2"
    by code_simp+
qed

lemma one_delete_ends_all_witness:
  "\<exists>S'. (thread_step simple_mutex)\<^sup>*\<^sup>* deleted_main01 S' \<and> set (threads S') \<subseteq> {Ended} \<and> threadNr S' = 2"
  using one_delete_ends_all [OF simple_mutex_ok deleted_main01_reach(1-3)] deleted_main01_reach(4) by auto

text \<open>Two threads, one deletion request, and a third thread started before a thread looked.\<close>

definition stuck_schedule :: "(int + nat) list" where
  "stuck_schedule = [Inl 97, Inl 97, Inl 100, Inl 97]"

lemma stuck_sample:
  "stuck (played02 stuck_schedule)" "threadDeleteNr (played02 stuck_schedule) = 2"
  "\<not> isl (run02 simple_mutex stuck_schedule start02)"
  by code_simp+

text \<open>In MThread02, when the counter has grown after a delete request and no thread has taken the
  request, no thread ever takes it as long as Q is not pressed: the request stays, so later presses of D
  do nothing, and no thread ends, whatever other keys are pressed and whatever the threads do.\<close>

theorem delete_request_stuck:
  assumes "stuck S" "(step02 api)\<^sup>*\<^sup>* S S'" "\<not> quitting S'"
  shows "threadDeleteNr S' = threadDeleteNr S \<and> length (threads S) \<le> length (threads S') \<and>
    (\<forall>i < length (threads S). threads S' ! i = Ended \<longleftrightarrow> threads S ! i = Ended) \<and>
    set (threads S') \<subseteq> {Drawing, Checking, Ended}"
  using stuck_steps [OF assms(2,1,3)] by (simp add: blocked_from_def stuck_def)

definition stuck_later :: "(nat \<times> nat) option bounce_sys" where
  "stuck_later = projr (run02 simple_mutex [Inr 0, Inr 0, Inr 1, Inr 1, Inl 100] (played02 stuck_schedule))"

lemma stuck_later_reach:
  "(step02 simple_mutex)\<^sup>*\<^sup>* (played02 stuck_schedule) stuck_later" "\<not> quitting stuck_later"
proof -
  have "\<not> isl (run02 simple_mutex [Inr 0, Inr 0, Inr 1, Inr 1, Inl 100] (played02 stuck_schedule))"
    by code_simp
  from run02_steps [OF Inr_projr [OF this]]
  show "(step02 simple_mutex)\<^sup>*\<^sup>* (played02 stuck_schedule) stuck_later" unfolding stuck_later_def .
  show "\<not> quitting stuck_later" by code_simp
qed

lemma delete_request_stuck_witness:
  "threadDeleteNr stuck_later = 2 \<and> set (threads stuck_later) \<subseteq> {Drawing, Checking, Ended}"
  using delete_request_stuck [OF stuck_sample(1) stuck_later_reach] stuck_sample(2) by simp

text \<open>In MThread02 two threads can take the same deletion request, because the test of the request and
  its clearing are two steps, and one of the two decrements of the counter can be lost: a run with two
  threads and one press of D after which both have ended and one is still counted.\<close>

theorem one_request_stops_two:
  "\<exists>S. bounce02 simple_mutex S \<and> delete_keys S = 1 \<and> threads S = [Ended, Ended] \<and> threadNr S = 1"
proof -
  define as :: "(int + nat) list" where
    "as = [Inl 97, Inl 97, Inl 100, Inr 0, Inr 1, Inr 0, Inr 1, Inr 0, Inr 1, Inr 0, Inr 1,
      Inr 0, Inr 1, Inr 0, Inr 1, Inr 0, Inr 1, Inr 0, Inr 1]"
  have n: "\<not> isl (run02 simple_mutex as start02)" unfolding as_def by code_simp
  have "delete_keys (played02 as) = 1 \<and> threads (played02 as) = [Ended, Ended] \<and> threadNr (played02 as) = 1"
    unfolding as_def by code_simp
  with played02_steps [OF n] show ?thesis by blast
qed

text \<open>Q itself ends no thread of MThread02, but a thread can end after it by a delete request of before Q: two
  threads take the request 3 and both read the counter 3, one writes 2, D requests 2, Q lowers the
  counter to 0, the other thread writes 2, and the third thread finds the request equal to the counter.\<close>

theorem stops_after_quit:
  "\<exists>S S'. bounce02 simple_mutex S \<and> quitting S \<and> threadNr S = 0 \<and> threads S ! 2 = Drawing \<and>
     (step02 simple_mutex)\<^sup>*\<^sup>* S S' \<and> threads S' ! 2 = Stopping"
proof -
  define as :: "(int + nat) list" where
    "as = [Inl 97, Inl 97, Inl 97, Inl 100, Inr 0, Inr 1, Inr 0, Inr 1, Inr 0, Inr 1, Inr 0, Inr 1, Inr 1,
      Inl 100, Inl 113]"
  define later where "later = projr (run02 simple_mutex [Inr 0, Inr 2, Inr 2] (played02 as))"
  have n: "\<not> isl (run02 simple_mutex as start02)" unfolding as_def by code_simp
  have l: "\<not> isl (run02 simple_mutex [Inr 0, Inr 2, Inr 2] (played02 as))" unfolding as_def by code_simp
  have s: "(step02 simple_mutex)\<^sup>*\<^sup>* (played02 as) later"
    unfolding later_def by (rule run02_steps) (rule Inr_projr [OF l])
  have q: "quitting (played02 as)" "threadNr (played02 as) = 0" "threads (played02 as) ! 2 = Drawing"
      "threads later ! 2 = Stopping"
    unfolding later_def as_def by code_simp+
  from played02_steps [OF n] q s show ?thesis by blast
qed

end
