(* ===== verification/Time_Format.thy ===== *)
theory Time_Format
  imports Prelude
begin

text \<open>
  The time stamps: \<open>nowTime\<close> and \<open>t2s\<close> of MyUtil/MyUtil.cpp, the copy of \<open>nowTime\<close> in
  Project1/FileTransMain.cpp and \<open>timestamp\<close> in Project1/main.cpp. The results of ftime and
  localtime_s are arguments, and so is the number of bytes the caller's buffer really has.
\<close>

section \<open>Formatting\<close>

record tm_time =
  tm_year :: nat                       \<comment> \<open>the full year\<close>
  tm_mon :: nat                        \<comment> \<open>0 to 11\<close>
  tm_mday :: nat
  tm_hour :: nat
  tm_min :: nat
  tm_sec :: nat

text \<open>What localtime_s documents about the fields.\<close>

definition tm_ok :: "tm_time \<Rightarrow> bool" where
  "tm_ok tm \<longleftrightarrow> tm_mon tm < 12 \<and> 1 \<le> tm_mday tm \<and> tm_mday tm \<le> 31 \<and> tm_hour tm < 24 \<and>
     tm_min tm < 60 \<and> tm_sec tm \<le> 60"

text \<open>A number padded with zeros to \<open>w\<close> digits.\<close>

definition pad :: "nat \<Rightarrow> nat \<Rightarrow> string" where
  "pad w n = replicate (w - length (dec_nat n)) (CHR ''0'') @ dec_nat n"

definition date_text :: "tm_time \<Rightarrow> string" where
  "date_text tm = dec_nat (tm_year tm) @ ''-'' @ pad 2 (tm_mon tm + 1) @ ''-'' @ pad 2 (tm_mday tm) @ '' '' @
     pad 2 (tm_hour tm) @ '':'' @ pad 2 (tm_min tm) @ '':'' @ pad 2 (tm_sec tm)"

text \<open>strftime gives nothing when the text and its NUL do not fit.\<close>

definition strftime :: "nat \<Rightarrow> tm_time \<Rightarrow> string option" where
  "strftime n tm = (if length (date_text tm) < n then Some (date_text tm) else None)"

text \<open>Writing a text and its NUL to a buffer of \<open>cap\<close> bytes.\<close>

definition store :: "nat \<Rightarrow> string \<Rightarrow> fault + string" where
  "store cap s = (if length s < cap then Inr s else Inl OutOfBounds)"

definition t2s :: "nat \<Rightarrow> tm_time \<Rightarrow> nat \<Rightarrow> fault + string" where
  "t2s cap tm millitm =
     (case strftime 20 tm of None \<Rightarrow> Inl Uninitialised
      | Some t \<Rightarrow> and_then (sprintf_s 24 (t @ ''.'' @ pad 3 millitm)) (store cap))"

definition nowTime :: "nat \<Rightarrow> tm_time \<times> nat \<Rightarrow> fault + string" where
  "nowTime cap now = t2s cap (fst now) (snd now)"

text \<open>The copy in FileTransMain clears its local buffer first; after a failed strftime the C standard
  leaves the contents open all the same.\<close>

definition nowTime_copy :: "nat \<Rightarrow> tm_time \<times> nat \<Rightarrow> fault + string" where
  "nowTime_copy cap now =
     (case strftime 20 (fst now) of None \<Rightarrow> Inl Uninitialised
      | Some t \<Rightarrow> and_then (sprintf_s 24 (t @ ''.'' @ pad 3 (snd now))) (store cap))"

definition timestamp :: "nat \<Rightarrow> tm_time \<times> nat \<Rightarrow> fault + string" where
  "timestamp cap now =
     (case strftime 20 (fst now) of None \<Rightarrow> Inl Uninitialised
      | Some t \<Rightarrow> and_then (sprintf_s 24 (t @ ''.'' @ pad 3 (snd now))) (store cap))"

section \<open>Fixed widths\<close>

lemma length_dec_nat_exact:
  assumes "10 ^ k \<le> n" "n < 10 ^ Suc k"
  shows "length (dec_nat n) = Suc k"
  using assms
proof (induction k arbitrary: n)
  case 0
  then show ?case by (subst dec_nat.simps) simp
next
  case (Suc k)
  then have "10 ^ k \<le> n div 10" "n div 10 < 10 ^ Suc k"
    by (auto simp: less_mult_imp_div_less mult.commute less_eq_div_iff_mult_less_eq)
  from Suc.IH [OF this] have "length (dec_nat (n div 10)) = Suc k" .
  moreover have "\<not> n < 10"
    using Suc.prems(1) by (metis le_trans less_le_not_le mult.commute mult.right_neutral
        one_le_numeral one_le_power mult_le_mono2 power_Suc)
  ultimately show ?case by (subst dec_nat.simps) simp
qed

lemma length_pad: "n < 10 ^ w \<Longrightarrow> 0 < w \<Longrightarrow> length (pad w n) = w"
  using length_dec_nat_le [of n w] by (simp add: pad_def)

lemma digits_pad: "\<forall>c \<in> set (pad w n). is_digit c"
  using dec_nat_digits by (auto simp: pad_def is_digit_def)

lemma read_zeros: "read_digits acc (replicate k (CHR ''0'') @ s) = read_digits (acc * 10 ^ k) s"
  by (induction k arbitrary: acc) (simp_all add: is_digit_def digit_val_def mult.assoc ac_simps)

lemma read_pad [simp]: "read_digits 0 (pad w n) = n"
  by (simp add: pad_def read_zeros)

lemma date_text_length:
  assumes "tm_ok tm" "1000 \<le> tm_year tm" "tm_year tm \<le> 9999"
  shows "length (date_text tm) = 19" "length (dec_nat (tm_year tm)) = 4"
proof -
  show y: "length (dec_nat (tm_year tm)) = 4"
    using length_dec_nat_exact [of 3 "tm_year tm"] assms(2,3) by simp
  have "length (pad 2 (tm_mon tm + 1)) = 2" "length (pad 2 (tm_mday tm)) = 2"
    "length (pad 2 (tm_hour tm)) = 2" "length (pad 2 (tm_min tm)) = 2" "length (pad 2 (tm_sec tm)) = 2"
    using assms(1) by (simp_all add: length_pad tm_ok_def)
  with y show "length (date_text tm) = 19" by (simp add: date_text_def)
qed

lemma year_length: "tm_year tm < 1000 \<Longrightarrow> length (dec_nat (tm_year tm)) \<le> 3"
  using length_dec_nat_le [of "tm_year tm" 3] by simp

section \<open>Properties\<close>

text \<open>The fields read back from their columns.\<close>

definition field :: "nat \<Rightarrow> nat \<Rightarrow> string \<Rightarrow> nat" where
  "field a b s = read_digits 0 (take (b - a) (drop a s))"

definition read_stamp :: "string \<Rightarrow> tm_time \<times> nat" where
  "read_stamp s = (\<lparr>tm_year = field 0 4 s, tm_mon = field 5 7 s - 1, tm_mday = field 8 10 s,
     tm_hour = field 11 13 s, tm_min = field 14 16 s, tm_sec = field 17 19 s\<rparr>, field 20 23 s)"

text \<open>
  C37. A time of the years 1000 to 9999 is written to a buffer of 24 bytes without a fault, as 23
  characters from which every field is read back at its fixed columns.\<close>

theorem time_roundtrip:
  assumes "tm_ok tm" "1000 \<le> tm_year tm" "tm_year tm \<le> 9999" "ms < 1000" "24 \<le> cap"
  shows "\<exists>s. nowTime cap (tm, ms) = Inr s \<and> length s = 23 \<and> read_stamp s = (tm, ms)"
proof -
  define s where "s = date_text tm @ ''.'' @ pad 3 ms"
  note ds = date_text_length [OF assms(1-3)]
  have p: "length (pad 2 (tm_mon tm + 1)) = 2" "length (pad 2 (tm_mday tm)) = 2"
    "length (pad 2 (tm_hour tm)) = 2" "length (pad 2 (tm_min tm)) = 2" "length (pad 2 (tm_sec tm)) = 2"
    "length (pad 3 ms) = 3"
    using assms(1,4) by (simp_all add: length_pad tm_ok_def)
  have l: "length s = 23" using ds(1) p(6) by (simp add: s_def)
  have "nowTime cap (tm, ms) = Inr s"
    using l ds(1) assms(5) by (simp add: nowTime_def t2s_def strftime_def sprintf_s_def store_def s_def)
  moreover have "read_stamp s = (tm, ms)"
    by (simp add: read_stamp_def field_def s_def date_text_def p p(1) [simplified] ds(2))
  ultimately show ?thesis using l by blast
qed

lemma time_roundtrip_witness:
  "\<exists>s. nowTime 24 (\<lparr>tm_year = 2018, tm_mon = 11, tm_mday = 31, tm_hour = 23, tm_min = 59, tm_sec = 60\<rparr>, 7) = Inr s \<and>
     length s = 23 \<and>
     read_stamp s = (\<lparr>tm_year = 2018, tm_mon = 11, tm_mday = 31, tm_hour = 23, tm_min = 59, tm_sec = 60\<rparr>, 7)"
  by (rule time_roundtrip) (simp_all add: tm_ok_def)

text \<open>The disabled main of FileTransMain passes a buffer of 20 bytes.\<close>

lemma short_buffer_overflows:
  assumes "tm_ok tm" "1000 \<le> tm_year tm" "tm_year tm \<le> 9999" "ms < 1000" "cap < 24"
  shows "nowTime_copy cap (tm, ms) = Inl OutOfBounds"
  using date_text_length(1) [OF assms(1-3)] length_pad [of ms 3] assms(4,5)
  by (simp add: nowTime_copy_def strftime_def sprintf_s_def store_def)

end
