(* ===== verification/Logger.thy ===== *)
theory Logger
  imports Time_Format
begin

text \<open>
  Project1/MLogger.cpp and MLogger.h: messages that own a time stamp and a character block, and the
  log with its stream, its queue of message addresses and its writer thread. Blocks and objects
  live in a store; the size of a pointer, which the code uses as the size of a text, the clock and
  the initial contents of members without initialiser are arguments. The destructor of the log does
  not compile and is left out.
\<close>

section \<open>The store\<close>

datatype ptr = Garbage | Null | Addr nat

record log_msg =
  tm_ptr :: ptr
  msg_ptr :: ptr

record mem =
  time_blocks :: "nat \<Rightarrow> (tm_time \<times> nat) option"
  char_blocks :: "nat \<Rightarrow> string option"
  msgs :: "nat \<Rightarrow> log_msg option"       \<comment> \<open>MLogMsg objects made by new\<close>
  fresh :: nat                         \<comment> \<open>the next address of the allocator\<close>

definition new_time :: "tm_time \<times> nat \<Rightarrow> mem \<Rightarrow> ptr \<times> mem" where
  "new_time now M = (Addr (fresh M),
     M\<lparr>time_blocks := (time_blocks M)(fresh M \<mapsto> now), fresh := Suc (fresh M)\<rparr>)"

text \<open>\<open>new char[n]\<close> followed by strcpy of a text.\<close>

definition new_chars :: "nat \<Rightarrow> string \<Rightarrow> mem \<Rightarrow> fault + ptr \<times> mem" where
  "new_chars n s M =
     (if length s < n
      then Inr (Addr (fresh M),
        M\<lparr>char_blocks := (char_blocks M)(fresh M \<mapsto> s @ [NUL]), fresh := Suc (fresh M)\<rparr>)
      else Inl OutOfBounds)"

fun delete_time :: "ptr \<Rightarrow> mem \<Rightarrow> fault + mem" where
  "delete_time Garbage M = Inl Uninitialised"
| "delete_time Null M = Inr M"
| "delete_time (Addr a) M =
     (if time_blocks M a = None then Inl BadFree else Inr (M\<lparr>time_blocks := (time_blocks M)(a := None)\<rparr>))"

fun delete_chars :: "ptr \<Rightarrow> mem \<Rightarrow> fault + mem" where
  "delete_chars Garbage M = Inl Uninitialised"
| "delete_chars Null M = Inr M"
| "delete_chars (Addr a) M =
     (if char_blocks M a = None then Inl BadFree else Inr (M\<lparr>char_blocks := (char_blocks M)(a := None)\<rparr>))"

fun read_block :: "(nat \<Rightarrow> 'a option) \<Rightarrow> ptr \<Rightarrow> fault + 'a" where
  "read_block b Garbage = Inl Uninitialised"
| "read_block b Null = Inl NullDeref"
| "read_block b (Addr a) = (case b a of None \<Rightarrow> Inl Dangling | Some x \<Rightarrow> Inr x)"

section \<open>Messages\<close>

text \<open>The constructor from a text: the block has the size of the pointer, \<open>psz\<close> bytes.\<close>

definition MLogMsg :: "nat \<Rightarrow> tm_time \<times> nat \<Rightarrow> string \<Rightarrow> mem \<Rightarrow> fault + log_msg \<times> mem" where
  "MLogMsg psz now s M =
     (let (t, M1) = new_time now M
      in and_then (new_chars psz s M1) (\<lambda>(c, M2). Inr (\<lparr>tm_ptr = t, msg_ptr = c\<rparr>, M2)))"

text \<open>The copy constructor leaves \<open>tm\<close> without a value.\<close>

definition MLogMsg_copy :: "nat \<Rightarrow> log_msg \<Rightarrow> mem \<Rightarrow> fault + log_msg \<times> mem" where
  "MLogMsg_copy psz other M =
     and_then (read_block (char_blocks M) (msg_ptr other)) (\<lambda>b.
     and_then (new_chars psz (cstr b) M) (\<lambda>(c, M1). Inr (\<lparr>tm_ptr = Garbage, msg_ptr = c\<rparr>, M1)))"

definition clearMsg :: "log_msg \<Rightarrow> mem \<Rightarrow> fault + log_msg \<times> mem" where
  "clearMsg l M =
     and_then (delete_time (tm_ptr l) M) (\<lambda>M1.
     and_then (delete_chars (msg_ptr l) M1) (\<lambda>M2. Inr (\<lparr>tm_ptr = Null, msg_ptr = Null\<rparr>, M2)))"

text \<open>The assignments; \<open>same\<close> says that both sides are one object.\<close>

definition MLogMsg_assign :: "nat \<Rightarrow> bool \<Rightarrow> log_msg \<Rightarrow> log_msg \<Rightarrow> mem \<Rightarrow> fault + log_msg \<times> mem" where
  "MLogMsg_assign psz same l other M =
     (if same then Inr (l, M)
      else and_then (clearMsg l M) (\<lambda>(l1, M1).
           and_then (read_block (char_blocks M1) (msg_ptr other)) (\<lambda>b.
           and_then (new_chars psz (cstr b) M1) (\<lambda>(c, M2). Inr (l1\<lparr>msg_ptr := c\<rparr>, M2)))))"

text \<open>The moving constructor clears an object whose members have no value yet.\<close>

definition MLogMsg_move :: "log_msg \<Rightarrow> mem \<Rightarrow> fault + log_msg \<times> mem" where
  "MLogMsg_move other M =
     and_then (clearMsg \<lparr>tm_ptr = Garbage, msg_ptr = Garbage\<rparr> M) (\<lambda>(l, M1).
       Inr (l\<lparr>tm_ptr := tm_ptr other, msg_ptr := msg_ptr other\<rparr>, M1))"

definition MLogMsg_move_assign :: "bool \<Rightarrow> log_msg \<Rightarrow> log_msg \<Rightarrow> mem \<Rightarrow> fault + log_msg \<times> mem" where
  "MLogMsg_move_assign same l other M =
     (if same then Inr (l, M)
      else and_then (clearMsg l M) (\<lambda>(l1, M1).
             Inr (l1\<lparr>tm_ptr := tm_ptr other, msg_ptr := msg_ptr other\<rparr>, M1)))"

definition show_msg :: "log_msg \<Rightarrow> mem \<Rightarrow> fault + string" where
  "show_msg l M =
     and_then (read_block (time_blocks M) (tm_ptr l)) (\<lambda>now.
     and_then (t2s 24 (fst now) (snd now)) (\<lambda>ts.
     and_then (read_block (char_blocks M) (msg_ptr l)) (\<lambda>b. Inr (ts @ '' '' @ cstr b))))"

section \<open>The log\<close>

datatype log_level = Error | Warning | Info | Debug | Debug1 | Debug2 | Debug3 | Debug4

fun level_no :: "log_level \<Rightarrow> int" where
  "level_no Error = 0"
| "level_no Warning = 1"
| "level_no Info = 2"
| "level_no Debug = 3"
| "level_no Debug1 = 4"
| "level_no Debug2 = 5"
| "level_no Debug3 = 6"
| "level_no Debug4 = 7"

text \<open>The code compares levels by their numbers.\<close>

instantiation log_level :: linorder
begin

definition less_eq_log_level :: "log_level \<Rightarrow> log_level \<Rightarrow> bool" where
  "less_eq_log_level l k \<longleftrightarrow> level_no l \<le> level_no k"

definition less_log_level :: "log_level \<Rightarrow> log_level \<Rightarrow> bool" where
  "less_log_level l k \<longleftrightarrow> level_no l < level_no k"

instance
proof
  fix l k :: log_level
  show "l = k" if "l \<le> k" "k \<le> l"
    using that by (cases l; cases k) (simp_all add: less_eq_log_level_def)
qed (auto simp: less_eq_log_level_def less_log_level_def)

end

record mlog =
  os_text :: string                    \<comment> \<open>the contents of the stream \<open>os\<close>\<close>
  log_level_of :: log_level
  is_run :: "bool option"              \<comment> \<open>\<open>None\<close>: no value yet\<close>
  is_pause :: "bool option"
  log_queue :: "nat list"              \<comment> \<open>addresses of messages\<close>
  log_writer :: ptr
  mem_of :: mem
  shown :: "nat list"                  \<comment> \<open>the addresses the writer prints\<close>

text \<open>The constructors set the level and \<open>isRun\<close>; the flag \<open>pause0\<close> and the pointer \<open>writer0\<close> are what
  the storage holds: \<open>None\<close> and \<open>Garbage\<close> for an automatic object, zeros for a static one.\<close>

definition new_log :: "bool option \<Rightarrow> ptr \<Rightarrow> log_level \<Rightarrow> mem \<Rightarrow> mlog" where
  "new_log pause0 writer0 level M = \<lparr>os_text = [], log_level_of = level, is_run = Some True,
     is_pause = pause0, log_queue = [], log_writer = writer0, mem_of = M, shown = []\<rparr>"

text \<open>\<open>get\<close>: the number of tabulators is 0 above Debug and otherwise the difference to Debug, as a size;
  a negative one exceeds the greatest length of a string.\<close>

definition log_get :: "tm_time \<times> nat \<Rightarrow> log_level \<Rightarrow> mlog \<Rightarrow> fault + mlog" where
  "log_get now level L =
     and_then (nowTime 24 now) (\<lambda>ts.
       let n = (if level > Debug then 0 else level_no level - level_no Debug)
       in if n < 0 then Inl Thrown
          else Inr (L\<lparr>os_text := os_text L @ ts @ '' '' @ dec_int (level_no level) @ '': '' @
                 replicate (nat n) (CHR 0x09), log_level_of := level\<rparr>))"

definition log_put :: "string \<Rightarrow> mlog \<Rightarrow> mlog" where
  "log_put s L = L\<lparr>os_text := os_text L @ s\<rparr>"

text \<open>The private \<open>log\<close>: a new message object enters the queue.\<close>

definition log_text :: "nat \<Rightarrow> tm_time \<times> nat \<Rightarrow> string \<Rightarrow> mlog \<Rightarrow> fault + mlog" where
  "log_text psz now s L =
     and_then (MLogMsg psz now s (mem_of L)) (\<lambda>(l, M).
       Inr (L\<lparr>mem_of := M\<lparr>msgs := (msgs M)(fresh M \<mapsto> l), fresh := Suc (fresh M)\<rparr>,
              log_queue := log_queue L @ [fresh M]\<rparr>))"

text \<open>\<open>os.clear()\<close> resets the state of the stream, not its contents.\<close>

definition log_flush :: "nat \<Rightarrow> tm_time \<times> nat \<Rightarrow> mlog \<Rightarrow> fault + mlog" where
  "log_flush psz now L = log_text psz now (cstr (os_text L)) L"

definition log_endl :: "nat \<Rightarrow> tm_time \<times> nat \<Rightarrow> mlog \<Rightarrow> fault + mlog" where
  "log_endl psz now L =
     (let L1 = log_put [CHR 0x0A] L in log_text psz now (cstr (os_text L1)) L1)"

definition log_clear :: "mlog \<Rightarrow> mlog" where
  "log_clear L = L"

text \<open>\<open>thr\<close> is the address of the thread object.\<close>

definition log_init :: "nat \<Rightarrow> mlog \<Rightarrow> fault + mlog" where
  "log_init thr L =
     (case log_writer L of Garbage \<Rightarrow> Inl Uninitialised
      | Null \<Rightarrow> Inr (L\<lparr>log_writer := Addr thr\<rparr>)
      | Addr _ \<Rightarrow> Inr L)"

definition log_pause :: "mlog \<Rightarrow> mlog" where
  "log_pause L = L\<lparr>is_pause := Some True\<rparr>"

definition log_resume :: "mlog \<Rightarrow> mlog" where
  "log_resume L = L\<lparr>is_pause := Some False\<rparr>"

definition log_start :: "nat \<Rightarrow> mlog \<Rightarrow> fault + mlog" where
  "log_start thr L =
     and_then (log_init thr (L\<lparr>is_run := Some True\<rparr>)) (\<lambda>L1. Inr (log_resume L1))"

definition log_shutdown :: "mlog \<Rightarrow> mlog" where
  "log_shutdown L = L"

text \<open>The queue orders the addresses: its top is the greatest.\<close>

definition queue_top :: "nat list \<Rightarrow> fault + nat" where
  "queue_top q = (if q = [] then Inl OutOfBounds else Inr (Max (set q)))"

text \<open>One round of the writer: it waits (no change) while paused or without a message, and otherwise
  prints the pointer and deletes the message.\<close>

definition handle_log :: "mlog \<Rightarrow> fault + mlog" where
  "handle_log L =
     (case is_pause L of None \<Rightarrow> Inl Uninitialised
      | Some p \<Rightarrow>
          if p \<or> log_queue L = [] then Inr L
          else and_then (queue_top (log_queue L)) (\<lambda>a.
               case msgs (mem_of L) a of None \<Rightarrow> Inl Dangling
               | Some l \<Rightarrow>
                   and_then (clearMsg l (mem_of L)) (\<lambda>(_, M).
                     Inr (L\<lparr>log_queue := remove1 a (log_queue L), shown := shown L @ [a],
                            mem_of := M\<lparr>msgs := (msgs M)(a := None)\<rparr>\<rparr>))))"

text \<open>Copying a log: level and copies of the queued messages, from the top down.\<close>

fun copy_queue :: "nat \<Rightarrow> nat list \<Rightarrow> mlog \<Rightarrow> fault + mlog" where
  "copy_queue psz [] L = Inr L"
| "copy_queue psz (a # as) L =
     (case msgs (mem_of L) a of None \<Rightarrow> Inl Dangling
      | Some l \<Rightarrow>
          and_then (MLogMsg_copy psz l (mem_of L)) (\<lambda>(k, M).
            copy_queue psz as (L\<lparr>mem_of := M\<lparr>msgs := (msgs M)(fresh M \<mapsto> k), fresh := Suc (fresh M)\<rparr>,
              log_queue := log_queue L @ [fresh M]\<rparr>)))"

definition log_copy :: "nat \<Rightarrow> bool option \<Rightarrow> ptr \<Rightarrow> mlog \<Rightarrow> fault + mlog" where
  "log_copy psz flag0 writer0 other =
     copy_queue psz (rev (sort (log_queue other)))
       ((new_log flag0 writer0 (log_level_of other) (mem_of other))\<lparr>is_run := flag0\<rparr>)"

text \<open>The loop of the assignment runs while the other queue is not empty, which it never changes.\<close>

partial_function (option) assign_loop :: "nat \<Rightarrow> bool \<Rightarrow> mlog \<Rightarrow> (fault + mlog) option" where
  "assign_loop psz other_empty L =
     (if other_empty then Some (Inr L)
      else (case and_then (queue_top (log_queue L)) (\<lambda>a.
              case msgs (mem_of L) a of None \<Rightarrow> Inl Dangling
              | Some l \<Rightarrow> MLogMsg_copy psz l (mem_of L)) of
            Inl e \<Rightarrow> Some (Inl e)
          | Inr km \<Rightarrow>
              assign_loop psz other_empty
                (L\<lparr>mem_of := (snd km)\<lparr>msgs := (msgs (snd km))(fresh (snd km) \<mapsto> fst km),
                   fresh := Suc (fresh (snd km))\<rparr>,
                   log_queue := log_queue L @ [fresh (snd km)]\<rparr>)))"

definition log_assign :: "nat \<Rightarrow> mlog \<Rightarrow> mlog \<Rightarrow> (fault + mlog) option" where
  "log_assign psz L other =
     assign_loop psz (log_queue other = [])
       (L\<lparr>os_text := os_text L @ os_text other, log_level_of := log_level_of other\<rparr>)"

section \<open>Ownership\<close>

text \<open>Every queued address holds a message that owns one time block and one character block of its
  own, and nothing else is allocated.\<close>

definition owns :: "(nat \<Rightarrow> nat) \<Rightarrow> (nat \<Rightarrow> nat) \<Rightarrow> mlog \<Rightarrow> bool" where
  "owns f g L \<longleftrightarrow>
     distinct (log_queue L) \<and> inj_on f (set (log_queue L)) \<and> inj_on g (set (log_queue L)) \<and>
     dom (msgs (mem_of L)) = set (log_queue L) \<and>
     dom (time_blocks (mem_of L)) = f ` set (log_queue L) \<and>
     dom (char_blocks (mem_of L)) = g ` set (log_queue L) \<and>
     (\<forall>a \<in> set (log_queue L). msgs (mem_of L) a = Some \<lparr>tm_ptr = Addr (f a), msg_ptr = Addr (g a)\<rparr>) \<and>
     (\<forall>a \<in> set (log_queue L). a < fresh (mem_of L) \<and> f a < fresh (mem_of L) \<and> g a < fresh (mem_of L))"

definition wf_log :: "mlog \<Rightarrow> bool" where
  "wf_log L \<longleftrightarrow> (\<exists>f g. owns f g L)"

lemma wf_log_frame:
  "wf_log L \<Longrightarrow> log_queue L' = log_queue L \<Longrightarrow> mem_of L' = mem_of L \<Longrightarrow> wf_log L'"
  unfolding wf_log_def owns_def by simp

text \<open>What logging a text that fits does to the store.\<close>

definition logged :: "tm_time \<times> nat \<Rightarrow> string \<Rightarrow> mlog \<Rightarrow> mlog" where
  "logged now s L =
     (let M = mem_of L; n = fresh M in
      L\<lparr>mem_of := M\<lparr>time_blocks := (time_blocks M)(n \<mapsto> now),
           char_blocks := (char_blocks M)(Suc n \<mapsto> s @ [NUL]),
           msgs := (msgs M)(Suc (Suc n) \<mapsto> \<lparr>tm_ptr = Addr n, msg_ptr = Addr (Suc n)\<rparr>),
           fresh := Suc (Suc (Suc n))\<rparr>,
        log_queue := log_queue L @ [Suc (Suc n)]\<rparr>)"

lemma log_text_eq [op_simps]:
  "log_text psz now s L = (if length s < psz then Inr (logged now s L) else Inl OutOfBounds)"
  by (simp add: log_text_def MLogMsg_def new_time_def new_chars_def logged_def Let_def)

lemma inj_on_upd_new:
  "inj_on h Q \<Longrightarrow> x \<notin> Q \<Longrightarrow> k \<notin> h ` Q \<Longrightarrow> inj_on (h(x := k)) (insert x Q)"
  by (auto simp: inj_on_def)

lemma image_upd_new: "x \<notin> Q \<Longrightarrow> (h(x := k)) ` insert x Q = insert k (h ` Q)"
  by auto

lemma wf_logged [pres]:
  assumes "wf_log L"
  shows "wf_log (logged now s L)"
proof -
  obtain f g where o: "owns f g L" using assms by (auto simp: wf_log_def)
  define n where "n = fresh (mem_of L)"
  define Q where "Q = set (log_queue L)"
  define L' where "L' = logged now s L"
  note w = o [unfolded owns_def, folded n_def Q_def]
  have new: "\<And>a. a \<in> Q \<Longrightarrow> a < n" "\<And>a. a \<in> Q \<Longrightarrow> f a < n" "\<And>a. a \<in> Q \<Longrightarrow> g a < n"
    using w by blast+
  have nQ: "Suc (Suc n) \<notin> Q" "n \<notin> f ` Q" "Suc n \<notin> g ` Q"
    using new(1) [of "Suc (Suc n)"] new(2,3) by (fastforce simp: less_Suc_eq)+
  have q: "log_queue L' = log_queue L @ [Suc (Suc n)]" "fresh (mem_of L') = Suc (Suc (Suc n))"
    "msgs (mem_of L') = (msgs (mem_of L))(Suc (Suc n) \<mapsto> \<lparr>tm_ptr = Addr n, msg_ptr = Addr (Suc n)\<rparr>)"
    "dom (time_blocks (mem_of L')) = insert n (dom (time_blocks (mem_of L)))"
    "dom (char_blocks (mem_of L')) = insert (Suc n) (dom (char_blocks (mem_of L)))"
    by (simp_all add: L'_def logged_def Let_def n_def)
  have sq: "set (log_queue L') = insert (Suc (Suc n)) Q" by (simp add: q Q_def)
  have "owns (f(Suc (Suc n) := n)) (g(Suc (Suc n) := Suc n)) L'"
    unfolding owns_def sq image_upd_new [OF nQ(1)]
  proof (intro conjI)
    show "inj_on (f(Suc (Suc n) := n)) (insert (Suc (Suc n)) Q)"
      "inj_on (g(Suc (Suc n) := Suc n)) (insert (Suc (Suc n)) Q)"
      using inj_on_upd_new [OF _ nQ(1,2)] inj_on_upd_new [OF _ nQ(1,3)] w by blast+
    show "distinct (log_queue L')" using w nQ(1) by (simp add: q(1) Q_def)
    show "dom (msgs (mem_of L')) = insert (Suc (Suc n)) Q" using w by (simp add: q(3))
    show "dom (time_blocks (mem_of L')) = insert n (f ` Q)" using w by (simp add: q(4))
    show "dom (char_blocks (mem_of L')) = insert (Suc n) (g ` Q)" using w by (simp add: q(5))
    show "\<forall>a \<in> insert (Suc (Suc n)) Q. msgs (mem_of L') a =
        Some \<lparr>tm_ptr = Addr ((f(Suc (Suc n) := n)) a), msg_ptr = Addr ((g(Suc (Suc n) := Suc n)) a)\<rparr>"
      using w nQ(1) by (auto simp: q(3))
    show "\<forall>a \<in> insert (Suc (Suc n)) Q. a < fresh (mem_of L') \<and> (f(Suc (Suc n) := n)) a < fresh (mem_of L') \<and>
        (g(Suc (Suc n) := Suc n)) a < fresh (mem_of L')"
      using new by (auto simp: q(2) less_Suc_eq)
  qed
  then show ?thesis unfolding L'_def wf_log_def by blast
qed

text \<open>The writer frees the message it shows, and only that.\<close>

definition written :: "mlog \<Rightarrow> mlog" where
  "written L =
     (let a = Max (set (log_queue L)); M = mem_of L in
      case msgs M a of None \<Rightarrow> L
      | Some l \<Rightarrow>
          (case (tm_ptr l, msg_ptr l) of
             (Addr t, Addr c) \<Rightarrow>
               L\<lparr>log_queue := remove1 a (log_queue L), shown := shown L @ [a],
                 mem_of := M\<lparr>time_blocks := (time_blocks M)(t := None),
                    char_blocks := (char_blocks M)(c := None), msgs := (msgs M)(a := None)\<rparr>\<rparr>
           | _ \<Rightarrow> L))"

lemma handle_log_eq [op_simps]:
  assumes "wf_log L" "is_pause L = Some p"
  shows "handle_log L = Inr (if p \<or> log_queue L = [] then L else written L)"
proof (cases "p \<or> log_queue L = []")
  case True
  then show ?thesis using assms(2) by (simp add: handle_log_def)
next
  case False
  define a where "a = Max (set (log_queue L))"
  obtain f g where o: "owns f g L" using assms by (auto simp: wf_log_def)
  have a: "a \<in> set (log_queue L)" using False unfolding a_def by (intro Max_in) auto
  then have m: "msgs (mem_of L) a = Some \<lparr>tm_ptr = Addr (f a), msg_ptr = Addr (g a)\<rparr>"
    using o by (simp add: owns_def)
  have "f a \<in> dom (time_blocks (mem_of L))" "g a \<in> dom (char_blocks (mem_of L))"
    using o a by (simp_all add: owns_def)
  then obtain x y where "time_blocks (mem_of L) (f a) = Some x" "char_blocks (mem_of L) (g a) = Some y" by blast
  with False assms(2) m show ?thesis
    by (simp add: handle_log_def queue_top_def a_def [symmetric] clearMsg_def written_def Let_def)
qed

lemma wf_written [pres]:
  assumes "wf_log L" "log_queue L \<noteq> []"
  shows "wf_log (written L)"
    "length (log_queue (written L)) < length (log_queue L)"
proof -
  define a where "a = Max (set (log_queue L))"
  obtain f g where o: "owns f g L" using assms by (auto simp: wf_log_def)
  define Q where "Q = set (log_queue L)"
  note w = o [unfolded owns_def, folded Q_def]
  have a: "a \<in> Q" using assms(2) unfolding a_def Q_def by (intro Max_in) auto
  then have m: "msgs (mem_of L) a = Some \<lparr>tm_ptr = Addr (f a), msg_ptr = Addr (g a)\<rparr>" using w by simp
  have q: "log_queue (written L) = remove1 a (log_queue L)"
    "fresh (mem_of (written L)) = fresh (mem_of L)"
    "msgs (mem_of (written L)) = (msgs (mem_of L))(a := None)"
    "time_blocks (mem_of (written L)) = (time_blocks (mem_of L))(f a := None)"
    "char_blocks (mem_of (written L)) = (char_blocks (mem_of L))(g a := None)"
    using m by (simp_all add: written_def a_def [symmetric] Let_def)
  have sq: "set (log_queue (written L)) = Q - {a}" using w by (simp add: q(1) Q_def)
  have im: "h ` (Q - {a}) = h ` Q - {h a}" if "inj_on h Q" for h :: "nat \<Rightarrow> nat"
    using that a by (auto simp: inj_on_def)
  have "owns f g (written L)"
    unfolding owns_def sq
  proof (intro conjI)
    show "distinct (log_queue (written L))" using w by (simp add: q(1))
    show "inj_on f (Q - {a})" "inj_on g (Q - {a})" using w by (auto intro: inj_on_subset)
    show "dom (msgs (mem_of (written L))) = Q - {a}" using w by (simp add: q(3))
    show "dom (time_blocks (mem_of (written L))) = f ` (Q - {a})" using w by (simp add: q(4) im)
    show "dom (char_blocks (mem_of (written L))) = g ` (Q - {a})" using w by (simp add: q(5) im)
  qed (use w in \<open>auto simp: q(2,3)\<close>)
  then show "wf_log (written L)" unfolding wf_log_def by blast
  show "length (log_queue (written L)) < length (log_queue L)"
    using a length_pos_if_in_set [of a "log_queue L"] by (simp add: q(1) length_remove1 Q_def)
qed

section \<open>Runs of the logger\<close>

datatype log_op = Get "tm_time \<times> nat" log_level | Put string | Flush "tm_time \<times> nat"
  | Endl "tm_time \<times> nat" | Clear | Pause | Resume | Start nat | Shutdown | Writer

text \<open>The calls of a program and the rounds of the writer, in the order in which they happen.\<close>

fun log_do :: "nat \<Rightarrow> log_op \<Rightarrow> mlog \<Rightarrow> fault + mlog" where
  "log_do psz (Get now level) L = log_get now level L"
| "log_do psz (Put s) L = Inr (log_put s L)"
| "log_do psz (Flush now) L = log_flush psz now L"
| "log_do psz (Endl now) L = log_endl psz now L"
| "log_do psz Clear L = Inr (log_clear L)"
| "log_do psz Pause L = Inr (log_pause L)"
| "log_do psz Resume L = Inr (log_resume L)"
| "log_do psz (Start thr) L = log_start thr L"
| "log_do psz Shutdown L = Inr (log_shutdown L)"
| "log_do psz Writer L = handle_log L"

fun log_run :: "nat \<Rightarrow> log_op list \<Rightarrow> mlog \<Rightarrow> fault + mlog" where
  "log_run psz [] L = Inr L"
| "log_run psz (x # xs) L = and_then (log_do psz x L) (log_run psz xs)"

definition empty_mem :: mem where
  "empty_mem = \<lparr>time_blocks = (\<lambda>_. None), char_blocks = (\<lambda>_. None), msgs = (\<lambda>_. None), fresh = 1\<rparr>"

text \<open>A log of static storage.\<close>

definition static_log :: "log_level \<Rightarrow> mlog" where
  "static_log level = new_log (Some False) Null level empty_mem"

definition log_ok :: "mlog \<Rightarrow> bool" where
  "log_ok L \<longleftrightarrow> wf_log L \<and> is_pause L \<noteq> None \<and> log_writer L \<noteq> Garbage"

definition memory_faults :: "fault set" where
  "memory_faults = {BadFree, Dangling, NullDeref}"

lemma static_log_ok: "log_ok (static_log level)"
proof -
  have "owns id id (static_log level)"
    by (simp add: owns_def static_log_def new_log_def empty_mem_def)
  then show ?thesis by (auto simp: log_ok_def wf_log_def static_log_def new_log_def)
qed

lemma logged_fields [simp]:
  "is_pause (logged now s L) = is_pause L" "log_writer (logged now s L) = log_writer L"
  "os_text (logged now s L) = os_text L"
  by (simp_all add: logged_def Let_def)

lemma written_fields [simp]:
  "is_pause (written L) = is_pause L" "log_writer (written L) = log_writer L"
  by (auto simp: written_def Let_def split: option.split ptr.split)

lemma nowTime_faults: "nowTime cap now = Inl e \<Longrightarrow> e \<notin> memory_faults"
  by (auto simp: nowTime_def t2s_def and_then_Inl_iff sprintf_s_def store_def memory_faults_def
      split: option.splits if_splits)

lemma log_do_ok:
  assumes "log_ok L"
  shows "case log_do psz x L of Inr L' \<Rightarrow> log_ok L' | Inl e \<Rightarrow> e \<notin> memory_faults"
proof (cases x)
  case (Get now level)
  then show ?thesis
    using assms wf_log_frame [of L] nowTime_faults [of 24 now]
    by (cases "nowTime 24 now") (auto simp: log_get_def Let_def log_ok_def memory_faults_def)
next
  case (Put s)
  then show ?thesis using assms wf_log_frame [of L] by (auto simp: log_put_def log_ok_def)
next
  case (Flush now)
  then show ?thesis
    using assms by (auto simp: log_flush_def op_simps log_ok_def wf_logged memory_faults_def)
next
  case (Endl now)
  have "wf_log (log_put [CHR 0x0A] L)" using assms by (auto simp: log_ok_def log_put_def intro: wf_log_frame)
  from wf_logged [OF this] Endl show ?thesis
    using assms by (auto simp: log_endl_def op_simps log_ok_def memory_faults_def Let_def log_put_def)
next
  case (Start thr)
  then show ?thesis
    using assms wf_log_frame [of L]
    by (cases "log_writer L") (auto simp: log_start_def log_init_def log_resume_def log_ok_def)
next
  case Writer
  obtain p where p: "is_pause L = Some p" using assms by (auto simp: log_ok_def)
  have "wf_log L" using assms by (simp add: log_ok_def)
  from handle_log_eq [OF this p] Writer assms wf_written(1) [of L] show ?thesis by (auto simp: log_ok_def)
qed (use assms wf_log_frame [of L] in \<open>auto simp: log_clear_def log_pause_def log_resume_def
    log_shutdown_def log_ok_def\<close>)

lemma log_run_ok:
  "log_ok L \<Longrightarrow> case log_run psz xs L of Inr L' \<Rightarrow> log_ok L' | Inl e \<Rightarrow> e \<notin> memory_faults"
proof (induction xs arbitrary: L)
  case (Cons x xs)
  with log_do_ok [OF Cons.prems, of psz x] show ?case by (cases "log_do psz x L") auto
qed simp

section \<open>What is queued\<close>

definition msg_text :: "mem \<Rightarrow> nat \<Rightarrow> string" where
  "msg_text M a =
     (case msgs M a of None \<Rightarrow> []
      | Some l \<Rightarrow> (case read_block (char_blocks M) (msg_ptr l) of Inl _ \<Rightarrow> [] | Inr b \<Rightarrow> cstr b))"

definition queue_texts :: "mlog \<Rightarrow> string list" where
  "queue_texts L = map (msg_text (mem_of L)) (log_queue L)"

lemma queue_texts_logged:
  assumes "wf_log L" "NUL \<notin> set s"
  shows "queue_texts (logged now s L) = queue_texts L @ [s]"
proof -
  obtain f g where o: "owns f g L" using assms(1) by (auto simp: wf_log_def)
  define n where "n = fresh (mem_of L)"
  have old: "msg_text (mem_of (logged now s L)) a = msg_text (mem_of L) a" if a: "a \<in> set (log_queue L)" for a
  proof -
    have "a < n" "g a < n" "msgs (mem_of L) a = Some \<lparr>tm_ptr = Addr (f a), msg_ptr = Addr (g a)\<rparr>"
      using o a by (simp_all add: owns_def n_def)
    then show ?thesis by (auto simp: msg_text_def logged_def Let_def n_def [symmetric])
  qed
  have "msg_text (mem_of (logged now s L)) (Suc (Suc n)) = s"
    using assms(2) by (simp add: msg_text_def logged_def Let_def n_def)
  then show ?thesis
    using old by (simp add: queue_texts_def logged_def Let_def n_def)
qed

section \<open>Properties\<close>

text \<open>
  C36. Whatever sequence of calls and of rounds of the writer runs on a log of static storage: it never
  frees a block twice and never follows a null or dangling pointer, and every queued address keeps
  owning exactly one message with one time and one character block, with nothing else allocated.\<close>

theorem logger_ownership:
  "case log_run psz ops (static_log level) of
     Inr L \<Rightarrow> wf_log L
   | Inl e \<Rightarrow> e \<notin> {BadFree, Dangling, NullDeref}"
  using log_run_ok [OF static_log_ok, of psz ops level]
  by (cases "log_run psz ops (static_log level)") (simp_all add: log_ok_def memory_faults_def)

definition put_flush :: "tm_time \<times> nat \<Rightarrow> string \<Rightarrow> log_op list" where
  "put_flush now s = [Put s, Flush now]"

definition joined :: "string \<Rightarrow> string list \<Rightarrow> string list" where
  "joined t ss = map (\<lambda>k. t @ concat (take k ss)) [1..<Suc (length ss)]"

lemma joined_Nil [simp]: "joined t [] = []"
  by (simp add: joined_def)

lemma joined_Cons: "joined t (s # ss) = (t @ s) # joined (t @ s) ss"
proof -
  have "[1..<Suc (length (s # ss))] = 1 # map Suc [1..<Suc (length ss)]"
    by (simp add: upt_conv_Cons map_Suc_upt del: upt_Suc)
  then show ?thesis by (simp add: joined_def del: upt_Suc)
qed

lemma flush_step:
  assumes "wf_log L" "NUL \<notin> set (os_text L @ s)"
  shows "log_run psz (put_flush now s @ xs) L =
    (if length (os_text L @ s) < psz
     then log_run psz xs (logged now (os_text L @ s) (log_put s L)) else Inl OutOfBounds)"
proof -
  have "cstr (os_text L @ s) = os_text L @ s" using assms(2) by (rule cstr_id)
  then show ?thesis by (simp add: put_flush_def log_flush_def op_simps log_put_def)
qed

lemma flush_all:
  assumes "wf_log L" "NUL \<notin> set (os_text L @ concat ss)"
  shows "if length (os_text L @ concat ss) < psz \<or> ss = []
    then \<exists>L'. log_run psz (concat (map (put_flush now) ss)) L = Inr L' \<and>
      queue_texts L' = queue_texts L @ joined (os_text L) ss
    else log_run psz (concat (map (put_flush now) ss)) L = Inl OutOfBounds"
  using assms
proof (induction ss arbitrary: L)
  case Nil
  then show ?case by simp
next
  case (Cons s ss)
  have w: "wf_log (log_put s L)" using Cons.prems(1) by (auto simp: log_put_def intro: wf_log_frame)
  define L1 where "L1 = logged now (os_text L @ s) (log_put s L)"
  have n: "NUL \<notin> set (os_text L @ s)" using Cons.prems(2) by simp
  have L1: "wf_log L1" "os_text L1 = os_text L @ s"
    "queue_texts L1 = queue_texts L @ [os_text L @ s]"
    using wf_logged [OF w] queue_texts_logged [OF w n]
    by (simp_all add: L1_def) (simp_all add: log_put_def queue_texts_def)
  have r: "log_run psz (concat (map (put_flush now) (s # ss))) L =
    (if length (os_text L @ s) < psz then log_run psz (concat (map (put_flush now) ss)) L1
     else Inl OutOfBounds)"
    using flush_step [OF Cons.prems(1) n] by (simp add: L1_def)
  show ?case
  proof (cases "length (os_text L @ s) < psz")
    case True
    have "NUL \<notin> set (os_text L1 @ concat ss)" using Cons.prems(2) by (simp add: L1)
    from Cons.IH [OF L1(1) this] show ?thesis
      unfolding r using True
      by (cases "length (os_text L @ concat (s # ss)) < psz"; cases "ss = []")
        (auto simp: L1 joined_Cons)
  next
    case False
    then show ?thesis unfolding r by simp
  qed
qed

text \<open>Flushing does not empty the stream: after texts were put and flushed one by one, the k-th
  message queued is the concatenation of the first k texts. All messages are queued when all texts
  together are shorter than a pointer is wide, and otherwise a flush writes past its block.\<close>

theorem flush_repeats:
  assumes "ss \<noteq> []" "NUL \<notin> set (concat ss)"
  shows "if length (concat ss) < psz
    then \<exists>L. log_run psz (concat (map (put_flush now) ss)) (static_log level) = Inr L \<and>
      queue_texts L = map (\<lambda>k. concat (take k ss)) [1..<Suc (length ss)]
    else log_run psz (concat (map (put_flush now) ss)) (static_log level) = Inl OutOfBounds"
proof -
  have s: "wf_log (static_log level)" "os_text (static_log level) = []" "queue_texts (static_log level) = []"
    using static_log_ok [of level] by (simp_all add: log_ok_def static_log_def new_log_def queue_texts_def)
  show ?thesis
    using flush_all [OF s(1), of ss psz now] assms by (cases "length (concat ss) < psz") (simp_all add: s joined_def del: upt_Suc)
qed

definition sample_now :: "tm_time \<times> nat" where
  "sample_now = (\<lparr>tm_year = 2018, tm_mon = 5, tm_mday = 1, tm_hour = 12, tm_min = 0, tm_sec = 0\<rparr>, 0)"

lemma flush_repeats_witness:
  "(\<exists>L. log_run 8 (concat (map (put_flush sample_now) [''ab'', ''cd'', ''e''])) (static_log Info) = Inr L \<and>
     queue_texts L = [''ab'', ''abcd'', ''abcde'']) \<and>
   log_run 4 (concat (map (put_flush sample_now) [''ab'', ''cd'', ''e''])) (static_log Info) = Inl OutOfBounds"
proof -
  have a: "[''ab'', ''cd'', ''e''] \<noteq> []" "NUL \<notin> set (concat [''ab'', ''cd'', ''e''])"
    by (simp_all add: NUL_def)
  have u: "[1..<Suc (length [''ab'', ''cd'', ''e''])] = [1, 2, 3]" by (simp add: upt_rec)
  show ?thesis
    using flush_repeats [OF a, of 8 sample_now Info] flush_repeats [OF a, of 4 sample_now Info]
    unfolding u by (simp add: numeral_3_eq_3 numeral_2_eq_2)
qed

text \<open>\<open>get\<close> throws for the levels up to Info, its default among them.\<close>

lemma get_throws:
  assumes "level \<in> {Error, Warning, Info}" "nowTime 24 now = Inr ts"
  shows "log_get now level L = Inl Thrown"
  using assms by (auto simp: log_get_def less_log_level_def Let_def)

text \<open>Assigning a log with queued messages never returns normally.\<close>

lemma assign_loop_never:
  assumes "assign_loop psz e L = Some r" "\<not> e"
  shows "\<exists>f. r = Inl f"
  using assms
  by (induction rule: assign_loop.raw_induct [rotated, consumes 1, case_names 1])
    (auto split: sum.splits if_splits)

lemma log_assign_never:
  assumes "log_queue other \<noteq> []"
  shows "log_assign psz L other \<noteq> Some (Inr L')"
  using assign_loop_never [of psz "log_queue other = []"] assms unfolding log_assign_def by fastforce

text \<open>A log of automatic storage cannot be started: the pointer to its writer has no value.\<close>

lemma automatic_start:
  "log_start thr (new_log None Garbage level M) = Inl Uninitialised"
  by (simp add: log_start_def log_init_def new_log_def)

end
