(* ===== verification/Producers.thy ===== *)
theory Producers
  imports Prelude
begin

text \<open>
  MyUtil/LockFreeMain.cpp: producers and consumers around a lock-free stack, with any interleaving of
  their atomic operations. The stack itself is the library's; its push may fail, and its pop fails
  exactly when it is empty. The counters are atomic ints of 32 bits, which wrap around.
\<close>

section \<open>Threads\<close>

text \<open>A producer before the test of its loop with index \<open>i\<close>, pushing a value in round \<open>i\<close>, or done.\<close>

datatype prod_phase = P_loop nat | P_push nat int | P_done

text \<open>A consumer at the test of the flag, in the loop below it, about to count a value it popped there, in
  the final loop, about to count there, or done.\<close>

datatype cons_phase = C_test | C_pop | C_count | C_drain | C_drain_count | C_done

datatype main_phase = M_join_producers | M_join_consumers | M_report

record lockfree =
  producer_count :: "32 word"
  consumer_count :: "32 word"
  lf_stack :: "int list"
  isAllThreadStarted :: bool
  prods :: "prod_phase list"
  conss :: "cons_phase list"
  main_at :: main_phase

definition iterations :: nat where "iterations = 10000000"

definition producer_thread_count :: nat where "producer_thread_count = 1"

definition consumer_thread_count :: nat where "consumer_thread_count = 1"

text \<open>The atomic steps of a producer of \<open>n\<close> rounds. The value of the increment is what the counter is then, as an int.\<close>

inductive producer :: "nat \<Rightarrow> nat \<Rightarrow> lockfree \<Rightarrow> lockfree \<Rightarrow> bool" for n i where
  count: "prods S ! i = P_loop k \<Longrightarrow> k \<noteq> n \<Longrightarrow>
    producer n i S (S\<lparr>producer_count := producer_count S + 1,
      prods := (prods S)[i := P_push k (sint (producer_count S + 1))]\<rparr>)"
| finish: "prods S ! i = P_loop n \<Longrightarrow> producer n i S (S\<lparr>prods := (prods S)[i := P_done]\<rparr>)"
| push: "prods S ! i = P_push k v \<Longrightarrow>
    producer n i S (S\<lparr>lf_stack := v # lf_stack S, prods := (prods S)[i := P_loop (Suc k)]\<rparr>)"
| retry: "prods S ! i = P_push k v \<Longrightarrow> producer n i S S"

text \<open>The atomic step of a consumer.\<close>

definition consumer :: "nat \<Rightarrow> lockfree \<Rightarrow> lockfree" where
  "consumer i S =
     (case conss S ! i of
        C_test \<Rightarrow> S\<lparr>conss := (conss S)[i := (if \<not> isAllThreadStarted S then C_pop else C_drain)]\<rparr>
      | C_pop \<Rightarrow> (case lf_stack S of [] \<Rightarrow> S\<lparr>conss := (conss S)[i := C_test]\<rparr>
          | v # s \<Rightarrow> S\<lparr>lf_stack := s, conss := (conss S)[i := C_count]\<rparr>)
      | C_count \<Rightarrow> S\<lparr>consumer_count := consumer_count S + 1, conss := (conss S)[i := C_pop]\<rparr>
      | C_drain \<Rightarrow> (case lf_stack S of [] \<Rightarrow> S\<lparr>conss := (conss S)[i := C_done]\<rparr>
          | v # s \<Rightarrow> S\<lparr>lf_stack := s, conss := (conss S)[i := C_drain_count]\<rparr>)
      | C_drain_count \<Rightarrow> S\<lparr>consumer_count := consumer_count S + 1, conss := (conss S)[i := C_drain]\<rparr>
      | C_done \<Rightarrow> S)"

text \<open>main joins the producers, sets the flag, joins the consumers and reports.\<close>

definition main_step :: "lockfree \<Rightarrow> lockfree" where
  "main_step S =
     (case main_at S of
        M_join_producers \<Rightarrow>
          if set (prods S) \<subseteq> {P_done} then S\<lparr>isAllThreadStarted := True, main_at := M_join_consumers\<rparr> else S
      | M_join_consumers \<Rightarrow> if set (conss S) \<subseteq> {C_done} then S\<lparr>main_at := M_report\<rparr> else S
      | M_report \<Rightarrow> S)"

definition lockfree_init :: "nat \<Rightarrow> nat \<Rightarrow> lockfree" where
  "lockfree_init np nc = \<lparr>producer_count = 0, consumer_count = 0, lf_stack = [],
     isAllThreadStarted = False, prods = replicate np (P_loop 0), conss = replicate nc C_test,
     main_at = M_join_producers\<rparr>"

text \<open>What main prints before and behind the threads; \<open>ts\<close> are the time stamps.\<close>

definition lockfree_banner :: "bool \<Rightarrow> string \<Rightarrow> string" where
  "lockfree_banner is_lock_free ts =
     ts @ '' : boost::lockfree::stack is '' @ (if \<not> is_lock_free then ''not '' else []) @ ''lockfree'' @ [CHR 0x0A]"

definition lockfree_report :: "string \<Rightarrow> string \<Rightarrow> lockfree \<Rightarrow> string" where
  "lockfree_report ts1 ts2 S =
     ts1 @ '' : produced '' @ dec_int (sint (producer_count S)) @ '' objects.'' @ [CHR 0x0A] @
     ts2 @ '' : consumed '' @ dec_int (sint (consumer_count S)) @ '' objects.'' @ [CHR 0x0A]"

inductive lockfree_step :: "nat \<Rightarrow> lockfree \<Rightarrow> lockfree \<Rightarrow> bool" for n where
  prod: "i < length (prods S) \<Longrightarrow> producer n i S S' \<Longrightarrow> lockfree_step n S S'"
| cons: "i < length (conss S) \<Longrightarrow> lockfree_step n S (consumer i S)"
| main: "lockfree_step n S (main_step S)"

inductive lockfree_reach :: "nat \<Rightarrow> nat \<Rightarrow> nat \<Rightarrow> lockfree \<Rightarrow> bool" for n np nc where
  init: "lockfree_reach n np nc (lockfree_init np nc)"
| step: "lockfree_reach n np nc S \<Longrightarrow> lockfree_step n S S' \<Longrightarrow> lockfree_reach n np nc S'"

section \<open>Accounting\<close>

text \<open>How many values a producer has counted, how many it is holding, how many a consumer is holding.\<close>

fun counted_by :: "nat \<Rightarrow> prod_phase \<Rightarrow> nat" where
  "counted_by n (P_loop i) = i"
| "counted_by n (P_push i v) = Suc i"
| "counted_by n P_done = n"

fun pushing :: "prod_phase \<Rightarrow> nat" where
  "pushing (P_push i v) = 1"
| "pushing _ = 0"

fun popped :: "cons_phase \<Rightarrow> nat" where
  "popped C_count = 1"
| "popped C_drain_count = 1"
| "popped _ = 0"

definition accounts :: "nat \<Rightarrow> lockfree \<Rightarrow> bool" where
  "accounts n S \<longleftrightarrow>
     producer_count S = of_nat (sum_list (map (counted_by n) (prods S))) \<and>
     producer_count S = consumer_count S + of_nat (length (lf_stack S)) +
       of_nat (sum_list (map pushing (prods S))) + of_nat (sum_list (map popped (conss S)))"

definition order_ok :: "nat \<Rightarrow> nat \<Rightarrow> lockfree \<Rightarrow> bool" where
  "order_ok np nc S \<longleftrightarrow> length (prods S) = np \<and> length (conss S) = nc \<and>
     (isAllThreadStarted S \<longrightarrow> set (prods S) \<subseteq> {P_done}) \<and>
     (set (conss S) \<inter> {C_drain, C_drain_count, C_done} \<noteq> {} \<longrightarrow> isAllThreadStarted S) \<and>
     (C_done \<in> set (conss S) \<longrightarrow> lf_stack S = []) \<and>
     (main_at S \<noteq> M_join_producers \<longrightarrow> isAllThreadStarted S) \<and>
     (main_at S = M_report \<longrightarrow> set (conss S) \<subseteq> {C_done})"

lemma sum_list_update_nat:
  "i < length xs \<Longrightarrow> (of_nat (sum_list (map f (xs[i := y]))) :: 'a :: comm_ring_1) =
     of_nat (sum_list (map f xs)) - of_nat (f (xs ! i)) + of_nat (f y :: nat)"
  by (induction xs arbitrary: i) (auto split: nat.split)

lemma producer_accounts:
  assumes "accounts n S" "i < length (prods S)" "producer n i S S'"
  shows "accounts n S'"
  using assms(3)
  by (cases rule: producer.cases)
    (use assms(1,2) in \<open>auto simp: accounts_def sum_list_update_nat ac_simps\<close>)

lemma consumer_accounts:
  assumes "accounts n S" "i < length (conss S)"
  shows "accounts n (consumer i S)"
  using assms
  by (cases "conss S ! i"; cases "lf_stack S")
    (auto simp: consumer_def accounts_def sum_list_update_nat ac_simps)

lemma main_accounts: "accounts n S \<Longrightarrow> accounts n (main_step S)"
  by (auto simp: main_step_def accounts_def split: main_phase.split)

lemma producer_order:
  assumes o: "order_ok np nc S" "i < length (prods S)" and p: "producer n i S S'"
  shows "order_ok np nc S'"
proof -
  have nd: "prods S ! i \<noteq> P_done" using p by (cases rule: producer.cases) auto
  have "\<not> isAllThreadStarted S"
  proof
    assume "isAllThreadStarted S"
    with o have "set (prods S) \<subseteq> {P_done}" by (simp add: order_ok_def)
    with nth_mem [OF o(2)] nd show False by auto
  qed
  then show ?thesis using p
    by (elim producer.cases) (use o in \<open>auto simp: order_ok_def\<close>)
qed

lemma consumer_order:
  assumes o: "order_ok np nc S" "i < length (conss S)"
  shows "order_ok np nc (consumer i S)"
proof -
  have mem: "conss S ! i \<in> set (conss S)" using nth_mem [OF o(2)] .
  have upd: "set ((conss S)[i := y]) \<subseteq> insert y (set (conss S))" for y
    by (rule set_update_subset_insert)
  show ?thesis
  proof (cases "conss S ! i")
    case C_test
    with o mem have "main_at S \<noteq> M_report" by (auto simp: order_ok_def)
    with o C_test show ?thesis
      using upd [of C_pop] upd [of C_drain] by (auto simp: consumer_def order_ok_def)
  next
    case C_pop
    with o mem have "main_at S \<noteq> M_report" by (auto simp: order_ok_def)
    with o C_pop show ?thesis
      using upd [of C_test] upd [of C_count]
      by (cases "lf_stack S") (auto simp: consumer_def order_ok_def)
  next
    case C_count
    with o mem have "main_at S \<noteq> M_report" by (auto simp: order_ok_def)
    with o C_count show ?thesis
      using upd [of C_pop] by (auto simp: consumer_def order_ok_def)
  next
    case C_drain
    with o mem have "main_at S \<noteq> M_report" "isAllThreadStarted S" by (auto simp: order_ok_def)
    with o C_drain show ?thesis
      using upd [of C_done] upd [of C_drain_count]
      by (cases "lf_stack S") (auto simp: consumer_def order_ok_def)
  next
    case C_drain_count
    with o mem have "main_at S \<noteq> M_report" "isAllThreadStarted S" by (auto simp: order_ok_def)
    with o C_drain_count show ?thesis
      using upd [of C_drain] by (auto simp: consumer_def order_ok_def)
  next
    case C_done
    with o show ?thesis by (simp add: consumer_def)
  qed
qed

lemma main_order: "order_ok np nc S \<Longrightarrow> order_ok np nc (main_step S)"
  by (auto simp: main_step_def order_ok_def split: main_phase.split)

lemma lockfree_inv:
  assumes "lockfree_reach n np nc S"
  shows "accounts n S \<and> order_ok np nc S"
  using assms
proof (induction rule: lockfree_reach.induct)
  case init
  have "sum_list (map pushing (replicate np (P_loop 0))) = 0" "sum_list (map popped (replicate nc C_test)) = 0"
    "sum_list (map (counted_by n) (replicate np (P_loop 0))) = 0"
    by (simp_all add: map_replicate sum_list_replicate)
  then show ?case by (auto simp: accounts_def order_ok_def lockfree_init_def sum_list_replicate)
next
  case (step S S')
  from step.hyps(2) show ?case
  proof (cases rule: lockfree_step.cases)
    case (prod i)
    with step.IH show ?thesis by (metis producer_accounts producer_order)
  next
    case (cons i)
    with step.IH show ?thesis by (metis consumer_accounts consumer_order)
  next
    case main
    with step.IH show ?thesis by (metis main_accounts main_order)
  qed
qed

section \<open>Finishing\<close>

text \<open>How many steps are left at most when no step is wasted: those of the producers with the values they will still
  push, the values on the stack, and those of the consumers and main.\<close>

fun rounds_ok :: "nat \<Rightarrow> prod_phase \<Rightarrow> bool" where
  "rounds_ok n (P_loop k) = (k \<le> n)"
| "rounds_ok n (P_push k v) = (k < n)"
| "rounds_ok n P_done = True"

fun prod_left :: "nat \<Rightarrow> prod_phase \<Rightarrow> nat" where
  "prod_left n (P_loop k) = 4 * (n - k) + 1"
| "prod_left n (P_push k v) = 4 * (n - k)"
| "prod_left n P_done = 0"

fun cons_left :: "cons_phase \<Rightarrow> nat" where
  "cons_left C_count = 5"
| "cons_left C_pop = 4"
| "cons_left C_test = 3"
| "cons_left C_drain_count = 2"
| "cons_left C_drain = 1"
| "cons_left C_done = 0"

fun main_left :: "main_phase \<Rightarrow> nat" where
  "main_left M_join_producers = 2"
| "main_left M_join_consumers = 1"
| "main_left M_report = 0"

definition work_left :: "nat \<Rightarrow> lockfree \<Rightarrow> nat" where
  "work_left n S = main_left (main_at S) + sum_list (map (prod_left n) (prods S)) + 2 * length (lf_stack S) +
     sum_list (map cons_left (conss S))"

lemma rounds_step:
  assumes "lockfree_step n S S'" "\<forall>p \<in> set (prods S). rounds_ok n p"
  shows "\<forall>p \<in> set (prods S'). rounds_ok n p"
  using assms(1)
proof (cases rule: lockfree_step.cases)
  case (prod i)
  have m: "rounds_ok n (prods S ! i)" using assms(2) nth_mem [OF prod(1)] by blast
  have "S' = S \<or> (\<exists>y. prods S' = (prods S)[i := y] \<and> rounds_ok n y)"
    using prod(2) by (cases rule: producer.cases) (use m in auto)
  with assms(2) set_update_subset_insert [of "prods S" i] show ?thesis by (metis insert_iff subsetD)
next
  case (cons i)
  then show ?thesis using assms(2) by (auto simp: consumer_def split: cons_phase.splits list.splits)
next
  case main
  then show ?thesis using assms(2) by (auto simp: main_step_def split: main_phase.splits)
qed

lemma reach_rounds:
  assumes "lockfree_reach n np nc S"
  shows "\<forall>p \<in> set (prods S). rounds_ok n p"
  using assms
proof (induction rule: lockfree_reach.induct)
  case init
  then show ?case by (simp add: lockfree_init_def)
next
  case (step S S')
  then show ?case using rounds_step by blast
qed

lemma sum_list_update_shift:
  "i < length xs \<Longrightarrow> sum_list (map f (xs[i := y])) + f (xs ! i) = sum_list (map f xs) + (f y :: nat)"
  by (induction xs arbitrary: i) (auto split: nat.split)

lemma producer_works:
  assumes "\<forall>p \<in> set (prods S). rounds_ok n p" "i < length (prods S)" "prods S ! i \<noteq> P_done"
  shows "\<exists>S'. lockfree_step n S S' \<and> work_left n S' < work_left n S"
proof -
  have m: "rounds_ok n (prods S ! i)" using assms(1) nth_mem [OF assms(2)] by blast
  note u = sum_list_update_shift [OF assms(2), of "prod_left n"]
  have "\<exists>S'. producer n i S S' \<and> work_left n S' < work_left n S"
  proof (cases "prods S ! i")
    case (P_loop k)
    show ?thesis
    proof (cases "k = n")
      case True
      with P_loop have p: "prods S ! i = P_loop n" by simp
      have "work_left n (S\<lparr>prods := (prods S)[i := P_done]\<rparr>) < work_left n S"
        using u [of P_done] p by (simp add: work_left_def)
      with producer.finish [OF p] show ?thesis by blast
    next
      case False
      then have "work_left n (S\<lparr>producer_count := producer_count S + 1,
          prods := (prods S)[i := P_push k (sint (producer_count S + 1))]\<rparr>) < work_left n S"
        using u [of "P_push k (sint (producer_count S + 1))"] P_loop by (simp add: work_left_def)
      with producer.count [OF P_loop False] show ?thesis by blast
    qed
  next
    case (P_push k v)
    with m have "k < n" by simp
    then have "work_left n (S\<lparr>lf_stack := v # lf_stack S, prods := (prods S)[i := P_loop (Suc k)]\<rparr>) < work_left n S"
      using u [of "P_loop (Suc k)"] P_push by (simp add: work_left_def)
    with producer.push [OF P_push] show ?thesis by blast
  qed (use assms(3) in simp)
  with lockfree_step.prod [OF assms(2)] show ?thesis by blast
qed

lemma consumer_works:
  assumes "isAllThreadStarted S" "i < length (conss S)" "conss S ! i \<noteq> C_done"
  shows "work_left n (consumer i S) < work_left n S"
proof -
  note u = sum_list_update_shift [OF assms(2), of cons_left]
  show ?thesis
    by (cases "conss S ! i"; cases "lf_stack S")
      (use assms(1,3) u [of C_pop] u [of C_test] u [of C_count] u [of C_drain] u [of C_drain_count] u [of C_done]
        in \<open>simp_all add: consumer_def work_left_def\<close>)
qed

lemma main_works:
  assumes "main_at S = M_join_producers \<and> set (prods S) \<subseteq> {P_done} \<or>
    main_at S = M_join_consumers \<and> set (conss S) \<subseteq> {C_done}"
  shows "work_left n (main_step S) < work_left n S"
  using assms by (auto simp: main_step_def work_left_def)

text \<open>Before main reports, some step brings the end nearer.\<close>

lemma lockfree_progress:
  assumes "lockfree_reach n np nc S" "main_at S \<noteq> M_report"
  shows "\<exists>S'. lockfree_step n S S' \<and> work_left n S' < work_left n S"
proof (cases "set (prods S) \<subseteq> {P_done}")
  case False
  then obtain p where "p \<in> set (prods S)" "p \<noteq> P_done" by blast
  then obtain i where "i < length (prods S)" "prods S ! i \<noteq> P_done" by (metis in_set_conv_nth)
  with producer_works [OF reach_rounds [OF assms(1)]] show ?thesis by blast
next
  case joined: True
  show ?thesis
  proof (cases "main_at S = M_join_producers \<or> set (conss S) \<subseteq> {C_done}")
    case True
    then have "main_at S = M_join_producers \<and> set (prods S) \<subseteq> {P_done} \<or>
        main_at S = M_join_consumers \<and> set (conss S) \<subseteq> {C_done}"
      using joined assms(2) by (cases "main_at S") simp_all
    from main_works [OF this] lockfree_step.main show ?thesis by blast
  next
    case False
    then obtain p where "p \<in> set (conss S)" "p \<noteq> C_done" by blast
    then obtain i where i: "i < length (conss S)" "conss S ! i \<noteq> C_done" by (metis in_set_conv_nth)
    have "isAllThreadStarted S" using lockfree_inv [OF assms(1)] False by (simp add: order_ok_def)
    from consumer_works [OF this i] lockfree_step.cons [OF i(1)] show ?thesis by blast
  qed
qed

lemma lockfree_finishes:
  assumes "lockfree_reach n np nc S"
  shows "\<exists>S'. (lockfree_step n)\<^sup>*\<^sup>* S S' \<and> main_at S' = M_report"
  using assms
proof (induction "work_left n S" arbitrary: S rule: less_induct)
  case less
  show ?case
  proof (cases "main_at S = M_report")
    case False
    from lockfree_progress [OF less.prems False]
    obtain S1 where S1: "lockfree_step n S S1" "work_left n S1 < work_left n S" by blast
    from less.hyps [OF S1(2) lockfree_reach.step [OF less.prems S1(1)]] S1(1) show ?thesis
      by (meson converse_rtranclp_into_rtranclp)
  qed auto
qed

section \<open>Properties\<close>

text \<open>A number in the range of int is read back from its word.\<close>

lemma sint_small_nat:
  assumes "k < 2 ^ 31"
  shows "sint (of_nat k :: 32 word) = int k"
proof -
  have "int k < 2 ^ 31" using assms by simp
  then show ?thesis by (simp add: signed_of_nat signed_take_bit_int_eq_self)
qed

lemma report_counts:
  assumes "lockfree_reach n np nc S" "main_at S = M_report" "0 < nc"
  shows "producer_count S = of_nat (np * n) \<and> consumer_count S = of_nat (np * n) \<and> lf_stack S = []"
proof -
  have a: "accounts n S" and o: "order_ok np nc S" using lockfree_inv [OF assms(1)] by simp_all
  have "set (conss S) \<subseteq> {C_done}" "set (prods S) \<subseteq> {P_done}"
    and l: "length (prods S) = np" "length (conss S) = nc"
    using o assms(2) by (auto simp: order_ok_def)
  then have r: "conss S = replicate nc C_done" "prods S = replicate np P_done"
    by (auto intro!: replicate_eqI)
  have "C_done \<in> set (conss S)" using assms(3) by (simp add: r)
  with o have s: "lf_stack S = []" by (simp add: order_ok_def)
  have "sum_list (map (counted_by n) (prods S)) = np * n" "sum_list (map pushing (prods S)) = 0"
    "sum_list (map popped (conss S)) = 0"
    by (simp_all add: r sum_list_replicate map_replicate)
  with a s show ?thesis by (simp add: accounts_def) (metis of_nat_mult)
qed

text \<open>
  C32. For any number of rounds, of producers and of consumers, of which there is at least one, and in
  every interleaving: from every reachable state all threads can end and main can report; and when main reports, the
  stack is empty and both counters, which the report prints as ints, are the number of producers times the number
  of rounds modulo \<open>2 ^ 32\<close>, and so exactly this number while it is an int.\<close>

theorem all_consumed:
  assumes "lockfree_reach n np nc S" "0 < nc"
  shows "(\<exists>S'. (lockfree_step n)\<^sup>*\<^sup>* S S' \<and> main_at S' = M_report) \<and>
    (main_at S = M_report \<longrightarrow> lf_stack S = [] \<and> producer_count S = of_nat (np * n) \<and> consumer_count S = of_nat (np * n) \<and>
       (np * n < 2 ^ 31 \<longrightarrow> lockfree_report ts1 ts2 S =
         ts1 @ '' : produced '' @ dec_nat (np * n) @ '' objects.'' @ [CHR 0x0A] @
         ts2 @ '' : consumed '' @ dec_nat (np * n) @ '' objects.'' @ [CHR 0x0A]))"
proof (intro conjI impI)
  show "\<exists>S'. (lockfree_step n)\<^sup>*\<^sup>* S S' \<and> main_at S' = M_report" by (rule lockfree_finishes [OF assms(1)])
  assume "main_at S = M_report"
  note c = report_counts [OF assms(1) this assms(2)]
  then show "lf_stack S = []" "producer_count S = of_nat (np * n)" "consumer_count S = of_nat (np * n)" by simp_all
  assume "np * n < 2 ^ 31"
  then have "dec_int (sint (of_nat (np * n) :: 32 word)) = dec_nat (np * n)"
    unfolding sint_small_nat [OF \<open>np * n < 2 ^ 31\<close>] by (simp add: dec_int_def del: of_nat_mult)
  then show "lockfree_report ts1 ts2 S =
         ts1 @ '' : produced '' @ dec_nat (np * n) @ '' objects.'' @ [CHR 0x0A] @
         ts2 @ '' : consumed '' @ dec_nat (np * n) @ '' objects.'' @ [CHR 0x0A]"
    unfolding lockfree_report_def using c by simp
qed

text \<open>A complete run of one producer of one round with one consumer that pops before the flag is set.\<close>

lemma all_consumed_witness:
  "\<exists>S. lockfree_reach 1 1 1 S \<and> main_at S = M_report \<and> consumer_count S = 1"
proof -
  define S0 where "S0 = lockfree_init 1 1"
  define S1 where "S1 = S0\<lparr>producer_count := 1, prods := [P_push 0 1]\<rparr>"
  define S2 where "S2 = S1\<lparr>lf_stack := [1], prods := [P_loop 1]\<rparr>"
  define S3 where "S3 = S2\<lparr>prods := [P_done]\<rparr>"
  define S4 where "S4 = consumer 0 (consumer 0 (consumer 0 (consumer 0 S3)))"
  define S5 where "S5 = main_step S4"
  define S6 where "S6 = main_step (consumer 0 (consumer 0 S5))"
  have p1: "producer 1 0 S0 S1"
    using producer.count [of S0 0 0 1] by (simp add: S0_def S1_def lockfree_init_def)
  have p2: "producer 1 0 S1 S2"
    using producer.push [of S1 0 0 1 1] by (simp add: S0_def S1_def S2_def lockfree_init_def)
  have p3: "producer 1 0 S2 S3"
    using producer.finish [of S2 0 1] by (simp add: S0_def S1_def S2_def S3_def lockfree_init_def)
  have l: "length (prods S0) = 1" "length (prods S1) = 1" "length (prods S2) = 1"
    by (simp_all add: S0_def S1_def S2_def lockfree_init_def)
  have r3: "lockfree_reach 1 1 1 S3"
    using lockfree_reach.step [OF lockfree_reach.step [OF lockfree_reach.step [OF lockfree_reach.init [of 1 1 1, folded S0_def]
      lockfree_step.prod [OF _ p1]] lockfree_step.prod [OF _ p2]] lockfree_step.prod [OF _ p3]] l by simp
  have c: "lockfree_reach 1 1 1 (consumer 0 S)" if "lockfree_reach 1 1 1 S" for S
  proof -
    have "order_ok 1 1 S" using lockfree_inv [OF that] by simp
    then have "0 < length (conss S)" by (simp add: order_ok_def)
    with lockfree_reach.step [OF that lockfree_step.cons] show ?thesis by blast
  qed
  have r6: "lockfree_reach 1 1 1 S6"
    unfolding S6_def S5_def S4_def by (intro lockfree_reach.step [OF _ lockfree_step.main] c r3)
  have m: "main_at S6 = M_report"
    by (simp add: S6_def S5_def S4_def S3_def S2_def S1_def S0_def lockfree_init_def consumer_def main_step_def)
  from all_consumed [OF r6] r6 m show ?thesis by auto
qed

end
