(* ===== verification/Small_Programs.thy ===== *)
theory Small_Programs
  imports Prelude
begin

text \<open>
  Small programs of Project1: the indenting stream buffer of IndentStream.cpp, the
  line log of MLog2.cpp, the linked list of names of NamedLinkedList.cpp, and the books of Books.cpp and
  Books.hpp.
\<close>

section \<open>The indenting stream buffer\<close>

definition newline :: char where "newline = CHR 0x0A"

text \<open>The buffer below is the text it holds; \<open>acc\<close> says whether it accepts one more character.\<close>

record indentbuf =
  m_sbuf :: string
  m_indent :: int
  m_need :: bool

definition new_indentbuf :: "string \<Rightarrow> indentbuf" where
  "new_indentbuf sink = \<lparr>m_sbuf = sink, m_indent = 4, m_need = True\<rparr>"

definition buf_indent :: "indentbuf \<Rightarrow> indentbuf" where
  "buf_indent b = b\<lparr>m_indent := m_indent b + 4\<rparr>"

definition buf_deindent :: "indentbuf \<Rightarrow> indentbuf" where
  "buf_deindent b = (if m_indent b \<ge> 4 then b\<lparr>m_indent := m_indent b - 4\<rparr> else b)"

text \<open>\<open>sputc\<close> returns the character, or end of file (\<open>None\<close>) when the buffer below refuses.\<close>

definition sputc :: "(string \<Rightarrow> bool) \<Rightarrow> char \<Rightarrow> string \<Rightarrow> char option \<times> string" where
  "sputc acc c s = (if acc s then (Some c, s @ [c]) else (None, s))"

text \<open>\<open>fill_n\<close> over an iterator that stops writing after its first failure.\<close>

fun fill_n :: "(string \<Rightarrow> bool) \<Rightarrow> nat \<Rightarrow> char \<Rightarrow> string \<Rightarrow> string" where
  "fill_n acc 0 c s = s"
| "fill_n acc (Suc n) c s = (if acc s then fill_n acc n c (s @ [c]) else s)"

text \<open>\<open>overflow\<close> with a character or end of file. End of file is passed on and becomes, as a character,
  the byte 0xFF.\<close>

definition buf_overflow :: "(string \<Rightarrow> bool) \<Rightarrow> char option \<Rightarrow> indentbuf \<Rightarrow> char option \<times> indentbuf" where
  "buf_overflow acc c b =
     (case c of None \<Rightarrow> let (r, s) = sputc acc (CHR 0xFF) (m_sbuf b) in (r, b\<lparr>m_sbuf := s\<rparr>)
      | Some ch \<Rightarrow>
          let b1 = (if m_need b
                    then b\<lparr>m_sbuf := fill_n acc (nat (m_indent b)) (CHR '' '') (m_sbuf b), m_need := False\<rparr>
                    else b);
              (r, s) = sputc acc ch (m_sbuf b1);
              b2 = b1\<lparr>m_sbuf := s\<rparr>
          in if r = None then (None, b2)
             else (Some ch, if ch = newline then b2\<lparr>m_need := True\<rparr> else b2))"

text \<open>Writing a text passes it character by character, up to the first failure.\<close>

fun put_text :: "(string \<Rightarrow> bool) \<Rightarrow> string \<Rightarrow> indentbuf \<Rightarrow> indentbuf" where
  "put_text acc [] b = b"
| "put_text acc (c # cs) b =
     (let (r, b1) = buf_overflow acc (Some c) b in if r = None then b1 else put_text acc cs b1)"

text \<open>The main program: the number 31 in hexadecimal on three lines.\<close>

definition hex_line :: string where
  "hex_line = ''31 hexadecimal: '' @ ''1f''"

definition indent_main :: "(string \<Rightarrow> bool) \<Rightarrow> string \<Rightarrow> indentbuf" where
  "indent_main acc sink =
     (let b0 = new_indentbuf sink;
          b1 = put_text acc (hex_line @ [newline]) b0;
          b2 = put_text acc [newline] (buf_deindent (put_text acc hex_line b1))
      in put_text acc (hex_line @ [newline]) b2)"

section \<open>The line log\<close>

record line_log =
  ll_out :: string
  ll_next_is_begin :: bool
  ll_header :: string

definition new_line_log :: "string \<Rightarrow> string \<Rightarrow> line_log" where
  "new_line_log header out = \<lparr>ll_out = out, ll_next_is_begin = True, ll_header = header\<rparr>"

definition default_log_header :: string where "default_log_header = ''Log entry''"

definition ll_endl :: "line_log \<Rightarrow> line_log" where
  "ll_endl l = l\<lparr>ll_next_is_begin := True, ll_out := ll_out l @ [newline]\<rparr>"

text \<open>Hours, minutes and seconds are printed without padding.\<close>

definition ll_prefix :: "string \<Rightarrow> nat \<times> nat \<times> nat \<Rightarrow> string" where
  "ll_prefix header now = (let (h, m, s) = now in
     header @ ''('' @ dec_nat h @ '':'' @ dec_nat m @ '':'' @ dec_nat s @ ''): '')"

definition ll_put :: "nat \<times> nat \<times> nat \<Rightarrow> string \<Rightarrow> line_log \<Rightarrow> line_log" where
  "ll_put now data l =
     l\<lparr>ll_out := ll_out l @ (if ll_next_is_begin l then ll_prefix (ll_header l) now else []) @ data,
       ll_next_is_begin := False\<rparr>"

section \<open>The list of names\<close>

record name_node =
  sName :: string
  pNext :: "nat option"

record names =
  name_nodes :: "nat \<Rightarrow> name_node option"
  pHead :: "nat option"

definition add_name :: "nat \<Rightarrow> names \<Rightarrow> fault + names" where
  "add_name this N =
     (case name_nodes N this of None \<Rightarrow> Inl Dangling
      | Some x \<Rightarrow> Inr (N\<lparr>name_nodes := (name_nodes N)(this \<mapsto> x\<lparr>pNext := pHead N\<rparr>), pHead := Some this\<rparr>))"

text \<open>\<open>getData\<close>: reading a word leaves the name empty at the end of the input; \<open>None\<close> is the null
  pointer. The new object gets the address \<open>a\<close>.\<close>

definition getData :: "nat \<Rightarrow> string list \<Rightarrow> names \<Rightarrow> nat option \<times> string list \<times> names" where
  "getData a words N =
     (let name = (case words of [] \<Rightarrow> [] | w # _ \<Rightarrow> w)
      in if name = ''exit'' then (None, tl words, N)
         else (Some a, tl words, N\<lparr>name_nodes := (name_nodes N)(a \<mapsto> \<lparr>sName = name, pNext = None\<rparr>)\<rparr>))"

partial_function (option) enter_loop :: "nat \<Rightarrow> string list \<Rightarrow> names \<Rightarrow> (fault + names) option" where
  "enter_loop a words N =
     (case getData a words N of (p, words1, N1) \<Rightarrow>
        (case p of None \<Rightarrow> Some (Inr N1)
         | Some this \<Rightarrow>
             (case add_name this N1 of Inl e \<Rightarrow> Some (Inl e)
              | Inr N2 \<Rightarrow> enter_loop (Suc a) words1 N2)))"

text \<open>The loop that prints the entries.\<close>

partial_function (option) print_names :: "names \<Rightarrow> nat option \<Rightarrow> string \<Rightarrow> (fault + string) option" where
  "print_names N it out =
     (case it of None \<Rightarrow> Some (Inr out)
      | Some a \<Rightarrow>
          (case name_nodes N a of None \<Rightarrow> Some (Inl Dangling)
           | Some x \<Rightarrow> print_names N (pNext x) (out @ sName x @ (if pNext x \<noteq> None then '', '' else []))))"

definition names_main :: "string list \<Rightarrow> (fault + string) option" where
  "names_main words =
     (case enter_loop 0 words \<lparr>name_nodes = (\<lambda>_. None), pHead = None\<rparr> of
        None \<Rightarrow> None
      | Some (Inl e) \<Rightarrow> Some (Inl e)
      | Some (Inr N) \<Rightarrow> print_names N (pHead N) [])"

section \<open>Books\<close>

record book =
  book_id :: int
  author :: string
  title :: string

definition book_eq :: "book \<Rightarrow> book \<Rightarrow> bool" where
  "book_eq a b \<longleftrightarrow> book_id a = book_id b"

text \<open>The hash of an int is the library's.\<close>

definition book_hash :: "(int \<Rightarrow> nat) \<Rightarrow> book \<Rightarrow> nat" where
  "book_hash hash_int b = hash_int (book_id b)"

definition show_book :: "book \<Rightarrow> string" where
  "show_book b = ''ID='' @ dec_int (book_id b) @ '', Author='' @ author b @ '', Title='' @ title b @ [newline]"

section \<open>Lines\<close>

text \<open>The lines of a text, each with its newline.\<close>

fun text_lines :: "string \<Rightarrow> string list" where
  "text_lines [] = []"
| "text_lines (c # cs) =
     (if c = newline then [c] # text_lines cs
      else case text_lines cs of [] \<Rightarrow> [[c]] | l # ls \<Rightarrow> (c # l) # ls)"

lemma concat_text_lines: "concat (text_lines s) = s"
  by (induction s) (auto split: list.split)

lemma fill_n_all [simp]: "fill_n (\<lambda>_. True) n c s = s @ replicate n c"
  by (induction n arbitrary: s) (simp_all add: replicate_append_same)

lemma buf_overflow_char:
  "buf_overflow (\<lambda>_. True) (Some c) b =
     (Some c, b\<lparr>m_sbuf := m_sbuf b @ (if m_need b then replicate (nat (m_indent b)) (CHR '' '') else []) @ [c],
        m_need := (c = newline)\<rparr>)"
  by (auto simp: buf_overflow_def sputc_def Let_def)

text \<open>The lines of a text with the indentation before each, the first one excepted when the buffer is in
  the middle of a line.\<close>

definition indented :: "nat \<Rightarrow> bool \<Rightarrow> string list \<Rightarrow> string" where
  "indented n need ls =
     (case ls of [] \<Rightarrow> [] | l # rest \<Rightarrow>
        (if need then replicate n (CHR '' '') else []) @ l @
        concat (map (\<lambda>l. replicate n (CHR '' '') @ l) rest))"

lemma indented_newline:
  "indented n True ls = concat (map (\<lambda>l. replicate n (CHR '' '') @ l) ls)"
  by (cases ls) (simp_all add: indented_def)

lemma put_text_lines:
  "m_sbuf (put_text (\<lambda>_. True) s b) = m_sbuf b @ indented (nat (m_indent b)) (m_need b) (text_lines s)"
proof (induction s arbitrary: b)
  case Nil
  then show ?case by (simp add: indented_def)
next
  case (Cons c cs)
  show ?case
  proof (cases "c = newline")
    case True
    then show ?thesis
      by (simp add: buf_overflow_char Cons.IH indented_newline) (simp add: indented_def)
  next
    case False
    then show ?thesis
      by (cases "text_lines cs") (simp_all add: buf_overflow_char Cons.IH, simp_all add: indented_def)
  qed
qed

lemma put_text_need:
  "s \<noteq> [] \<Longrightarrow> m_need (put_text (\<lambda>_. True) s b) = (last s = newline)"
  by (induction s arbitrary: b) (auto simp: buf_overflow_char)

text \<open>The log writes its header once per line.\<close>

lemma log_line:
  assumes "ll_next_is_begin l"
  shows "ll_out (ll_endl (foldl (\<lambda>l d. ll_put now d l) (ll_put now d l) ds)) =
    ll_out l @ ll_prefix (ll_header l) now @ concat (d # ds) @ [newline]"
proof -
  have "\<not> ll_next_is_begin m \<Longrightarrow> ll_out (foldl (\<lambda>l d. ll_put now d l) m ds) = ll_out m @ concat ds" for m
    by (induction ds arbitrary: m) (simp_all add: ll_put_def)
  then show ?thesis using assms by (simp add: ll_endl_def ll_put_def)
qed

section \<open>The chain of names\<close>

fun chain :: "(nat \<Rightarrow> name_node option) \<Rightarrow> nat \<Rightarrow> nat option \<Rightarrow> string list \<Rightarrow> bool" where
  "chain M b None xs \<longleftrightarrow> xs = []"
| "chain M b (Some a) [] \<longleftrightarrow> False"
| "chain M b (Some a) (x # xs) \<longleftrightarrow> a < b \<and> (\<exists>nx. M a = Some \<lparr>sName = x, pNext = nx\<rparr> \<and> chain M b nx xs)"

lemma chain_fresh: "chain M b h xs \<Longrightarrow> b \<le> a \<Longrightarrow> chain (M(a \<mapsto> y)) b h xs"
  by (induction M b h xs rule: chain.induct) auto

lemma chain_mono: "chain M b h xs \<Longrightarrow> b \<le> b' \<Longrightarrow> chain M b' h xs"
  by (induction M b h xs rule: chain.induct) auto

lemma enter_step:
  assumes "chain (name_nodes N) a (pHead N) xs" "w \<noteq> ''exit''"
  shows "\<exists>N'. enter_loop a (w # ws) N = enter_loop (Suc a) ws N' \<and>
    chain (name_nodes N') (Suc a) (pHead N') (w # xs)"
  using chain_mono [OF chain_fresh [OF assms(1) order_refl], of "Suc a"] assms(2)
  by (subst enter_loop.simps, intro exI [of _ "N\<lparr>name_nodes :=
      (name_nodes N)(a \<mapsto> \<lparr>sName = w, pNext = pHead N\<rparr>), pHead := Some a\<rparr>"])
    (simp add: getData_def add_name_def)

fun join_names :: "string list \<Rightarrow> string" where
  "join_names [] = []"
| "join_names [x] = x"
| "join_names (x # y # ys) = x @ '', '' @ join_names (y # ys)"

lemma print_chain:
  "chain (name_nodes N) b h xs \<Longrightarrow> print_names N h out = Some (Inr (out @ join_names xs))"
proof (induction xs arbitrary: h out)
  case Nil
  then show ?case by (cases h) (simp_all add: print_names.simps)
next
  case (Cons x xs)
  then obtain a nx where h: "h = Some a" "name_nodes N a = Some \<lparr>sName = x, pNext = nx\<rparr>"
      "chain (name_nodes N) b nx xs" by (cases h) auto
  have "xs = [] \<longleftrightarrow> nx = None" using h(3) by (cases nx; cases xs) auto
  then show ?case
    using Cons.IH [OF h(3)] h by (subst print_names.simps) (cases xs; auto)
qed

lemma enter_words:
  assumes "chain (name_nodes N) a (pHead N) xs" "''exit'' \<notin> set ws"
  shows "\<exists>N' b. enter_loop a (ws @ ''exit'' # rest) N = Some (Inr N') \<and>
    chain (name_nodes N') b (pHead N') (rev ws @ xs)"
  using assms
proof (induction ws arbitrary: a N xs)
  case Nil
  then show ?case by (subst enter_loop.simps) (auto simp: getData_def)
next
  case (Cons w ws)
  then have "w \<noteq> ''exit''" by auto
  from enter_step [OF Cons.prems(1) this, of "ws @ ''exit'' # rest"] obtain N1 where
    "enter_loop a (w # ws @ ''exit'' # rest) N = enter_loop (Suc a) (ws @ ''exit'' # rest) N1"
    "chain (name_nodes N1) (Suc a) (pHead N1) (w # xs)" by blast
  with Cons.IH [of N1 "Suc a" "w # xs"] Cons.prems(2) show ?case by auto
qed

lemma enter_needs_exit: "enter_loop a ws N = Some r \<Longrightarrow> ''exit'' \<in> set ws"
proof (induction rule: enter_loop.raw_induct [rotated, consumes 1, case_names 1])
  case (1 lp a ws N r)
  show ?case
  proof (cases ws)
    case Nil
    with "1.hyps" "1.IH" show ?thesis by (fastforce simp: getData_def add_name_def)
  next
    case (Cons w us)
    with "1.hyps" "1.IH" show ?thesis
      by (cases "w = ''exit''") (auto simp: getData_def add_name_def)
  qed
qed

section \<open>Properties\<close>

text \<open>The indenting buffer writes every line of a text, empty ones included, after its indentation, when
  the text starts at the beginning of a line.\<close>

theorem indent_lines:
  assumes "m_need b"
  shows "m_sbuf (put_text (\<lambda>_. True) s b) =
    m_sbuf b @ concat (map (\<lambda>l. replicate (nat (m_indent b)) (CHR '' '') @ l) (text_lines s))"
  using put_text_lines [of s b] assms by (simp add: indented_newline)

lemma indent_lines_witness:
  "m_sbuf (put_text (\<lambda>_. True) (''a'' @ [newline, newline] @ ''b'') (new_indentbuf [])) =
     ''    a'' @ [newline] @ ''    '' @ [newline] @ ''    b''"
proof -
  have n: "m_need (new_indentbuf [])" by (simp add: new_indentbuf_def)
  show ?thesis
    unfolding indent_lines [OF n]
    by (simp add: new_indentbuf_def newline_def replicate_4)
qed

text \<open>When the words before the first exit are entered, the program prints them in the opposite order,
  separated by commas; without exit in the input it never gets to print, since at the end of the
  input it adds empty names for ever.\<close>

theorem names_reversed:
  assumes "''exit'' \<notin> set ws"
  shows "names_main (ws @ ''exit'' # rest) = Some (Inr (join_names (rev ws))) \<and> names_main ws = None"
proof -
  have "chain (name_nodes \<lparr>name_nodes = (\<lambda>_. None), pHead = None\<rparr>) 0
      (pHead \<lparr>name_nodes = (\<lambda>_. None), pHead = None\<rparr>) []" by simp
  from enter_words [OF this assms, of rest] obtain N b where
    "enter_loop 0 (ws @ ''exit'' # rest) \<lparr>name_nodes = (\<lambda>_. None), pHead = None\<rparr> = Some (Inr N)"
    "chain (name_nodes N) b (pHead N) (rev ws)" by auto
  then have "names_main (ws @ ''exit'' # rest) = Some (Inr (join_names (rev ws)))"
    by (simp add: names_main_def print_chain)
  moreover have "enter_loop 0 ws \<lparr>name_nodes = (\<lambda>_. None), pHead = None\<rparr> = None"
    using enter_needs_exit assms by (cases "enter_loop 0 ws \<lparr>name_nodes = (\<lambda>_. None), pHead = None\<rparr>") blast+
  ultimately show ?thesis by (simp add: names_main_def)
qed

lemma names_reversed_witness:
  "names_main ([''b'', ''a''] @ ''exit'' # []) = Some (Inr ''a, b'') \<and> names_main [''b'', ''a''] = None"
  using names_reversed [of "[''b'', ''a'']" "[]"] by simp

text \<open>Books equal by their number have one hash; the text of a book.\<close>

lemma book_hash_congruent: "book_eq a b \<Longrightarrow> book_hash h a = book_hash h b"
  by (simp add: book_eq_def book_hash_def)

end
