(* ===== verification/Daytime.thy ===== *)
theory Daytime
  imports Prelude
begin

text \<open>
  Project1/server.cpp: the asynchronous day time server over TCP and UDP. boost::asio runs the handler
  of any operation that has completed; the connection objects are shared, and live as long as an
  outstanding handler holds a pointer to them. What ctime yields at the time of a call is an
  argument.
\<close>

section \<open>State\<close>

text \<open>The handlers handed to boost::asio, with what their bind expressions hold.\<close>

datatype daytime_handler =
    On_accept nat            \<comment> \<open>tcp_server::handle_accept with its connection\<close>
  | On_written nat           \<comment> \<open>tcp_connection::handle_write\<close>
  | On_receive               \<comment> \<open>udp_server::handle_receive\<close>
  | On_sent string           \<comment> \<open>udp_server::handle_send with the message it keeps alive\<close>

record daytime =
  live :: "nat \<Rightarrow> string option"       \<comment> \<open>the connection objects, each with its \<open>message_\<close>\<close>
  made :: nat                          \<comment> \<open>how many connections were created\<close>
  pending :: "daytime_handler list"
  remote_endpoint :: nat
  tcp_writes :: "(nat \<times> string) list"  \<comment> \<open>the calls of async_write, with the socket's connection\<close>
  udp_sends :: "(nat \<times> string) list"   \<comment> \<open>the calls of async_send_to, with the endpoint\<close>

text \<open>A completed operation: the result of accepting, a write that is done (its result is not looked at),
  a datagram or an error, a datagram sent. \<open>now\<close> is the string of ctime.\<close>

datatype daytime_event =
    Accepted nat bool string | Written nat | Received bool nat string | Sent string

fun handler_of :: "daytime_event \<Rightarrow> daytime_handler" where
  "handler_of (Accepted c error now) = On_accept c"
| "handler_of (Written c) = On_written c"
| "handler_of (Received error from now) = On_receive"
| "handler_of (Sent msg) = On_sent msg"

section \<open>Operations\<close>

definition tcp_start_accept :: "daytime \<Rightarrow> daytime" where
  "tcp_start_accept S = S\<lparr>live := (live S)(made S \<mapsto> []), made := Suc (made S),
     pending := pending S @ [On_accept (made S)]\<rparr>"

definition tcp_connection_start :: "nat \<Rightarrow> string \<Rightarrow> daytime \<Rightarrow> fault + daytime" where
  "tcp_connection_start c now S =
     (case live S c of None \<Rightarrow> Inl Dangling
      | Some _ \<Rightarrow> Inr (S\<lparr>live := (live S)(c \<mapsto> now), pending := pending S @ [On_written c],
          tcp_writes := tcp_writes S @ [(c, now)]\<rparr>))"

definition tcp_handle_accept :: "nat \<Rightarrow> bool \<Rightarrow> string \<Rightarrow> daytime \<Rightarrow> fault + daytime" where
  "tcp_handle_accept c error now S =
     and_then (if \<not> error then tcp_connection_start c now S else Inr S) (\<lambda>S1. Inr (tcp_start_accept S1))"

definition tcp_handle_write :: "nat \<Rightarrow> daytime \<Rightarrow> fault + daytime" where
  "tcp_handle_write c S = (case live S c of None \<Rightarrow> Inl Dangling | Some _ \<Rightarrow> Inr S)"

definition udp_start_receive :: "daytime \<Rightarrow> daytime" where
  "udp_start_receive S = S\<lparr>pending := pending S @ [On_receive]\<rparr>"

definition udp_handle_receive :: "bool \<Rightarrow> string \<Rightarrow> daytime \<Rightarrow> daytime" where
  "udp_handle_receive error now S =
     (if \<not> error
      then udp_start_receive (S\<lparr>udp_sends := udp_sends S @ [(remote_endpoint S, now)],
             pending := pending S @ [On_sent now]\<rparr>)
      else S)"

definition udp_handle_send :: "string \<Rightarrow> daytime \<Rightarrow> daytime" where
  "udp_handle_send msg S = S"

text \<open>A connection object is destroyed when the last handler that holds it is gone.\<close>

definition holds :: "daytime_handler list \<Rightarrow> nat \<Rightarrow> bool" where
  "holds hs c \<longleftrightarrow> On_accept c \<in> set hs \<or> On_written c \<in> set hs"

definition release :: "daytime \<Rightarrow> daytime" where
  "release S = S\<lparr>live := (\<lambda>c. if holds (pending S) c then live S c else None)\<rparr>"

text \<open>One round of \<open>io_context.run()\<close>: the handler leaves the set of outstanding ones, runs, and drops its
  pointer.\<close>

definition daytime_do :: "daytime_event \<Rightarrow> daytime \<Rightarrow> fault + daytime" where
  "daytime_do ev S =
     (let S1 = S\<lparr>pending := remove1 (handler_of ev) (pending S)\<rparr>
      in and_then
        (case ev of
           Accepted c error now \<Rightarrow> tcp_handle_accept c error now S1
         | Written c \<Rightarrow> tcp_handle_write c S1
         | Received error from now \<Rightarrow> Inr (udp_handle_receive error now (S1\<lparr>remote_endpoint := from\<rparr>))
         | Sent msg \<Rightarrow> Inr (udp_handle_send msg S1))
        (\<lambda>S2. Inr (release S2)))"

text \<open>The constructors, which bind port 13 and start the first operation; \<open>bound\<close> is the text of the exception
  binding throws, if any. main prints it and returns.\<close>

definition tcp_server_new :: "string option \<Rightarrow> daytime \<Rightarrow> string + daytime" where
  "tcp_server_new bound S = (case bound of Some what \<Rightarrow> Inl what | None \<Rightarrow> Inr (tcp_start_accept S))"

definition udp_server_new :: "string option \<Rightarrow> daytime \<Rightarrow> string + daytime" where
  "udp_server_new bound S = (case bound of Some what \<Rightarrow> Inl what | None \<Rightarrow> Inr (udp_start_receive S))"

definition no_operations :: daytime where
  "no_operations =
     \<lparr>live = (\<lambda>_. None), made = 0, pending = [], remote_endpoint = 0, tcp_writes = [], udp_sends = []\<rparr>"

text \<open>main up to \<open>io_context.run()\<close>: what it prints when it fails before, or the state in which it runs.\<close>

definition server_main :: "string option \<Rightarrow> string option \<Rightarrow> string + daytime" where
  "server_main bound1 bound2 =
     (case tcp_server_new bound1 no_operations of
        Inl what \<Rightarrow> Inl (what @ [CHR 0x0A])
      | Inr S1 \<Rightarrow> (case udp_server_new bound2 S1 of
          Inl what \<Rightarrow> Inl (what @ [CHR 0x0A])
        | Inr S2 \<Rightarrow> Inr S2))"

inductive daytime_reach :: "daytime_event list \<Rightarrow> daytime \<Rightarrow> bool" where
  start: "server_main bound1 bound2 = Inr S \<Longrightarrow> daytime_reach [] S"
| event: "daytime_reach evs S \<Longrightarrow> handler_of ev \<in> set (pending S) \<Longrightarrow> daytime_do ev S = Inr S' \<Longrightarrow>
    daytime_reach (evs @ [ev]) S'"

section \<open>What the events ask for\<close>

fun tcp_wanted :: "daytime_event list \<Rightarrow> (nat \<times> string) list" where
  "tcp_wanted [] = []"
| "tcp_wanted (Accepted c error now # evs) = (if error then tcp_wanted evs else (c, now) # tcp_wanted evs)"
| "tcp_wanted (_ # evs) = tcp_wanted evs"

fun udp_wanted :: "daytime_event list \<Rightarrow> (nat \<times> string) list" where
  "udp_wanted [] = []"
| "udp_wanted (Received error from now # evs) = (if error then udp_wanted evs else (from, now) # udp_wanted evs)"
| "udp_wanted (_ # evs) = udp_wanted evs"

fun receive_failed :: "daytime_event \<Rightarrow> bool" where
  "receive_failed (Received error from now) = error"
| "receive_failed _ = False"

lemma tcp_wanted_append [simp]: "tcp_wanted (xs @ ys) = tcp_wanted xs @ tcp_wanted ys"
  by (induction xs rule: tcp_wanted.induct) auto

lemma udp_wanted_append [simp]: "udp_wanted (xs @ ys) = udp_wanted xs @ udp_wanted ys"
  by (induction xs rule: udp_wanted.induct) auto

section \<open>Invariant\<close>

text \<open>One accept is outstanding, for the newest connection; each outstanding write is the only one of its
  connection and its text is still what was handed over; one receive is outstanding until the first
  failure; exactly the objects that a handler holds are alive.\<close>

definition daytime_inv :: "daytime_event list \<Rightarrow> daytime \<Rightarrow> bool" where
  "daytime_inv evs S \<longleftrightarrow>
     (\<forall>c. count_list (pending S) (On_accept c) = of_bool (Suc c = made S)) \<and>
     (\<forall>c. count_list (pending S) (On_written c) \<le> of_bool (Suc c < made S)) \<and>
     (\<forall>c. live S c \<noteq> None \<longleftrightarrow> holds (pending S) c) \<and>
     (\<forall>c. On_written c \<in> set (pending S) \<longrightarrow> (\<exists>t. live S c = Some t \<and> (c, t) \<in> set (tcp_writes S))) \<and>
     (\<forall>p \<in> set (tcp_writes S). Suc (fst p) < made S) \<and> 0 < made S \<and>
     distinct (map fst (tcp_writes S)) \<and>
     count_list (pending S) On_receive = of_bool (\<forall>ev \<in> set evs. \<not> receive_failed ev) \<and>
     tcp_writes S = tcp_wanted evs \<and> udp_sends S = udp_wanted evs"

lemma mem_count: "x \<in> set xs \<longleftrightarrow> 0 < count_list xs x"
  using count_list_0_iff [of xs x] by auto

text \<open>Both servers start, or none runs.\<close>

lemma server_main_Inr:
  "server_main bound1 bound2 = Inr S \<longleftrightarrow>
     bound1 = None \<and> bound2 = None \<and> S = udp_start_receive (tcp_start_accept no_operations)"
  by (auto simp: server_main_def tcp_server_new_def udp_server_new_def split: option.splits)

lemma server_main_inv: "server_main bound1 bound2 = Inr S \<Longrightarrow> daytime_inv [] S"
  unfolding server_main_Inr
  by (auto simp: daytime_inv_def no_operations_def udp_start_receive_def tcp_start_accept_def holds_def)

text \<open>What a handler leaves: \<open>as\<close> and \<open>ws\<close> are the numbers of outstanding accepts and writes per connection.\<close>

lemma daytime_invI:
  assumes "\<And>c. count_list (pending S) (On_accept c) = of_bool (Suc c = made S)"
    "\<And>c. count_list (pending S) (On_written c) \<le> of_bool (Suc c < made S)"
    "\<And>c. 0 < count_list (pending S) (On_accept c) \<or> 0 < count_list (pending S) (On_written c) \<Longrightarrow> live S c \<noteq> None"
    "\<And>c. 0 < count_list (pending S) (On_written c) \<Longrightarrow> \<exists>t. live S c = Some t \<and> (c, t) \<in> set (tcp_writes S)"
    "\<And>p. p \<in> set (tcp_writes S) \<Longrightarrow> Suc (fst p) < made S" "0 < made S"
    "distinct (map fst (tcp_writes S))"
    "count_list (pending S) On_receive = of_bool (\<forall>ev \<in> set evs. \<not> receive_failed ev)"
    "tcp_writes S = tcp_wanted evs" "udp_sends S = udp_wanted evs"
  shows "daytime_inv evs (release S)"
  using assms by (simp add: daytime_inv_def release_def holds_def mem_count)

lemma accepted_ok:
  assumes inv: "daytime_inv evs S" and ev: "On_accept c \<in> set (pending S)"
  shows "\<exists>S'. daytime_do (Accepted c error now) S = Inr S' \<and> daytime_inv (evs @ [Accepted c error now]) S'"
proof -
  have i: "\<And>c. count_list (pending S) (On_accept c) = of_bool (Suc c = made S)"
    "\<And>c. count_list (pending S) (On_written c) \<le> of_bool (Suc c < made S)"
    "\<And>c. live S c \<noteq> None \<longleftrightarrow> holds (pending S) c"
    "\<And>c. On_written c \<in> set (pending S) \<Longrightarrow> \<exists>t. live S c = Some t \<and> (c, t) \<in> set (tcp_writes S)"
    "\<And>p. p \<in> set (tcp_writes S) \<Longrightarrow> Suc (fst p) < made S"
    "distinct (map fst (tcp_writes S))"
    "count_list (pending S) On_receive = of_bool (\<forall>ev \<in> set evs. \<not> receive_failed ev)"
    "tcp_writes S = tcp_wanted evs" "udp_sends S = udp_wanted evs"
    using inv unfolding daytime_inv_def by blast+
  have c: "made S = Suc c" using i(1) [of c] ev by (auto simp: mem_count split: if_splits)
  have w: "count_list (pending S) (On_written c) = 0" "count_list (pending S) (On_written (Suc c)) = 0"
    using i(2) [of c] i(2) [of "Suc c"] c by simp_all
  obtain t where t: "live S c = Some t" using i(3) [of c] ev by (auto simp: holds_def)
  have fresh: "c \<notin> fst ` set (tcp_writes S)" using i(5) c by fastforce
  define P where "P = remove1 (On_accept c) (pending S)"
  define S1 where "S1 = S\<lparr>pending := P\<rparr>"
  define S2 where "S2 = tcp_start_accept (if error then S1
    else S1\<lparr>live := (live S)(c \<mapsto> now), pending := P @ [On_written c], tcp_writes := tcp_writes S @ [(c, now)]\<rparr>)"
  have r: "daytime_do (Accepted c error now) S = Inr (release S2)"
    using t by (simp add: daytime_do_def tcp_handle_accept_def tcp_connection_start_def S2_def S1_def P_def)
  have f: "made S2 = Suc (Suc c)" "udp_sends S2 = udp_sends S"
    "tcp_writes S2 = tcp_writes S @ (if error then [] else [(c, now)])"
    "live S2 = (if error then live S else (live S)(c \<mapsto> now))(Suc c \<mapsto> [])"
    "pending S2 = P @ (if error then [] else [On_written c]) @ [On_accept (Suc c)]"
    by (simp_all add: S2_def S1_def tcp_start_accept_def c)
  have p: "count_list P (On_accept d) = 0" "count_list P (On_written d) = count_list (pending S) (On_written d)"
    "count_list P On_receive = count_list (pending S) On_receive" for d
    using i(1) [of d] by (simp_all add: P_def c)
  have "daytime_inv (evs @ [Accepted c error now]) (release S2)"
  proof (rule daytime_invI)
    fix d
    show "count_list (pending S2) (On_accept d) = of_bool (Suc d = made S2)"
      by (simp add: f p)
    show "count_list (pending S2) (On_written d) \<le> of_bool (Suc d < made S2)"
      using i(2) [of d] w by (cases "d < c"; cases "d = c") (simp_all add: f p c)
    show "live S2 d \<noteq> None"
      if "0 < count_list (pending S2) (On_accept d) \<or> 0 < count_list (pending S2) (On_written d)"
      using that i(3) [of d] t by (cases "d = c") (auto simp: f p holds_def mem_count split: if_splits)
    show "\<exists>t. live S2 d = Some t \<and> (d, t) \<in> set (tcp_writes S2)" if "0 < count_list (pending S2) (On_written d)"
    proof (cases "d = c")
      case True
      with that w show ?thesis by (simp add: f p split: if_splits)
    next
      case False
      then have "On_written d \<in> set (pending S)" using that by (simp add: f p mem_count)
      moreover have "d \<noteq> Suc c" using that w False by (auto simp: f p)
      ultimately show ?thesis using i(4) False by (simp add: f)
    qed
  next
    show "0 < made S2" by (simp add: f)
    show "Suc (fst p) < made S2" if "p \<in> set (tcp_writes S2)" for p
      using that i(5) [of p] by (auto simp: f c split: if_splits)
    show "distinct (map fst (tcp_writes S2))" using i(6) fresh by (simp add: f)
  qed (use i(7-9) in \<open>simp_all add: f p\<close>)
  with r show ?thesis by blast
qed

lemma written_ok:
  assumes inv: "daytime_inv evs S" and ev: "On_written c \<in> set (pending S)"
  shows "\<exists>S'. daytime_do (Written c) S = Inr S' \<and> daytime_inv (evs @ [Written c]) S'"
proof -
  have i: "\<And>c. count_list (pending S) (On_accept c) = of_bool (Suc c = made S)"
    "\<And>c. count_list (pending S) (On_written c) \<le> of_bool (Suc c < made S)"
    "\<And>c. live S c \<noteq> None \<longleftrightarrow> holds (pending S) c"
    "\<And>c. On_written c \<in> set (pending S) \<Longrightarrow> \<exists>t. live S c = Some t \<and> (c, t) \<in> set (tcp_writes S)"
    using inv unfolding daytime_inv_def by blast+
  obtain t where t: "live S c = Some t" using i(4) [OF ev] by blast
  define S2 where "S2 = S\<lparr>pending := remove1 (On_written c) (pending S)\<rparr>"
  have r: "daytime_do (Written c) S = Inr (release S2)"
    using t by (simp add: daytime_do_def tcp_handle_write_def S2_def)
  have "daytime_inv (evs @ [Written c]) (release S2)"
  proof (rule daytime_invI)
    fix d
    show "count_list (pending S2) (On_accept d) = of_bool (Suc d = made S2)"
      using i(1) by (simp add: S2_def)
    show "count_list (pending S2) (On_written d) \<le> of_bool (Suc d < made S2)"
      using i(2) [of d] by (simp add: S2_def)
    show "live S2 d \<noteq> None"
      if "0 < count_list (pending S2) (On_accept d) \<or> 0 < count_list (pending S2) (On_written d)"
      using that i(3) [of d] by (auto simp: S2_def holds_def mem_count)
    show "\<exists>t. live S2 d = Some t \<and> (d, t) \<in> set (tcp_writes S2)" if "0 < count_list (pending S2) (On_written d)"
      using that i(4) [of d] by (auto simp: S2_def mem_count split: if_splits)
  qed (use inv in \<open>auto simp: S2_def daytime_inv_def\<close>)
  with r show ?thesis by blast
qed

lemma received_ok:
  assumes inv: "daytime_inv evs S" and ev: "On_receive \<in> set (pending S)"
  shows "\<exists>S'. daytime_do (Received error from now) S = Inr S' \<and>
    daytime_inv (evs @ [Received error from now]) S'"
proof -
  have one: "\<forall>ev \<in> set evs. \<not> receive_failed ev" "count_list (pending S) On_receive = 1"
    using inv ev by (auto simp: daytime_inv_def mem_count split: if_splits)
  define S2 where "S2 = udp_handle_receive error now
    (S\<lparr>pending := remove1 On_receive (pending S), remote_endpoint := from\<rparr>)"
  have r: "daytime_do (Received error from now) S = Inr (release S2)"
    by (simp add: daytime_do_def S2_def)
  have f: "live S2 = live S" "made S2 = made S" "tcp_writes S2 = tcp_writes S"
    "udp_sends S2 = udp_sends S @ (if error then [] else [(from, now)])"
    "count_list (pending S2) (On_accept d) = count_list (pending S) (On_accept d)"
    "count_list (pending S2) (On_written d) = count_list (pending S) (On_written d)"
    "count_list (pending S2) On_receive = of_bool (\<not> error)" for d
    using one(2) by (simp_all add: S2_def udp_handle_receive_def udp_start_receive_def)
  have "daytime_inv (evs @ [Received error from now]) (release S2)"
    by (rule daytime_invI) (use inv one(1) in \<open>auto simp: f daytime_inv_def holds_def mem_count\<close>)
  with r show ?thesis by blast
qed

lemma sent_ok:
  assumes inv: "daytime_inv evs S" and ev: "On_sent msg \<in> set (pending S)"
  shows "\<exists>S'. daytime_do (Sent msg) S = Inr S' \<and> daytime_inv (evs @ [Sent msg]) S'"
proof -
  define S2 where "S2 = S\<lparr>pending := remove1 (On_sent msg) (pending S)\<rparr>"
  have r: "daytime_do (Sent msg) S = Inr (release S2)"
    by (simp add: daytime_do_def udp_handle_send_def S2_def)
  have "daytime_inv (evs @ [Sent msg]) (release S2)"
    by (rule daytime_invI) (use inv in \<open>auto simp: S2_def daytime_inv_def holds_def mem_count\<close>)
  with r show ?thesis by blast
qed

lemma daytime_do_ok:
  assumes "daytime_inv evs S" "handler_of ev \<in> set (pending S)"
  shows "\<exists>S'. daytime_do ev S = Inr S' \<and> daytime_inv (evs @ [ev]) S'"
  using assms by (cases ev) (auto dest: accepted_ok written_ok received_ok sent_ok)

lemma daytime_reach_inv: "daytime_reach evs S \<Longrightarrow> daytime_inv evs S"
proof (induction rule: daytime_reach.induct)
  case start
  then show ?case by (rule server_main_inv)
next
  case (event evs S ev S')
  then show ?case using daytime_do_ok [of evs S ev] by auto
qed

section \<open>Properties\<close>

text \<open>
  C33. After any events every connection accepted without an error, and no other, was written the day
  time of its acceptance, and every datagram received was answered to its sender, each once and in
  order; one accept is outstanding, so the server runs for ever, and a receive is outstanding as long
  as no receive has failed.\<close>

theorem daytime_serves:
  assumes "daytime_reach evs S"
  shows "tcp_writes S = tcp_wanted evs \<and> udp_sends S = udp_wanted evs \<and>
    (\<exists>!c. On_accept c \<in> set (pending S)) \<and>
    (On_receive \<in> set (pending S)) = (\<not> (\<exists>ev \<in> set evs. receive_failed ev))"
proof -
  have i: "\<And>c. count_list (pending S) (On_accept c) = of_bool (Suc c = made S)"
    "count_list (pending S) On_receive = of_bool (\<forall>ev \<in> set evs. \<not> receive_failed ev)"
    "tcp_writes S = tcp_wanted evs" "udp_sends S = udp_wanted evs"
    using daytime_reach_inv [OF assms] unfolding daytime_inv_def by blast+
  have "0 < made S" using daytime_reach_inv [OF assms] by (simp add: daytime_inv_def)
  moreover have "On_accept c \<in> set (pending S) \<longleftrightarrow> Suc c = made S" for c
    by (simp add: mem_count i(1))
  ultimately have "\<exists>!c. On_accept c \<in> set (pending S)" by (metis Suc_inject gr0_conv_Suc)
  with i(2-4) show ?thesis by (auto simp: mem_count)
qed

text \<open>
  C34. In every reachable state any outstanding operation can complete without touching a destroyed
  object, exactly the connections held by an outstanding handler are alive, and the text of every
  outstanding write is still the one handed over.\<close>

theorem daytime_lifetimes:
  assumes "daytime_reach evs S" "handler_of ev \<in> set (pending S)"
  shows "(\<exists>S'. daytime_do ev S = Inr S') \<and> dom (live S) = {c. holds (pending S) c} \<and>
    (case ev of Written c \<Rightarrow> (\<exists>t. live S c = Some t \<and> (c, t) \<in> set (tcp_writes S)) | _ \<Rightarrow> True)"
proof -
  have i: "daytime_inv evs S" by (rule daytime_reach_inv [OF assms(1)])
  then have "dom (live S) = {c. holds (pending S) c}" by (auto simp: daytime_inv_def)
  moreover have "\<exists>S'. daytime_do ev S = Inr S'" using daytime_do_ok [OF i assms(2)] by blast
  moreover have "\<exists>t. live S c = Some t \<and> (c, t) \<in> set (tcp_writes S)" if "ev = Written c" for c
    using i assms(2) unfolding daytime_inv_def that handler_of.simps by blast
  ultimately show ?thesis by (auto split: daytime_event.split)
qed

text \<open>After a failed receive no datagram is answered any more.\<close>

lemma receive_stops:
  assumes "daytime_reach evs S" "ev \<in> set evs" "receive_failed ev"
  shows "On_receive \<notin> set (pending S)"
  using daytime_reach_inv [OF assms(1)] assms(2,3) by (auto simp: daytime_inv_def mem_count)

text \<open>A client is accepted and served, a datagram is answered, and a receive fails.\<close>

definition sample_events :: "daytime_event list" where
  "sample_events = [Accepted 0 False ''noon'', Received False 7 ''one'', Written 0, Received True 7 ''two'']"

lemma daytime_sample: "\<exists>S. daytime_reach sample_events S"
proof -
  have step: "\<exists>S'. daytime_reach (evs @ [ev]) S' \<and> daytime_do ev S = Inr S'"
    if "daytime_reach evs S" "handler_of ev \<in> set (pending S)" for evs ev S
    using that daytime_do_ok [OF daytime_reach_inv [OF that(1)] that(2)] by (blast intro: daytime_reach.event)
  define S0 where "S0 = udp_start_receive (tcp_start_accept no_operations)"
  have 0: "daytime_reach [] S0" by (rule daytime_reach.start [of None None]) (simp add: server_main_Inr S0_def)
  note defs = S0_def no_operations_def daytime_do_def tcp_handle_accept_def tcp_connection_start_def
    tcp_start_accept_def tcp_handle_write_def udp_handle_receive_def udp_start_receive_def release_def holds_def Let_def
  obtain S1 where 1: "daytime_reach ([] @ [Accepted 0 False ''noon'']) S1"
      "daytime_do (Accepted 0 False ''noon'') S0 = Inr S1"
    using step [OF 0, of "Accepted 0 False ''noon''"] by (auto simp: defs)
  obtain S2 where 2: "daytime_reach (([] @ [Accepted 0 False ''noon'']) @ [Received False 7 ''one'']) S2"
      "daytime_do (Received False 7 ''one'') S1 = Inr S2"
    using step [OF 1(1), of "Received False 7 ''one''"] 1(2) by (auto simp: defs)
  obtain S3 where 3: "daytime_reach ((([] @ [Accepted 0 False ''noon'']) @ [Received False 7 ''one'']) @ [Written 0]) S3"
      "daytime_do (Written 0) S2 = Inr S3"
    using step [OF 2(1), of "Written 0"] 1(2) 2(2) by (auto simp: defs)
  obtain S4 where "daytime_reach (((([] @ [Accepted 0 False ''noon'']) @ [Received False 7 ''one'']) @ [Written 0]) @
      [Received True 7 ''two'']) S4"
    using step [OF 3(1), of "Received True 7 ''two''"] 1(2) 2(2) 3(2) by (auto simp: defs)
  then show ?thesis by (auto simp: sample_events_def)
qed

lemma daytime_serves_witness:
  "\<exists>S. daytime_reach sample_events S \<and> tcp_writes S = [(0, ''noon'')] \<and> udp_sends S = [(7, ''one'')] \<and>
     On_receive \<notin> set (pending S)"
proof -
  obtain S where S: "daytime_reach sample_events S" using daytime_sample by blast
  show ?thesis using daytime_serves [OF S] S by (auto simp: sample_events_def)
qed

lemma daytime_lifetimes_witness:
  "\<exists>S'. daytime_do (Received False 7 ''one'') (udp_start_receive (tcp_start_accept no_operations)) = Inr S'"
proof -
  have "daytime_reach [] (udp_start_receive (tcp_start_accept no_operations))"
    by (rule daytime_reach.start [of None None]) (simp add: server_main_Inr)
  from daytime_lifetimes [OF this, of "Received False 7 ''one''"] show ?thesis
    by (simp add: udp_start_receive_def tcp_start_accept_def no_operations_def)
qed

end
