(* ===== verification/Search_Program.thy ===== *)
theory Search_Program
  imports Kmp Text_Input Time_Format
begin

text \<open>
  The search program in the main of Project1/FileTransMain.cpp (lines 533 to 583, disabled by the
  preprocessor in this revision): it reads a text and a pattern, searches, and prints what it found.
  It composes the time stamps, fgets, trim, kmp and intslen. Its time stamps need 24 bytes and are written
  to a block of 20, so that the program stops at the first of them; what its parts compute is stated of the
  parts.
\<close>

section \<open>The program\<close>

text \<open>Which allocations succeed, in their order; the last two are those of getPi and kmp.\<close>

record search_mallocs =
  ts_malloc :: bool
  line_malloc :: bool
  pattern_malloc :: bool
  pi_malloc :: bool
  ans_malloc :: bool

definition LINE_SIZE :: nat where "LINE_SIZE = 1024 * 1024"

text \<open>The size of the buffer for time stamps.\<close>

definition ts_size :: nat where "ts_size = 20"

text \<open>A cleared buffer after fgets and trim.\<close>

definition read_line :: "nat \<Rightarrow> string \<Rightarrow> string" where
  "read_line siz piece = trim (piece @ replicate (siz - length piece) NUL)"

text \<open>The loop that prints the answers.\<close>

function print_ans :: "int list \<Rightarrow> int \<Rightarrow> int \<Rightarrow> fault + string" where
  "print_ans ans ansi i =
     (if i < ansi
      then and_then (rd ans i) (\<lambda>x.
           and_then (print_ans ans ansi (i + 1)) (\<lambda>out.
             Inr (''  : ANS['' @ dec_int i @ ''] = '' @ dec_int x @ CHR 0x0A # out)))
      else Inr [])"
  by pat_completeness auto
termination
  by (relation "measure (\<lambda>(_, ansi, i). nat (ansi - i))") auto

declare print_ans.simps [simp del]

text \<open>What is computed from the result of kmp: the count of matches, where \<open>intslen\<close> dereferences a NULL
  answer, and the lines of the loop.\<close>

definition search_answers :: "(int list \<times> int) option \<Rightarrow> fault + int \<times> string" where
  "search_answers r =
     (case r of None \<Rightarrow> Inl NullDeref
      | Some (ans, ansi) \<Rightarrow>
          and_then (intslen ans isValueSet isIntArrEnd) (\<lambda>cnt.
          and_then (print_ans ans ansi 0) (\<lambda>out.
            Inr (cnt, out))))"

definition search_report :: "tm_time \<times> nat \<Rightarrow> (int list \<times> int) option \<Rightarrow> fault + string" where
  "search_report now r =
     and_then (nowTime_copy ts_size now) (\<lambda>t.
     and_then (search_answers r) (\<lambda>(cnt, out).
       case r of None \<Rightarrow> Inl NullDeref
       | Some (ans, ansi) \<Rightarrow>
           Inr (t @ '' : ANSI = '' @ dec_int ansi @ '', Match Count : '' @ dec_int cnt @ CHR 0x0A # out)))"

text \<open>The program on the input \<open>inp\<close>, its k-th time stamp at the time \<open>now k\<close>: the exit code and what it
  prints to the standard output.\<close>

definition search_main ::
  "(nat \<Rightarrow> tm_time \<times> nat) \<Rightarrow> search_mallocs \<Rightarrow> string \<Rightarrow> (fault + int \<times> string) option"
where
  "search_main now ml inp =
     (if \<not> ts_malloc ml then Some (Inr (1, []))
      else if \<not> line_malloc ml \<or> \<not> pattern_malloc ml
      then run_then (Some (nowTime_copy ts_size (now 0))) (\<lambda>_. Some (Inr (1, [])))
      else run_then (Some (nowTime_copy ts_size (now 0))) (\<lambda>t0.
        let out0 = t0 @ '' : Eneter String : ''
        in if inp = [] then Some (Inr (0, out0))
        else let (piece, inp1) = fgets_piece LINE_SIZE inp; line = read_line LINE_SIZE piece
        in run_then (Some (nowTime_copy ts_size (now 1))) (\<lambda>t1.
        let out1 = out0 @ t1 @ '' : Eneter Pattern : ''
        in if inp1 = [] then Some (Inr (0, out1))
        else let pattern = read_line LINE_SIZE (fst (fgets_piece LINE_SIZE inp1))
        in run_then (Some (nowTime_copy ts_size (now 2))) (\<lambda>t2.
        let out2 = out1 @ t2 @ '' : String : '' @ cstr line @ '', Pattern : '' @ cstr pattern @ [CHR 0x0A]
        in run_then (kmp (pi_malloc ml) (ans_malloc ml) line pattern) (\<lambda>r.
           run_then (Some (search_report (now 3) r)) (\<lambda>out.
             Some (Inr (0, out2 @ out))))))))"

section \<open>The parts\<close>

definition stamps_ok :: "(nat \<Rightarrow> tm_time \<times> nat) \<Rightarrow> bool" where
  "stamps_ok now \<longleftrightarrow> (\<forall>k. tm_ok (fst (now k)) \<and> 1000 \<le> tm_year (fst (now k)) \<and> tm_year (fst (now k)) \<le> 9999 \<and>
     snd (now k) < 1000)"

text \<open>A time stamp has 23 characters and a NUL, which a block of 20 bytes cannot hold.\<close>

lemma nowTime_copy_overflows:
  assumes "stamps_ok now"
  shows "nowTime_copy ts_size (now k) = Inl OutOfBounds"
proof -
  have k: "tm_ok (fst (now k))" "1000 \<le> tm_year (fst (now k))" "tm_year (fst (now k)) \<le> 9999" "snd (now k) < 1000"
    using assms by (simp_all add: stamps_ok_def)
  have "length (date_text (fst (now k))) = 19" "length (pad 3 (snd (now k))) = 3"
    using date_text_length(1) [OF k(1-3)] length_pad [of "snd (now k)" 3] k(4) by simp_all
  then show ?thesis
    by (simp add: nowTime_copy_def strftime_def sprintf_s_def store_def ts_size_def)
qed

lemma search_main_overflows: "stamps_ok now \<Longrightarrow> ts_malloc ml \<Longrightarrow> search_main now ml inp = Some (Inl OutOfBounds)"
  by (simp add: search_main_def nowTime_copy_overflows)

text \<open>A line that is neither empty nor too long for the buffer.\<close>

definition line_ok :: "nat \<Rightarrow> string \<Rightarrow> bool" where
  "line_ok siz s \<longleftrightarrow> s \<noteq> [] \<and> NUL \<notin> set s \<and> CHR 0x0A \<notin> set s \<and> length s + 2 \<le> siz"

lemma fgets_line:
  assumes "line_ok siz s"
  shows "fgets_piece siz (s @ CHR 0x0A # rest) = (s @ [CHR 0x0A], rest)"
proof -
  have "takeWhile (\<lambda>c. c \<noteq> CHR 0x0A) (s @ CHR 0x0A # rest) = s"
    using assms by (subst takeWhile_append2) (auto simp: line_ok_def)
  with assms show ?thesis by (auto simp: fgets_piece_def line_ok_def Let_def)
qed

lemma trim_buffer:
  assumes "s \<noteq> []" "NUL \<notin> set s"
  shows "trim (s @ CHR 0x0A # NUL # rest) = s @ NUL # NUL # rest"
proof -
  have "cstr ((s @ [CHR 0x0A]) @ NUL # rest) = s @ [CHR 0x0A]"
    by (rule cstr_append_nul) (use assms in \<open>simp add: NUL_def\<close>)
  with assms(1) show ?thesis by (simp add: trim_def nth_append list_update_append Let_def)
qed

lemma read_line_ok:
  assumes "line_ok siz s"
  shows "\<exists>rest. read_line siz (s @ [CHR 0x0A]) = s @ NUL # rest"
proof -
  obtain n where "siz - length (s @ [CHR 0x0A]) = Suc n" using assms by (cases "siz - length (s @ [CHR 0x0A])")
    (auto simp: line_ok_def)
  then show ?thesis using assms trim_buffer [of s "replicate n NUL"] by (auto simp: read_line_def line_ok_def)
qed

text \<open>The lines printed for the positions found.\<close>

definition ans_lines :: "nat list \<Rightarrow> nat \<Rightarrow> string" where
  "ans_lines ks i = concat (map (\<lambda>i. ''  : ANS['' @ dec_nat i @ ''] = '' @ dec_nat (ks ! i) @ [CHR 0x0A])
     [i..<length ks])"

lemma print_ans_result:
  assumes "i \<le> length ks" "length ks \<le> n"
  shows "print_ans (answer n ks) (int (length ks)) (int i) = Inr (ans_lines ks i)"
  using assms(1)
proof (induction "length ks - i" arbitrary: i)
  case 0
  then show ?case by (subst print_ans.simps) (simp add: ans_lines_def)
next
  case (Suc m)
  then have i: "i < length ks" "m = length ks - Suc i" by simp_all
  have r: "rd (answer n ks) (int i) = Inr (int (ks ! i))"
    using assms(2) i(1) by (simp add: answer_def nth_append)
  have "print_ans (answer n ks) (int (length ks)) (int i + 1) = Inr (ans_lines ks (Suc i))"
    using Suc.hyps(1) [of "Suc i"] i by (simp add: add.commute)
  moreover have "ans_lines ks i =
      ''  : ANS['' @ dec_nat i @ ''] = '' @ dec_nat (ks ! i) @ CHR 0x0A # ans_lines ks (Suc i)"
    using i(1) by (simp add: ans_lines_def upt_conv_Cons)
  ultimately show ?case using i(1) r by (subst print_ans.simps) (simp add: dec_int_def)
qed

section \<open>Properties\<close>

definition all_mallocs :: search_mallocs where
  "all_mallocs = \<lparr>ts_malloc = True, line_malloc = True, pattern_malloc = True, pi_malloc = True, ans_malloc = True\<rparr>"

lemma search_answers_found:
  assumes "NUL \<notin> set s" "NUL \<notin> set p" "p \<noteq> []"
  shows "search_answers (Some (answer (length s) (occurrences s p), int (length (occurrences s p)))) =
    (let ks = occurrences s p in
     if length ks = length s then Inl OutOfBounds
     else Inr (int (length ks) - (if prefix p s then 1 else 0), ans_lines ks 0))"
proof -
  have "kmp True True (s @ NUL # []) (p @ NUL # []) =
      Some (Inr (Some (answer (length s) (occurrences s p), int (length (occurrences s p)))))"
    using kmp_result [OF assms(1,2)] assms(3) by (simp add: matches_def)
  from intslen_of_kmp [OF assms(1,2) this] show ?thesis
    using assms(3) print_ans_result [of 0 "occurrences s p" "length s"] length_occurrences [of s p]
    by (simp add: search_answers_def Let_def)
qed

text \<open>
  C16. The program as it is written overflows its block for time stamps at the first of them, whatever its
  input. What its parts compute on an input that starts with two lines \<open>s\<close> and \<open>p\<close>, neither empty nor
  too long for its buffer and without a NUL: fgets reads them one after the other, trim leaves buffers that
  hold \<open>s\<close> and \<open>p\<close>, kmp (its two allocations succeeding) returns a block with exactly the positions at
  which \<open>p\<close> occurs in \<open>s\<close>, in order, and their number, and the report counts one match too few when \<open>p\<close>
  occurs at position 0 and prints one line per position; when every position is a match, counting leaves
  the block.\<close>

theorem search_lists_occurrences:
  assumes "stamps_ok now" "ts_malloc ml" "line_ok LINE_SIZE s" "line_ok LINE_SIZE p"
  shows "search_main now ml inp = Some (Inl OutOfBounds) \<and>
    (\<exists>inp1 line pattern ans.
       fgets_piece LINE_SIZE (s @ CHR 0x0A # p @ CHR 0x0A # rest) = (s @ [CHR 0x0A], inp1) \<and>
       fgets_piece LINE_SIZE inp1 = (p @ [CHR 0x0A], rest) \<and>
       read_line LINE_SIZE (s @ [CHR 0x0A]) = line \<and> cstr line = s \<and>
       read_line LINE_SIZE (p @ [CHR 0x0A]) = pattern \<and> cstr pattern = p \<and>
       (let ks = filter (\<lambda>k. take (length p) (drop k s) = p) [0..<length s] in
          kmp True True line pattern = Some (Inr (Some (ans, int (length ks)))) \<and>
          search_answers (Some (ans, int (length ks))) =
            (if length ks = length s then Inl OutOfBounds
             else Inr (int (length ks) - (if prefix p s then 1 else 0),
               concat (map (\<lambda>i. ''  : ANS['' @ dec_nat i @ ''] = '' @ dec_nat (ks ! i) @ [CHR 0x0A]) [0..<length ks])))))"
proof -
  have n: "NUL \<notin> set s" "NUL \<notin> set p" "p \<noteq> []" using assms(3,4) by (simp_all add: line_ok_def)
  obtain rs where rs: "read_line LINE_SIZE (s @ [CHR 0x0A]) = s @ NUL # rs" using read_line_ok [OF assms(3)] by blast
  obtain rp where rp: "read_line LINE_SIZE (p @ [CHR 0x0A]) = p @ NUL # rp" using read_line_ok [OF assms(4)] by blast
  have k: "kmp True True (s @ NUL # rs) (p @ NUL # rp) =
      Some (Inr (Some (answer (length s) (occurrences s p), int (length (occurrences s p)))))"
    using kmp_result [OF n(1,2)] n(3) by (simp add: matches_def)
  have c: "cstr (s @ NUL # rs) = s" "cstr (p @ NUL # rp) = p" using n by simp_all
  show ?thesis
    using search_main_overflows [OF assms(1,2)] fgets_line [OF assms(3)] fgets_line [OF assms(4)] rs rp c k
      search_answers_found [OF n]
    unfolding Let_def occurrences_def ans_lines_def by blast
qed

definition sample_stamp :: "tm_time \<times> nat" where
  "sample_stamp = (\<lparr>tm_year = 2018, tm_mon = 0, tm_mday = 2, tm_hour = 3, tm_min = 4, tm_sec = 5\<rparr>, 6)"

lemma search_lists_occurrences_witness:
  "search_main (\<lambda>_. sample_stamp) all_mallocs (''aba'' @ CHR 0x0A # ''a'' @ CHR 0x0A # []) = Some (Inl OutOfBounds) \<and>
   (\<exists>line pattern ans. read_line LINE_SIZE (''aba'' @ [CHR 0x0A]) = line \<and> read_line LINE_SIZE (''a'' @ [CHR 0x0A]) = pattern \<and>
     kmp True True line pattern = Some (Inr (Some (ans, 2))) \<and>
     search_answers (Some (ans, 2)) = Inr (1, ''  : ANS[0] = 0'' @ CHR 0x0A # ''  : ANS[1] = 2'' @ [CHR 0x0A]))"
proof -
  have s: "stamps_ok (\<lambda>_. sample_stamp)" by (simp add: stamps_ok_def sample_stamp_def tm_ok_def)
  have t: "ts_malloc all_mallocs" by (simp add: all_mallocs_def)
  have l: "line_ok LINE_SIZE ''aba''" "line_ok LINE_SIZE ''a''" by (simp_all add: line_ok_def LINE_SIZE_def NUL_def)
  have f: "filter (\<lambda>k. take (length ''a'') (drop k ''aba'') = ''a'') [0..<length ''aba''] = [0, 2]" by code_simp
  have d: "dec_nat 0 = ''0''" "dec_nat (Suc 0) = ''1''" "dec_nat 1 = ''1''" "dec_nat 2 = ''2''"
    "dec_nat (Suc (Suc 0)) = ''2''" by code_simp+
  have u: "[0..<2] = [0, Suc 0]" by (simp add: upt_rec)
  have e: "concat (map (\<lambda>i. ''  : ANS['' @ dec_nat i @ ''] = '' @ dec_nat ([0, 2] ! i) @ [CHR 0x0A]) [0..<length [0, 2 :: nat]]) =
      ''  : ANS[0] = 0'' @ CHR 0x0A # ''  : ANS[1] = 2'' @ [CHR 0x0A]"
    by (simp add: u d)
  have p: "2 - (if prefix ''a'' ''aba'' then 1 else 0) = (1 :: int)" "int (length [0, 2 :: nat]) = 2"
    "(length [0, 2 :: nat] = length ''aba'') = False" by simp_all
  note r = search_lists_occurrences [OF s t l, of "''aba'' @ CHR 0x0A # ''a'' @ CHR 0x0A # []" "[]",
    unfolded f Let_def e p if_False]
  show ?thesis
    by (rule conjI [OF conjunct1 [OF r]], insert conjunct2 [OF r], elim exE conjE, intro exI conjI) assumption+
qed

end
