(* ===== verification/Thread_Demos.thy ===== *)
theory Thread_Demos
  imports Prelude
begin

text \<open>
  Project1/Main02.cpp, ten threads that print under a mutex and of which every second throws, and
  Project1/Main03.cpp, a race of ten threads that wait for a flag. Threads take their steps in any
  order; the clock and the texts of the times are left out.
\<close>

section \<open>Printing under a mutex\<close>

text \<open>The lines a thread prints: the current time, that it waits, that the minute is reached, that its
  number is even, and that an exception was caught.\<close>

datatype demo_line = Current | Waiting | Reached | Is_even | Caught

text \<open>Before locking; before each print inside the lock, and before leaving it with or without an
  exception; in the handler of the exception; done.\<close>

datatype demo_phase =
  D_lock | D_current | D_waiting | D_reached | D_test | D_unlock bool | D_catch | D_done

record demo =
  demo_owner :: "nat option"                 \<comment> \<open>the thread that holds \<open>mtx\<close>\<close>
  demo_threads :: "demo_phase list"          \<comment> \<open>the created threads; thread \<open>i\<close> has the id \<open>i + 1\<close>\<close>
  printed :: "(nat \<times> demo_line) list"

definition demo_print :: "nat \<Rightarrow> demo_line \<Rightarrow> demo_phase \<Rightarrow> demo \<Rightarrow> demo" where
  "demo_print i l p S = S\<lparr>printed := printed S @ [(i, l)], demo_threads := (demo_threads S)[i := p]\<rparr>"

text \<open>\<open>print_even\<close> of thread \<open>i\<close>: its next step inside the lock.\<close>

definition print_even :: "nat \<Rightarrow> demo \<Rightarrow> demo" where
  "print_even i S =
     (case demo_threads S ! i of
        D_current \<Rightarrow> demo_print i Current D_waiting S
      | D_waiting \<Rightarrow> demo_print i Waiting D_reached S
      | D_reached \<Rightarrow> demo_print i Reached D_test S
      | D_test \<Rightarrow>
          if (i + 1) mod 2 = 0 then demo_print i Is_even (D_unlock False) S
          else S\<lparr>demo_threads := (demo_threads S)[i := D_unlock True]\<rparr>
      | _ \<Rightarrow> S)"

text \<open>\<open>print_thread_id\<close>: the lock is left by the destructor of the guard, also for an exception, and before
  the handler runs. \<open>None\<close> means that the thread is blocked or has ended.\<close>

definition print_thread_id :: "nat \<Rightarrow> demo \<Rightarrow> demo option" where
  "print_thread_id i S =
     (case demo_threads S ! i of
        D_lock \<Rightarrow>
          if demo_owner S = None
          then Some (S\<lparr>demo_owner := Some i, demo_threads := (demo_threads S)[i := D_current]\<rparr>) else None
      | D_unlock thrown \<Rightarrow>
          Some (S\<lparr>demo_owner := None, demo_threads := (demo_threads S)[i := (if thrown then D_catch else D_done)]\<rparr>)
      | D_catch \<Rightarrow> Some (demo_print i Caught D_done S)
      | D_done \<Rightarrow> None
      | _ \<Rightarrow> Some (print_even i S))"

text \<open>main creates ten threads, and then joins them.\<close>

definition demo_create :: "demo \<Rightarrow> demo option" where
  "demo_create S =
     (if length (demo_threads S) < 10 then Some (S\<lparr>demo_threads := demo_threads S @ [D_lock]\<rparr>) else None)"

definition demo_joined :: "demo \<Rightarrow> bool" where
  "demo_joined S \<longleftrightarrow> length (demo_threads S) = 10 \<and> (\<forall>p \<in> set (demo_threads S). p = D_done)"

inductive demo_reach :: "demo \<Rightarrow> bool" where
  start: "demo_reach \<lparr>demo_owner = None, demo_threads = [], printed = []\<rparr>"
| create: "demo_reach S \<Longrightarrow> demo_create S = Some S' \<Longrightarrow> demo_reach S'"
| thread: "demo_reach S \<Longrightarrow> i < length (demo_threads S) \<Longrightarrow> print_thread_id i S = Some S' \<Longrightarrow> demo_reach S'"

section \<open>Blocks\<close>

text \<open>What a thread prints inside the lock, and how much of it at each phase.\<close>

definition block :: "nat \<Rightarrow> demo_line list" where
  "block i = [Current, Waiting, Reached] @ (if (i + 1) mod 2 = 0 then [Is_even] else [])"

fun so_far :: "nat \<Rightarrow> demo_phase \<Rightarrow> demo_line list" where
  "so_far i D_lock = []"
| "so_far i D_current = []"
| "so_far i D_waiting = [Current]"
| "so_far i D_reached = [Current, Waiting]"
| "so_far i D_test = [Current, Waiting, Reached]"
| "so_far i (D_unlock thrown) = block i"
| "so_far i D_catch = block i"
| "so_far i D_done = block i"

fun inside :: "demo_phase \<Rightarrow> bool" where
  "inside D_lock = False"
| "inside D_catch = False"
| "inside D_done = False"
| "inside _ = True"

fun left :: "demo_phase \<Rightarrow> bool" where
  "left D_catch = True"
| "left D_done = True"
| "left _ = False"

text \<open>The lines printed under the lock.\<close>

definition guarded :: "demo \<Rightarrow> (nat \<times> demo_line) list" where
  "guarded S = filter (\<lambda>p. snd p \<noteq> Caught) (printed S)"

definition caught_by :: "demo \<Rightarrow> nat \<Rightarrow> nat" where
  "caught_by S i = count_list (printed S) (i, Caught)"

text \<open>\<open>os\<close>: the threads that have left the lock, in their order.\<close>

definition demo_inv :: "nat list \<Rightarrow> demo \<Rightarrow> bool" where
  "demo_inv os S \<longleftrightarrow>
     distinct os \<and> set os = {i. i < length (demo_threads S) \<and> left (demo_threads S ! i)} \<and>
     (\<forall>i < length (demo_threads S). inside (demo_threads S ! i) \<longleftrightarrow> demo_owner S = Some i) \<and>
     (\<forall>i. demo_owner S = Some i \<longrightarrow> i < length (demo_threads S)) \<and>
     guarded S = concat (map (\<lambda>i. map (Pair i) (block i)) os) @
       (case demo_owner S of None \<Rightarrow> [] | Some i \<Rightarrow> map (Pair i) (so_far i (demo_threads S ! i))) \<and>
     (\<forall>i < length (demo_threads S). \<forall>thrown. demo_threads S ! i = D_unlock thrown \<longrightarrow> thrown = ((i + 1) mod 2 \<noteq> 0)) \<and>
     (\<forall>i < length (demo_threads S). demo_threads S ! i = D_catch \<longrightarrow> (i + 1) mod 2 \<noteq> 0) \<and>
     (\<forall>i. caught_by S i =
        of_bool (i < length (demo_threads S) \<and> demo_threads S ! i = D_done \<and> (i + 1) mod 2 \<noteq> 0))"

lemma inside_phase: "inside p \<longleftrightarrow> p \<in> {D_current, D_waiting, D_reached, D_test} \<or> (\<exists>t. p = D_unlock t)"
  by (cases p) auto

lemma left_phase: "left p \<longleftrightarrow> p = D_catch \<or> p = D_done"
  by (cases p) auto

lemma inside_not_left: "inside p \<Longrightarrow> \<not> left p"
  by (cases p) auto

text \<open>A step inside the lock.\<close>

lemma inside_step:
  assumes inv: "demo_inv os S" and i: "i < length (demo_threads S)"
    and p: "inside (demo_threads S ! i)" "inside p'"
    and S': "demo_threads S' = (demo_threads S)[i := p']" "demo_owner S' = demo_owner S"
      "printed S' = printed S @ map (Pair i) ls"
    and ls: "so_far i p' = so_far i (demo_threads S ! i) @ ls" "Caught \<notin> set ls"
    and u: "\<And>t. p' = D_unlock t \<Longrightarrow> t = ((i + 1) mod 2 \<noteq> 0)"
  shows "demo_inv os S'"
proof -
  have o: "demo_owner S = Some i" using inv i p(1) by (simp add: demo_inv_def)
  have l: "left p' = left (demo_threads S ! i)" using p inside_not_left by blast
  have g: "guarded S' = guarded S @ map (Pair i) ls"
    using ls(2) by (auto simp: guarded_def S' filter_id_conv)
  have c: "caught_by S' j = caught_by S j" for j
  proof -
    have "count_list (map (Pair i) ls) (j, Caught) = 0" using ls(2) by (auto simp: count_list_0_iff)
    then show ?thesis by (simp add: caught_by_def S')
  qed
  have n: "demo_threads S ! i \<noteq> D_done" "p' \<noteq> D_done" "p' \<noteq> D_catch" using p by auto
  have ph: "demo_threads S' ! j = (if j = i then p' else demo_threads S ! j)" "length (demo_threads S') = length (demo_threads S)" for j
    using i by (auto simp: S' nth_list_update)
  show ?thesis
    unfolding demo_inv_def
  proof (intro conjI)
    have "{j. j < length (demo_threads S') \<and> left (demo_threads S' ! j)} =
        {j. j < length (demo_threads S) \<and> left (demo_threads S ! j)}"
      using l by (auto simp: ph)
    then show "set os = {j. j < length (demo_threads S') \<and> left (demo_threads S' ! j)}"
      using inv by (simp add: demo_inv_def)
    show "\<forall>j < length (demo_threads S'). inside (demo_threads S' ! j) \<longleftrightarrow> demo_owner S' = Some j"
      using inv o p(2) by (auto simp: ph S'(2) demo_inv_def)
    show "\<forall>j < length (demo_threads S'). \<forall>thrown. demo_threads S' ! j = D_unlock thrown \<longrightarrow> thrown = ((j + 1) mod 2 \<noteq> 0)"
      using inv u by (auto simp: ph demo_inv_def)
    show "\<forall>j < length (demo_threads S'). demo_threads S' ! j = D_catch \<longrightarrow> (j + 1) mod 2 \<noteq> 0"
      using inv n by (auto simp: ph demo_inv_def)
    show "\<forall>j. caught_by S' j = of_bool (j < length (demo_threads S') \<and> demo_threads S' ! j = D_done \<and> (j + 1) mod 2 \<noteq> 0)"
      using inv n by (auto simp: ph c demo_inv_def)
    show "guarded S' = concat (map (\<lambda>i. map (Pair i) (block i)) os) @
       (case demo_owner S' of None \<Rightarrow> [] | Some i \<Rightarrow> map (Pair i) (so_far i (demo_threads S' ! i)))"
      using inv o ls(1) by (simp add: g ph S'(2) demo_inv_def)
  qed (use inv in \<open>simp_all add: ph S'(2) demo_inv_def\<close>)
qed

text \<open>A step outside: locking, unlocking, catching.\<close>

lemma lock_step:
  assumes inv: "demo_inv os S" and i: "i < length (demo_threads S)"
    and p: "demo_threads S ! i = D_lock" "demo_owner S = None"
  shows "demo_inv os (S\<lparr>demo_owner := Some i, demo_threads := (demo_threads S)[i := D_current]\<rparr>)"
proof -
  define T where "T = S\<lparr>demo_owner := Some i, demo_threads := (demo_threads S)[i := D_current]\<rparr>"
  have ph: "demo_threads T ! j = (if j = i then D_current else demo_threads S ! j)"
    "length (demo_threads T) = length (demo_threads S)" "caught_by T j = caught_by S j" "guarded T = guarded S"
    "demo_owner T = Some i" for j
    using i by (auto simp: T_def nth_list_update caught_by_def guarded_def)
  have l: "left (if j = i then D_current else demo_threads S ! j) = left (demo_threads S ! j)" for j
    using p by simp
  have "demo_inv os T"
    using inv p i unfolding demo_inv_def ph l by auto
  then show ?thesis by (simp add: T_def)
qed

lemma unlock_step:
  assumes inv: "demo_inv os S" and i: "i < length (demo_threads S)" and p: "demo_threads S ! i = D_unlock t"
  shows "demo_inv (os @ [i])
    (S\<lparr>demo_owner := None, demo_threads := (demo_threads S)[i := (if t then D_catch else D_done)]\<rparr>)"
proof -
  define T where "T = S\<lparr>demo_owner := None,
    demo_threads := (demo_threads S)[i := (if t then D_catch else D_done)]\<rparr>"
  have "inside (demo_threads S ! i)" using p by simp
  with inv i have o: "demo_owner S = Some i" unfolding demo_inv_def by blast
  have t: "t = ((i + 1) mod 2 \<noteq> 0)" using inv i p unfolding demo_inv_def by blast
  have ph: "demo_threads T ! j = (if j = i then (if t then D_catch else D_done) else demo_threads S ! j)"
    "length (demo_threads T) = length (demo_threads S)" "caught_by T j = caught_by S j" "guarded T = guarded S"
    "demo_owner T = None" for j
    using i by (auto simp: T_def nth_list_update caught_by_def guarded_def)
  have s: "{j. j < length (demo_threads T) \<and> left (demo_threads T ! j)} =
      insert i {j. j < length (demo_threads S) \<and> left (demo_threads S ! j)}"
    using i by (auto simp: ph(1,2) split: if_splits)
  have ni: "i \<notin> set os" using inv p by (auto simp: demo_inv_def)
  have "demo_inv (os @ [i]) T"
    unfolding demo_inv_def
  proof (intro conjI)
    show "distinct (os @ [i])" using inv ni by (simp add: demo_inv_def)
    show "set (os @ [i]) = {j. j < length (demo_threads T) \<and> left (demo_threads T ! j)}"
      using inv unfolding s by (simp add: demo_inv_def)
    show "\<forall>j < length (demo_threads T). inside (demo_threads T ! j) \<longleftrightarrow> demo_owner T = Some j"
      using inv o by (auto simp: ph(1,2,5) demo_inv_def)
    show "guarded T = concat (map (\<lambda>i. map (Pair i) (block i)) (os @ [i])) @
       (case demo_owner T of None \<Rightarrow> [] | Some i \<Rightarrow> map (Pair i) (so_far i (demo_threads T ! i)))"
      using inv o p by (simp add: ph(4,5) demo_inv_def)
    show "\<forall>j < length (demo_threads T). \<forall>thrown. demo_threads T ! j = D_unlock thrown \<longrightarrow> thrown = ((j + 1) mod 2 \<noteq> 0)"
      using inv by (auto simp: ph(1,2) demo_inv_def)
    show "\<forall>j < length (demo_threads T). demo_threads T ! j = D_catch \<longrightarrow> (j + 1) mod 2 \<noteq> 0"
      using inv t by (auto simp: ph(1,2) demo_inv_def)
    have ci: "caught_by S j = of_bool (j < length (demo_threads S) \<and> demo_threads S ! j = D_done \<and> (j + 1) mod 2 \<noteq> 0)" for j
      using inv unfolding demo_inv_def by blast
    show "\<forall>j. caught_by T j = of_bool (j < length (demo_threads T) \<and> demo_threads T ! j = D_done \<and> (j + 1) mod 2 \<noteq> 0)"
      unfolding ph ci using p t by auto
  qed (simp_all add: ph)
  then show ?thesis by (simp add: T_def)
qed

lemma catch_step:
  assumes inv: "demo_inv os S" and i: "i < length (demo_threads S)" and p: "demo_threads S ! i = D_catch"
  shows "demo_inv os (demo_print i Caught D_done S)"
proof -
  define T where "T = demo_print i Caught D_done S"
  have odd: "(i + 1) mod 2 \<noteq> 0" using inv i p unfolding demo_inv_def by blast
  have "\<not> inside (demo_threads S ! i)" using p by simp
  with inv i have o: "demo_owner S \<noteq> Some i" unfolding demo_inv_def by blast
  have ph: "demo_threads T ! j = (if j = i then D_done else demo_threads S ! j)"
    "length (demo_threads T) = length (demo_threads S)" "caught_by T j = caught_by S j + (if j = i then 1 else 0)"
    "guarded T = guarded S" "demo_owner T = demo_owner S" for j
    using i by (auto simp: T_def demo_print_def nth_list_update caught_by_def guarded_def)
  have l: "left (if j = i then D_done else demo_threads S ! j) = left (demo_threads S ! j)"
    "inside (if j = i then D_done else demo_threads S ! j) = inside (demo_threads S ! j)" for j
    using p by simp_all
  have c: "(case demo_owner S of None \<Rightarrow> [] | Some k \<Rightarrow> map (Pair k) (so_far k (if k = i then D_done else demo_threads S ! k))) =
     (case demo_owner S of None \<Rightarrow> [] | Some k \<Rightarrow> map (Pair k) (so_far k (demo_threads S ! k)))"
    using o by (auto split: option.split)
  have ci: "caught_by S j = of_bool (j < length (demo_threads S) \<and> demo_threads S ! j = D_done \<and> (j + 1) mod 2 \<noteq> 0)" for j
    using inv unfolding demo_inv_def by blast
  have "demo_inv os T"
    unfolding demo_inv_def ph l c
  proof (intro conjI)
    show "\<forall>j. caught_by S j + (if j = i then 1 else 0) =
        of_bool (j < length (demo_threads S) \<and> (if j = i then D_done else demo_threads S ! j) = D_done \<and> (j + 1) mod 2 \<noteq> 0)"
      unfolding ci using p i odd by auto
  qed (use inv in \<open>auto simp: demo_inv_def\<close>)
  then show ?thesis by (simp add: T_def)
qed

lemma create_step:
  assumes inv: "demo_inv os S" and c: "demo_create S = Some S'"
  shows "demo_inv os S'"
proof -
  have ph: "demo_threads S' ! j = (if j = length (demo_threads S) then D_lock else demo_threads S ! j)"
    if "j < length (demo_threads S')" for j
    using c that by (auto simp: demo_create_def nth_append split: if_splits)
  have S': "length (demo_threads S') = Suc (length (demo_threads S))" "caught_by S' j = caught_by S j"
    "guarded S' = guarded S" "demo_owner S' = demo_owner S" for j
    using c by (auto simp: demo_create_def caught_by_def guarded_def split: if_splits)
  have o: "demo_owner S = Some k \<Longrightarrow> k < length (demo_threads S)" for k
    using inv unfolding demo_inv_def by blast
  have c: "(case demo_owner S of None \<Rightarrow> [] | Some k \<Rightarrow> map (Pair k) (so_far k (demo_threads S' ! k))) =
     (case demo_owner S of None \<Rightarrow> [] | Some k \<Rightarrow> map (Pair k) (so_far k (demo_threads S ! k)))"
    using o ph by (auto split: option.split simp: S')
  have ci: "caught_by S j = of_bool (j < length (demo_threads S) \<and> demo_threads S ! j = D_done \<and> (j + 1) mod 2 \<noteq> 0)" for j
    using inv unfolding demo_inv_def by blast
  show ?thesis
    unfolding demo_inv_def S' c
  proof (intro conjI)
    show "set os = {i. i < Suc (length (demo_threads S)) \<and> left (demo_threads S' ! i)}"
      using inv ph by (auto simp: demo_inv_def S' less_Suc_eq)
    show "\<forall>i < Suc (length (demo_threads S)). inside (demo_threads S' ! i) \<longleftrightarrow> demo_owner S = Some i"
      using inv ph o by (auto simp: demo_inv_def S' less_Suc_eq)
    show "\<forall>j. caught_by S j = of_bool (j < Suc (length (demo_threads S)) \<and> demo_threads S' ! j = D_done \<and> (j + 1) mod 2 \<noteq> 0)"
      unfolding ci using ph by (auto simp: S' less_Suc_eq)
  qed (use inv ph in \<open>auto simp: demo_inv_def S' less_Suc_eq\<close>)
qed

lemma thread_step:
  assumes inv: "demo_inv os S" and i: "i < length (demo_threads S)" and st: "print_thread_id i S = Some S'"
  shows "\<exists>os'. demo_inv os' S'"
proof (cases "demo_threads S ! i")
  case D_lock
  with st have "demo_owner S = None" "S' = S\<lparr>demo_owner := Some i, demo_threads := (demo_threads S)[i := D_current]\<rparr>"
    by (auto simp: print_thread_id_def split: if_splits)
  with lock_step [OF inv i D_lock] show ?thesis by blast
next
  case D_current
  with st have S': "S' = demo_print i Current D_waiting S" by (simp add: print_thread_id_def print_even_def)
  have "demo_inv os S'"
    by (rule inside_step [OF inv i, where p' = D_waiting and ls = "[Current]"])
      (simp_all add: D_current S' demo_print_def)
  then show ?thesis by blast
next
  case D_waiting
  with st have S': "S' = demo_print i Waiting D_reached S" by (simp add: print_thread_id_def print_even_def)
  have "demo_inv os S'"
    by (rule inside_step [OF inv i, where p' = D_reached and ls = "[Waiting]"])
      (simp_all add: D_waiting S' demo_print_def)
  then show ?thesis by blast
next
  case D_reached
  with st have S': "S' = demo_print i Reached D_test S" by (simp add: print_thread_id_def print_even_def)
  have "demo_inv os S'"
    by (rule inside_step [OF inv i, where p' = D_test and ls = "[Reached]"])
      (simp_all add: D_reached S' demo_print_def)
  then show ?thesis by blast
next
  case D_test
  show ?thesis
  proof (cases "(i + 1) mod 2 = 0")
    case True
    with st D_test have S': "S' = demo_print i Is_even (D_unlock False) S"
      by (simp add: print_thread_id_def print_even_def)
    have "demo_inv os S'"
      by (rule inside_step [OF inv i, where p' = "D_unlock False" and ls = "[Is_even]"])
        (use True in \<open>simp_all add: D_test S' demo_print_def block_def\<close>)
    then show ?thesis by blast
  next
    case False
    with st D_test have S': "S' = S\<lparr>demo_threads := (demo_threads S)[i := D_unlock True]\<rparr>"
      by (simp add: print_thread_id_def print_even_def)
    have "demo_inv os S'"
      by (rule inside_step [OF inv i, where p' = "D_unlock True" and ls = "[]"])
        (use False in \<open>simp_all add: D_test S' block_def\<close>)
    then show ?thesis by blast
  qed
next
  case (D_unlock t)
  with st unlock_step [OF inv i D_unlock] show ?thesis by (auto simp: print_thread_id_def)
next
  case D_catch
  with st catch_step [OF inv i D_catch] show ?thesis by (auto simp: print_thread_id_def)
next
  case D_done
  with st show ?thesis by (simp add: print_thread_id_def)
qed

lemma demo_reach_inv: "demo_reach S \<Longrightarrow> \<exists>os. demo_inv os S"
proof (induction rule: demo_reach.induct)
  case start
  show ?case by (rule exI [of _ "[]"]) (simp add: demo_inv_def guarded_def caught_by_def)
next
  case (create S S')
  then show ?case using create_step by blast
next
  case (thread S i S')
  then show ?case using thread_step by blast
qed

lemma mset_upto: "distinct xs \<Longrightarrow> set xs = {0..<n} \<Longrightarrow> mset xs = mset [0..<n]"
  using mset_set_set [of xs] by simp

section \<open>The race\<close>

text \<open>A thread that waits for \<open>ready\<close>, one that has counted to \<open>k\<close>, one that has printed its number.\<close>

datatype race_phase = R_spin | R_count nat | R_done

record race =
  ready :: bool
  racers :: "race_phase list"
  race_out :: "nat list"        \<comment> \<open>the numbers printed\<close>
  race_end :: bool              \<comment> \<open>main has joined the threads and printed its last character\<close>

definition race_limit :: nat where "race_limit = 10000000"

definition count1m :: "nat \<Rightarrow> race \<Rightarrow> race" where
  "count1m i S =
     (case racers S ! i of
        R_spin \<Rightarrow> if ready S then S\<lparr>racers := (racers S)[i := R_count 0]\<rparr> else S
      | R_count k \<Rightarrow>
          if k < race_limit then S\<lparr>racers := (racers S)[i := R_count (Suc k)]\<rparr>
          else S\<lparr>race_out := race_out S @ [i], racers := (racers S)[i := R_done]\<rparr>
      | R_done \<Rightarrow> S)"

text \<open>main starts ten threads, sets the flag, joins them and prints.\<close>

definition race_main :: "race \<Rightarrow> race" where
  "race_main S =
     (if length (racers S) < 10 then S\<lparr>racers := racers S @ [R_spin]\<rparr>
      else if \<not> ready S then S\<lparr>ready := True\<rparr>
      else if \<forall>p \<in> set (racers S). p = R_done then S\<lparr>race_end := True\<rparr>
      else S)"

inductive race_reach :: "race \<Rightarrow> bool" where
  start: "race_reach \<lparr>ready = False, racers = [], race_out = [], race_end = False\<rparr>"
| main: "race_reach S \<Longrightarrow> race_reach (race_main S)"
| thread: "race_reach S \<Longrightarrow> i < length (racers S) \<Longrightarrow> race_reach (count1m i S)"

definition race_inv :: "race \<Rightarrow> bool" where
  "race_inv S \<longleftrightarrow> distinct (race_out S) \<and>
     set (race_out S) = {i. i < length (racers S) \<and> racers S ! i = R_done} \<and>
     length (racers S) \<le> 10 \<and> (ready S \<longrightarrow> length (racers S) = 10) \<and>
     (\<not> ready S \<longrightarrow> (\<forall>p \<in> set (racers S). p = R_spin)) \<and>
     (race_end S \<longrightarrow> ready S \<and> (\<forall>p \<in> set (racers S). p = R_done))"

lemma count1m_inv:
  assumes inv: "race_inv S" and i: "i < length (racers S)"
  shows "race_inv (count1m i S)"
proof -
  define D where "D = {j. j < length (racers S) \<and> racers S ! j = R_done}"
  have mem: "racers S ! i \<in> set (racers S)" using i by simp
  have keep: "{j. j < length (racers S) \<and> (racers S)[i := p] ! j = R_done} = D"
    if "p \<noteq> R_done" "racers S ! i \<noteq> R_done" for p
    using that i by (auto simp: D_def nth_list_update)
  have d: "distinct (race_out S)" "set (race_out S) = D" "length (racers S) \<le> 10"
    "ready S \<Longrightarrow> length (racers S) = 10"
    using inv by (simp_all add: race_inv_def D_def)
  show ?thesis
  proof (cases "racers S ! i")
    case R_done
    then show ?thesis using inv by (simp add: count1m_def)
  next
    case R_spin
    then have "\<not> race_end S" using inv mem by (auto simp: race_inv_def)
    then show ?thesis
      using inv d R_spin keep [of "R_count 0"] by (cases "ready S") (simp_all add: count1m_def race_inv_def)
  next
    case (R_count k)
    then have r: "ready S" "\<not> race_end S" using inv mem by (auto simp: race_inv_def)
    have ni: "i \<notin> D" using R_count by (simp add: D_def)
    have new: "{j. j < length (racers S) \<and> (racers S)[i := R_done] ! j = R_done} = insert i D"
      using i by (auto simp: D_def nth_list_update)
    show ?thesis
      using r d ni new R_count keep [of "R_count (Suc k)"] by (simp add: count1m_def race_inv_def)
  qed
qed

lemma race_main_inv: "race_inv S \<Longrightarrow> race_inv (race_main S)"
  by (auto simp: race_main_def race_inv_def nth_append less_Suc_eq)

lemma race_reach_inv: "race_reach S \<Longrightarrow> race_inv S"
proof (induction rule: race_reach.induct)
  case start
  show ?case by (simp add: race_inv_def)
qed (blast intro: race_main_inv count1m_inv)+

section \<open>Properties\<close>

text \<open>When main has joined its ten threads, what they printed under the lock is one unbroken block per
  thread, each thread exactly once, with the line on its parity for the even ids only; and each
  thread with an odd id, and no other, has caught its exception exactly once.\<close>

theorem demo_blocks:
  assumes "demo_reach S" "demo_joined S"
  shows "(\<exists>os. mset os = mset [0..<10] \<and>
      filter (\<lambda>p. snd p \<noteq> Caught) (printed S) = concat (map (\<lambda>i. map (Pair i) (block i)) os)) \<and>
    (\<lambda>i. count_list (printed S) (i, Caught)) = (\<lambda>i. of_bool (i < 10 \<and> odd (i + 1)))"
proof -
  obtain os where os: "demo_inv os S" using demo_reach_inv [OF assms(1)] by blast
  have l: "length (demo_threads S) = 10" "\<And>i. i < 10 \<Longrightarrow> demo_threads S ! i = D_done"
    using assms(2) by (auto simp: demo_joined_def)
  have o: "demo_owner S = None"
    using os l by (cases "demo_owner S") (auto simp: demo_inv_def)
  have "set os = {0..<10}" using os l by (auto simp: demo_inv_def)
  moreover have "distinct os" using os by (simp add: demo_inv_def)
  ultimately have m: "mset os = mset [0..<10]"
    by (intro mset_upto)
  have "guarded S = concat (map (\<lambda>i. map (Pair i) (block i)) os)"
    using os o by (simp add: demo_inv_def)
  moreover have "caught_by S i = of_bool (i < 10 \<and> odd (i + 1))" for i
    using os l by (auto simp: demo_inv_def odd_iff_mod_2_eq_one)
  ultimately show ?thesis using m unfolding guarded_def caught_by_def by blast
qed

text \<open>The threads never deadlock, although every second one leaves the lock with an exception: as long as
  main has not joined them, main can create one or some thread can take a step.\<close>

theorem demo_progress:
  assumes "demo_reach S"
  shows "demo_joined S \<or> demo_create S \<noteq> None \<or> (\<exists>i < length (demo_threads S). print_thread_id i S \<noteq> None)"
proof (cases "demo_joined S \<or> demo_create S \<noteq> None")
  case False
  obtain os where os: "demo_inv os S" using demo_reach_inv [OF assms] by blast
  from False os have "length (demo_threads S) \<ge> 10" by (simp add: demo_create_def split: if_splits)
  moreover have len: "length (demo_threads T) \<le> 10" if "demo_reach T" for T
    using that by (induction rule: demo_reach.induct)
      (auto simp: demo_create_def print_thread_id_def print_even_def demo_print_def
        split: if_splits demo_phase.splits)
  ultimately have l: "length (demo_threads S) = 10" using len [OF assms] by simp
  with False obtain p where p: "p \<in> set (demo_threads S)" "p \<noteq> D_done" by (auto simp: demo_joined_def)
  then obtain j where j: "j < length (demo_threads S)" "demo_threads S ! j \<noteq> D_done" by (auto simp: in_set_conv_nth)
  show ?thesis
  proof (cases "demo_owner S")
    case None
    have "print_thread_id j S \<noteq> None"
      using j(2) None by (simp add: print_thread_id_def split: demo_phase.split)
    with j(1) show ?thesis by blast
  next
    case (Some k)
    with os have k: "k < length (demo_threads S)" by (simp add: demo_inv_def)
    with os Some have "inside (demo_threads S ! k)" by (simp add: demo_inv_def)
    then have "print_thread_id k S \<noteq> None"
      by (cases "demo_threads S ! k") (simp_all add: print_thread_id_def)
    with k show ?thesis by blast
  qed
qed blast

text \<open>When the race has ended every thread has printed its number exactly once, and none before the flag.\<close>

lemma race_once:
  assumes "race_reach S"
  shows "race_end S \<Longrightarrow> mset (race_out S) = mset [0..<10]" "\<not> ready S \<Longrightarrow> race_out S = []"
proof -
  have i: "race_inv S" by (rule race_reach_inv [OF assms])
  show "mset (race_out S) = mset [0..<10]" if "race_end S"
  proof -
    have "set (race_out S) = {0..<10}" using i that by (auto simp: race_inv_def)
    with i show ?thesis by (intro mset_upto) (simp_all add: race_inv_def)
  qed
  show "race_out S = []" if "\<not> ready S"
  proof (rule ccontr)
    assume "race_out S \<noteq> []"
    then obtain x where "x \<in> set (race_out S)" by (cases "race_out S") auto
    with i have x: "x < length (racers S)" "racers S ! x = R_done" by (simp_all add: race_inv_def)
    from i that nth_mem [OF x(1)] have "racers S ! x = R_spin" by (simp add: race_inv_def)
    with x(2) show False by simp
  qed
qed

text \<open>Runs by a schedule: \<open>None\<close> lets main create a thread.\<close>

fun demo_run :: "nat option list \<Rightarrow> demo \<Rightarrow> demo option" where
  "demo_run [] S = Some S"
| "demo_run (x # xs) S =
     (case (case x of None \<Rightarrow> demo_create S
        | Some i \<Rightarrow> if i < length (demo_threads S) then print_thread_id i S else None) of
        None \<Rightarrow> None | Some T \<Rightarrow> demo_run xs T)"

definition demo_start :: demo where
  "demo_start = \<lparr>demo_owner = None, demo_threads = [], printed = []\<rparr>"

lemma demo_run_reach: "demo_run xs S = Some T \<Longrightarrow> demo_reach S \<Longrightarrow> demo_reach T"
  by (induction xs arbitrary: S)
    (auto split: option.splits if_splits intro: demo_reach.create demo_reach.thread)

text \<open>The last thread first, one after the other.\<close>

definition demo_schedule :: "nat option list" where
  "demo_schedule = replicate 10 None @
     concat (map (\<lambda>i. replicate (if even i then 7 else 6) (Some i)) [9, 8, 7, 6, 5, 4, 3, 2, 1, 0])"

lemma demo_schedule_joins:
  "case demo_run demo_schedule demo_start of None \<Rightarrow> False | Some S \<Rightarrow> demo_joined S \<and> length (printed S) = 40"
  by code_simp

lemma demo_schedule_run:
  obtains S where "demo_reach S" "demo_joined S" "length (printed S) = 40"
proof -
  obtain S where S: "demo_run demo_schedule demo_start = Some S" "demo_joined S" "length (printed S) = 40"
    using demo_schedule_joins by (cases "demo_run demo_schedule demo_start") auto
  from demo_run_reach [OF S(1)] S(2,3) that show ?thesis by (simp add: demo_start_def demo_reach.start)
qed

lemma demo_blocks_witness:
  "\<exists>S os. demo_reach S \<and> demo_joined S \<and> length (printed S) = 40 \<and> mset os = mset [0..<10] \<and>
     filter (\<lambda>p. snd p \<noteq> Caught) (printed S) = concat (map (\<lambda>i. map (Pair i) (block i)) os)"
proof -
  obtain S where S: "demo_reach S" "demo_joined S" "length (printed S) = 40" by (rule demo_schedule_run)
  from demo_blocks [OF S(1,2)] S show ?thesis by blast
qed

lemma demo_progress_witness:
  "demo_joined demo_start \<or> demo_create demo_start \<noteq> None \<or>
     (\<exists>i < length (demo_threads demo_start). print_thread_id i demo_start \<noteq> None)"
  using demo_progress [OF demo_reach.start] by (simp only: demo_start_def)

end
