(* ===== verification/Test_Mains.thy ===== *)
theory Test_Mains
  imports Text_Input Time_Format
begin

text \<open>
  The small test programs of Project1/MyTestMain01.cpp that the preprocessor disables: the summation of
  a list, the greeting with its upper case word, the check of a name, and the substring, date and marks
  program. Words and lines of the input are arguments, and so are the regular expression library and the
  floating point numbers read and shown.
\<close>

section \<open>Summation\<close>

definition int_add :: "int \<Rightarrow> int \<Rightarrow> fault + int" where
  "int_add a b = (if - (2 ^ 31) \<le> a + b \<and> a + b < 2 ^ 31 then Inr (a + b) else Inl SignedOverflow)"

fun sum_from :: "int \<Rightarrow> int list \<Rightarrow> fault + int" where
  "sum_from tot [] = Inr tot"
| "sum_from tot (value # lst) = and_then (int_add tot value) (\<lambda>t. sum_from t lst)"

definition makeSum :: "int list \<Rightarrow> fault + int" where
  "makeSum lst = sum_from 0 lst"

definition getArraySize :: nat where "getArraySize = 32"

text \<open>The main: at the end of the input the word stays empty.\<close>

definition word_main :: "string list \<Rightarrow> fault + string" where
  "word_main inp =
     (let a = (case inp of [] \<Rightarrow> [] | w # _ \<Rightarrow> w)
      in and_then (makeSum [1, 2, 3, 4, 5]) (\<lambda>aa.
           Inr (''Enter new word : '' @ ''Your word is : '' @ a @ [CHR 0x0A] @ ''sum : '' @ dec_int aa @ [CHR 0x0A])))"

section \<open>Greeting\<close>

text \<open>toupper is undefined for a negative argument, which a char above 127 becomes.\<close>

definition toupper :: "char \<Rightarrow> fault + char" where
  "toupper c =
     (let n = (of_char c :: nat) in
      if n \<ge> 128 then Inl OutOfBounds
      else if 97 \<le> n \<and> n \<le> 122 then Inr (char_of (n - 32)) else Inr c)"

fun upper_loop :: "string \<Rightarrow> fault + string" where
  "upper_loop [] = Inr []"
| "upper_loop (c # cs) = and_then (toupper c) (\<lambda>d. and_then (upper_loop cs) (\<lambda>ds. Inr (d # ds)))"

definition find_first_of :: "string \<Rightarrow> string \<Rightarrow> nat option" where
  "find_first_of s set_of =
     (let ks = filter (\<lambda>k. s ! k \<in> set set_of) [0..<length s] in if ks = [] then None else Some (hd ks))"

text \<open>The first element of an empty string is its NUL, which toupper keeps.\<close>

definition name_main :: "string list \<Rightarrow> fault + string" where
  "name_main inp =
     (let name = (case inp of [] \<Rightarrow> [] | w # _ \<Rightarrow> w);
          t2 = (case inp of _ # w # _ \<Rightarrow> w | _ \<Rightarrow> [])
      in and_then (case t2 of [] \<Rightarrow> Inr [] | c # cs \<Rightarrow> and_then (toupper c) (\<lambda>d. Inr (d # cs))) (\<lambda>u.
         and_then (upper_loop u) (\<lambda>t3.
           let full = name @ '' + '' @ t3;
               found = (if find_first_of t3 ''OO'' \<noteq> None
                 then ''contains at least one '' @ ''OO'' @ ''!'' else ''does not contain '' @ ''OO'') @ [CHR 0x0A]
           in Inr (''Enter your name:'' @ found @
                (if full = [] then ''You entered an empty string, '' @ ''assigning default'' @ [CHR 0x0A]
                 else ''Thank you, '' @ full @ '' for running this simple program!'' @ [CHR 0x0A])))))"

section \<open>Substrings and a date\<close>

definition substr :: "nat \<Rightarrow> nat \<Rightarrow> string \<Rightarrow> fault + string" where
  "substr pos n s = (if pos > length s then Inl Thrown else Inr (take n (drop pos s)))"

text \<open>A stream: whether it is good, and what is left of it. A failed extraction leaves the later ones
  without effect; \<open>None\<close> is a variable without a value.\<close>

definition extract_var :: "bool \<times> string \<Rightarrow> int option \<Rightarrow> (bool \<times> string) \<times> int option" where
  "extract_var st v =
     (if \<not> fst st then (st, v)
      else case extract_int (snd st) of
             AtEnd \<Rightarrow> ((False, []), v)
           | NotNumber \<Rightarrow> ((False, snd st), Some 0)
           | OutOfRange x \<Rightarrow> ((False, snd st), Some x)
           | Number x rest \<Rightarrow> ((True, rest), Some x))"

definition extract_char :: "bool \<times> string \<Rightarrow> bool \<times> string" where
  "extract_char st =
     (if \<not> fst st then st
      else case dropWhile is_space (snd st) of [] \<Rightarrow> (False, []) | _ # cs \<Rightarrow> (True, cs))"

fun show_var :: "int option \<Rightarrow> fault + string" where
  "show_var None = Inl Uninitialised"
| "show_var (Some x) = Inr (dec_int x)"

definition date_part :: "string \<Rightarrow> fault + string" where
  "date_part inp =
     (let s = ''hello world, this is a test'' in
      and_then (substr 6 5 s) (\<lambda>fragment.
      and_then (substr (length s - 3) 5 s) (\<lambda>end_of.
        let iso_date = takeWhile (\<lambda>c. c \<noteq> CHR 0x0A) inp;
            (st1, year) = extract_var (True, iso_date) None;
            (st2, month) = extract_var (extract_char st1) None;
            (st3, day) = extract_var (extract_char st2) None
        in and_then (show_var year) (\<lambda>y.
           and_then (show_var month) (\<lambda>m.
           and_then (show_var day) (\<lambda>d.
             Inr (fragment @ [CHR 0x0A] @ end_of @ [CHR 0x0A] @ ''Enter date (yyyy-mm-dd): '' @
                  ''Your date : '' @ y @ ''-'' @ m @ ''-'' @ d @ [CHR 0x0A])))))))"

text \<open>The marks: \<open>mark i\<close> is the value the i-th read leaves in its element (0 when it fails), \<open>shown\<close> the text of
  a value. The first loop goes by an index, the second by an iterator with a counter.\<close>

fun ask_marks :: "nat \<Rightarrow> nat \<Rightarrow> string" where
  "ask_marks i 0 = []"
| "ask_marks i (Suc n) = ''Enter marks for #'' @ dec_nat (i + 1) @ '' : '' @ ask_marks (Suc i) n"

fun index_marks :: "('d \<Rightarrow> string) \<Rightarrow> 'd list \<Rightarrow> nat \<Rightarrow> nat \<Rightarrow> string" where
  "index_marks shown marks i 0 = []"
| "index_marks shown marks i (Suc n) =
     ''Marks['' @ dec_nat i @ '']='' @ shown (marks ! i) @ [CHR 0x0A] @ index_marks shown marks (Suc i) n"

fun iterate_marks :: "('d \<Rightarrow> string) \<Rightarrow> nat \<Rightarrow> 'd list \<Rightarrow> string" where
  "iterate_marks shown idx [] = []"
| "iterate_marks shown idx (m # ms) =
     CHR ''#'' # dec_nat idx @ ''='' @ shown m @ [CHR 0x0A] @ iterate_marks shown (Suc idx) ms"

definition date_main :: "('d \<Rightarrow> string) \<Rightarrow> (nat \<Rightarrow> 'd) \<Rightarrow> string \<Rightarrow> fault + string" where
  "date_main shown mark inp =
     (let marks = map mark [0..<20]
      in and_then (date_part inp) (\<lambda>s.
           Inr (s @ ask_marks 0 (length marks) @ index_marks shown marks 0 (length marks) @ iterate_marks shown 0 marks)))"

text \<open>The name check; the compiler takes the unknown escapes of the literal for the parentheses themselves.\<close>

definition fullname_pattern :: string where
  "fullname_pattern = ''([A-Z]+[A-Za-z]*), ([A-Z][A-Za-z]*)''"

definition fullname_main :: "(string \<Rightarrow> string \<Rightarrow> bool) \<Rightarrow> string \<Rightarrow> string" where
  "fullname_main regex_match inp =
     (let name = takeWhile (\<lambda>c. c \<noteq> CHR 0x0A) inp
      in ''Enter you full name : '' @
         (if \<not> regex_match name fullname_pattern then ''Error: name not entered correctly'' @ [CHR 0x0A] else []))"

section \<open>What they compute\<close>

text \<open>Both loops list the same values in the same order.\<close>

lemma index_marks_map:
  "i + n = length marks \<Longrightarrow> index_marks shown marks i n =
     concat (map (\<lambda>j. ''Marks['' @ dec_nat j @ '']='' @ shown (marks ! j) @ [CHR 0x0A]) [i..<length marks])"
proof (induction n arbitrary: i)
  case (Suc n)
  then have "[i..<length marks] = i # [Suc i..<length marks]" by (simp add: upt_conv_Cons)
  with Suc show ?case by simp
qed simp

lemma iterate_marks_map:
  "iterate_marks shown k marks =
     concat (map (\<lambda>j. CHR ''#'' # dec_nat (k + j) @ ''='' @ shown (marks ! j) @ [CHR 0x0A]) [0..<length marks])"
proof (induction marks arbitrary: k)
  case (Cons m ms)
  have "[0..<length (m # ms)] = 0 # map Suc [0..<length ms]" by (simp add: upt_conv_Cons map_Suc_upt del: upt_Suc)
  with Cons show ?case by (simp add: comp_def del: upt_Suc)
qed simp

lemma sum_from_prefixes:
  assumes "\<And>n. n \<le> length lst \<Longrightarrow> \<bar>tot + sum_list (take n lst)\<bar> < 2 ^ 31"
  shows "sum_from tot lst = Inr (tot + sum_list lst)"
  using assms
proof (induction lst arbitrary: tot)
  case (Cons x lst)
  have "\<bar>tot + x\<bar> < 2 ^ 31" using Cons.prems [of 1] by simp
  then have "- (2 ^ 31) \<le> tot + x \<and> tot + x < 2 ^ 31" by arith
  then have "int_add tot x = Inr (tot + x)" by (simp add: int_add_def)
  moreover have "\<bar>tot + x + sum_list (take n lst)\<bar> < 2 ^ 31" if "n \<le> length lst" for n
    using Cons.prems [of "Suc n"] that by (simp add: add.assoc)
  ultimately show ?case using Cons.IH [of "tot + x"] by (simp add: add.assoc)
qed simp

lemma makeSum_sums:
  "(\<And>n. n \<le> length lst \<Longrightarrow> \<bar>sum_list (take n lst)\<bar> < 2 ^ 31) \<Longrightarrow> makeSum lst = Inr (sum_list lst)"
  using sum_from_prefixes [of lst 0] by (simp add: makeSum_def)

lemma extract_digits:
  assumes "ds \<noteq> []" "\<forall>c \<in> set ds. is_digit c" "read_digits 0 ds < 2 ^ 31"
    and "rest = [] \<or> \<not> is_digit (hd rest)"
  shows "extract_int (ds @ rest) = Number (int (read_digits 0 ds)) rest"
proof -
  obtain c cs where ds: "ds = c # cs" using assms(1) by (cases ds) auto
  have c: "is_digit c" "\<not> is_space c" "c \<noteq> CHR ''-''" "c \<noteq> CHR ''+''"
    using assms(2) by (auto simp: ds is_digit_def is_space_def)
  have t: "takeWhile is_digit (ds @ rest) = ds" "dropWhile is_digit (ds @ rest) = rest"
    using assms(2,4) by (cases rest; auto simp: takeWhile_append2 dropWhile_append2)+
  have v: "int (read_digits 0 ds) < 2 ^ 31" using assms(3) by simp
  have "dropWhile is_space (ds @ rest) = ds @ rest" using c(2) by (simp add: ds)
  moreover have "hd (ds @ rest) = c" by (simp add: ds)
  ultimately show ?thesis
    using assms(1) c(3,4) t v by (simp add: extract_int_def Let_def)
qed

lemma extract_var_digits:
  assumes "ds \<noteq> []" "\<forall>c \<in> set ds. is_digit c" "read_digits 0 ds < 2 ^ 31"
    and "rest = [] \<or> \<not> is_digit (hd rest)"
  shows "extract_var (True, ds @ rest) v = ((True, rest), Some (int (read_digits 0 ds)))"
  using extract_digits [OF assms] by (simp add: extract_var_def)

text \<open>The date program reads back the numbers of a date, whatever its separators are, and it prints them
  without their padding.\<close>

lemma date_reads_back:
  assumes "y < 2 ^ 31" "m < 100" "d < 100"
    and "\<not> is_digit c1" "\<not> is_space c1" "\<not> is_digit c2" "\<not> is_space c2"
  shows "date_part (dec_nat y @ c1 # pad 2 m @ c2 # pad 2 d @ CHR 0x0A # rest) =
    Inr (''world'' @ [CHR 0x0A] @ ''est'' @ [CHR 0x0A] @ ''Enter date (yyyy-mm-dd): '' @
      ''Your date : '' @ dec_nat y @ ''-'' @ dec_nat m @ ''-'' @ dec_nat d @ [CHR 0x0A])"
proof -
  let ?l = "dec_nat y @ c1 # pad 2 m @ c2 # pad 2 d"
  have p: "pad 2 m \<noteq> []" "pad 2 d \<noteq> []" by (simp_all add: pad_def)
  have nl: "\<not> is_digit (CHR 0x0A)" "is_space (CHR 0x0A)" by (simp_all add: is_digit_def is_space_def)
  have "CHR 0x0A \<notin> set ?l"
    using nl assms(5,7) dec_nat_digits [of y] digits_pad [of 2 m] digits_pad [of 2 d] by auto
  then have line: "takeWhile (\<lambda>c. c \<noteq> CHR 0x0A) (?l @ CHR 0x0A # rest) = ?l"
    by (subst takeWhile_append2) auto
  have 1: "extract_var (True, ?l) None = ((True, c1 # pad 2 m @ c2 # pad 2 d), Some (int y))"
    using extract_var_digits [of "dec_nat y" "c1 # pad 2 m @ c2 # pad 2 d" None] assms(1,4) dec_nat_digits [of y]
    by simp
  have 2: "extract_var (True, pad 2 m @ c2 # pad 2 d) None = ((True, c2 # pad 2 d), Some (int m))"
    using extract_var_digits [of "pad 2 m" "c2 # pad 2 d" None] assms(2,6) digits_pad [of 2 m] p by simp
  have 3: "extract_var (True, pad 2 d) None = ((True, []), Some (int d))"
    using extract_var_digits [of "pad 2 d" "[]" None] assms(3) digits_pad [of 2 d] p by simp
  have c: "extract_char (True, c1 # xs) = (True, xs)" "extract_char (True, c2 # xs) = (True, xs)" for xs
    using assms(5,7) by (simp_all add: extract_char_def)
  show ?thesis
    using line 1 2 3 by (simp add: date_part_def substr_def c dec_int_def Let_def)
qed

text \<open>The greeting: the second word in upper case, and whether it has an O; the branch for an empty name
  is never taken.\<close>

definition up :: "char \<Rightarrow> char" where
  "up c = (if 97 \<le> (of_char c :: nat) \<and> (of_char c :: nat) \<le> 122 then char_of ((of_char c :: nat) - 32) else c)"

lemma toupper_up: "(of_char c :: nat) < 128 \<Longrightarrow> toupper c = Inr (up c)"
  by (auto simp: toupper_def up_def Let_def)

lemma up_ascii: "(of_char c :: nat) < 128 \<Longrightarrow> (of_char (up c) :: nat) < 128"
  by (auto simp: up_def)

lemma up_up [simp]: "up (up c) = up c"
  by (auto simp: up_def)

lemma upper_loop_up: "\<forall>c \<in> set s. (of_char c :: nat) < 128 \<Longrightarrow> upper_loop s = Inr (map up s)"
  by (induction s) (simp_all add: toupper_up)

lemma find_first_of_O: "find_first_of s ''OO'' \<noteq> None \<longleftrightarrow> CHR ''O'' \<in> set s"
  by (auto simp: find_first_of_def Let_def filter_empty_conv in_set_conv_nth)

lemma name_greets:
  assumes "\<forall>c \<in> set w. (of_char c :: nat) < 128"
  shows "name_main (name # w # rest) =
    Inr (''Enter your name:'' @
      (if CHR ''O'' \<in> set (map up w) then ''contains at least one OO!'' else ''does not contain OO'') @ [CHR 0x0A] @
      ''Thank you, '' @ (name @ '' + '' @ map up w) @ '' for running this simple program!'' @ [CHR 0x0A])"
proof -
  obtain u where u: "(case w of [] \<Rightarrow> Inr [] | c # cs \<Rightarrow> and_then (toupper c) (\<lambda>d. Inr (d # cs))) = (Inr u :: fault + string)"
      "upper_loop u = Inr (map up w)"
    using assms by (cases w) (simp_all add: toupper_up up_ascii upper_loop_up)
  show ?thesis
    using find_first_of_O [of "map up w"] unfolding name_main_def Let_def by (simp add: u)
qed

end
