(* ===== verification/Chat_System.thy ===== *)
theory Chat_System
  imports Chat_Server Chat_Client
begin

text \<open>
  The chat server and the chat client together: what one hands to async_write arrives at the other's
  handlers, first the four bytes of the header and then the body.
\<close>

section \<open>From a client to the server\<close>

text \<open>Every message a client hands to its socket was made from one of its input lines.\<close>

lemma client_sent_made:
  assumes "client_reach raw c ms" "length raw = 516" "m \<in> set (c_sent c)"
  shows "m \<in> set ms"
proof -
  have "client_inv c ms" by (rule client_reach_inv [OF assms(1,2)])
  then have "co.accepted c @ posted_msgs (c_posted c) = ms" by (simp add: client_inv_def)
  then show ?thesis using assms(3) by (auto simp: co.accepted_def)
qed

lemma made_header:
  assumes "\<forall>x \<in> set ls. length (fst x) = header_length + max_body_length"
    and "input_loop ls = Inr ms" "m \<in> set ms"
  shows "\<exists>n \<le> max_body_length. take header_length (wire m) = fmt_4d (int n)"
proof -
  let ?f = "\<lambda>(raw :: string, line). fmt_4d (int (length (cstr line))) @ cstr line"
  let ?ls = "takeWhile (\<lambda>(raw :: string, line). length line \<le> max_body_length) ls"
  have "length raw = header_length + max_body_length" if "(raw, line) \<in> set ls" for raw line
    using assms(1) that by fastforce
  from input_loop_result [of ls, OF this] assms(2) have "map wire ms = map ?f ?ls" by auto
  then have "wire m \<in> set (map ?f ?ls)" using assms(3) by (metis image_eqI set_map)
  then obtain raw line where l: "(raw, line) \<in> set ?ls" "wire m = fmt_4d (int (length (cstr line))) @ cstr line"
    by auto
  from l(1) have "length line \<le> max_body_length" by (auto dest: set_takeWhileD)
  then have n: "length (cstr line) \<le> max_body_length"
    unfolding cstr_def using length_takeWhile_le le_trans by blast
  then show ?thesis using l(2) length_fmt_4d [OF n] by (auto simp: header_length_def)
qed

section \<open>From the server to a client\<close>

text \<open>A header the server accepts.\<close>

definition accepted_header :: "string \<Rightarrow> bool" where
  "accepted_header hdr \<longleftrightarrow> length hdr = header_length \<and> NUL \<in> set hdr \<and>
     to_size_t (atoi (cstr hdr)) \<le> max_body_length"

lemma decode_accepted:
  assumes "accepted_header hdr" "msg_ok m"
  shows "decode_header (put_header hdr m) =
    Inr (True, (put_header hdr m)\<lparr>msg_body_length := to_size_t (atoi (cstr hdr))\<rparr>)"
proof -
  have ok: "msg_ok (put_header hdr m)" using assms by (auto simp: accepted_header_def intro: put_header_ok)
  have t: "take header_length (msg_data (put_header hdr m)) = hdr"
    using assms(1) by (simp add: put_header_def accepted_header_def)
  have "cstr (msg_data (put_header hdr m)) = cstr hdr"
    using assms(1) by (auto simp: put_header_def accepted_header_def cstr_def takeWhile_append)
  then show ?thesis
    using decode_header_cases [OF ok] assms(1) t by (simp add: accepted_header_def Let_def)
qed

text \<open>Header and body of one message, read one after the other into a buffer.\<close>

lemma message_read:
  assumes "accepted_header hdr" "length bs = to_size_t (atoi (cstr hdr))" "msg_ok m"
  shows "\<exists>m'. put_body bs ((put_header hdr m)\<lparr>msg_body_length := length bs\<rparr>) = Inr m' \<and> wire m' = hdr @ bs \<and>
    body m' = bs"
  using assms by (auto simp: put_body_def put_header_def accepted_header_def msg_ok_def wire_def msg_length_def body_def
      msg_consts)

text \<open>What is relayed does not depend on the reading side of the sessions.\<close>

lemma relayed_frame:
  assumes "relayed m S1 S2" "participants (room S1) = participants (room S)"
    and "\<And>q t. sessions S q = Some t \<Longrightarrow>
      \<exists>t1. sessions S1 q = Some t1 \<and> write_msgs t1 = write_msgs t \<and> sent t1 = sent t"
  shows "relayed m S S2"
  unfolding relayed_def
proof (intro conjI allI impI)
  show "participants (room S2) = participants (room S)" using assms(1,2) by (simp add: relayed_def)
  fix q t assume "sessions S q = Some t"
  then obtain t1 where "sessions S1 q = Some t1" "write_msgs t1 = write_msgs t" "sent t1 = sent t"
    using assms(3) by blast
  then show "\<exists>t'. sessions S2 q = Some t' \<and> (if q \<in> set (participants (room S))
      then write_msgs t' = write_msgs t @ [m] \<and> sent t' = (if write_msgs t = [] then sent t @ [m] else sent t)
      else write_msgs t' = write_msgs t \<and> sent t' = sent t)"
    using assms(1,2) unfolding relayed_def by metis
qed

text \<open>The server's handlers on a header it accepts and the body that header announces.\<close>

lemma server_takes:
  assumes "server_reach S log" "sessions S p = Some s"
    and "accepted_header hdr" "length bs = to_size_t (atoi (cstr hdr))"
  shows "\<exists>S1 S2 m. on_read_header p (Some hdr) S = Inr S1 \<and> on_read_body p (Some bs) S1 = Inr S2 \<and>
    recent_msgs (room S2) = drop (length (log @ [m]) - max_recent_msgs) (log @ [m]) \<and>
    wire m = hdr @ bs \<and> body m = bs \<and> relayed m S S2"
proof -
  have inv: "server_inv S log" by (rule server_reach_inv [OF assms(1)])
  have ok: "msg_ok (read_msg s)" using session_inv_msg [OF server_inv_session [OF inv assms(2)]] .
  let ?h = "(put_header hdr (read_msg s))\<lparr>msg_body_length := length bs\<rparr>"
  let ?s = "session_do_read_body (s\<lparr>reading := NoRead, read_msg := ?h\<rparr>)"
  have h: "on_read_header p (Some hdr) S = Inr (S\<lparr>sessions := (sessions S)(p \<mapsto> ?s)\<rparr>)"
    using decode_accepted [OF assms(3) ok] assms(2,4) by (simp add: on_read_header_def)
  define S1 where "S1 = S\<lparr>sessions := (sessions S)(p \<mapsto> ?s)\<rparr>"
  obtain S1' where "on_read_header p (Some hdr) S = Inr S1'" "server_inv S1' log"
    using on_read_header_inv [OF inv assms(2), of hdr] assms(3) by (auto simp: accepted_header_def)
  with h have inv1: "server_inv S1 log" by (simp add: S1_def)
  have s1: "sessions S1 p = Some ?s" "read_msg ?s = ?h" by (simp_all add: S1_def session_do_read_body_def)
  obtain S2 m where S2: "put_body bs (read_msg ?s) = Inr m" "on_read_body p (Some bs) S1 = Inr S2"
      "server_inv S2 (log @ [m])" "relayed m S1 S2"
    using on_read_body_inv [OF inv1 s1(1), of bs] s1(2) by auto
  have "wire m = hdr @ bs" "body m = bs"
    using message_read [OF assms(3,4) ok] S2(1) s1(2) by auto
  moreover have "relayed m S S2"
    by (rule relayed_frame [OF S2(4)]) (auto simp: S1_def assms(2) session_do_read_body_def)
  ultimately show ?thesis using h S2 unfolding S1_def server_inv_def by blast
qed

text \<open>The client's handlers on the same bytes.\<close>

lemma client_takes:
  assumes "client_inv c clog" "accepted_header hdr" "length bs = to_size_t (atoi (cstr hdr))"
  shows "\<exists>c1 c2. client_on_read_header (Some hdr) c = Inr c1 \<and> client_on_read_body (Some bs) c1 = Inr c2 \<and>
    c_out c2 = c_out c @ bs @ [CHR 0x0A] \<and> c_reading c2 = CHeader"
proof -
  have ok: "msg_ok (c_read_msg c)" using assms(1) by (simp add: client_inv_def)
  show ?thesis
    using decode_accepted [OF assms(2) ok] message_read [OF assms(2,3) ok] assms(3)
    by (auto simp: client_on_read_header_def client_on_read_body_def client_do_read_body_def
        client_do_read_header_def)
qed

section \<open>Properties\<close>

text \<open>
  C12. Whatever lines are typed into a client, the header of every message it hands to its socket stops the
  server: in every reachable state and for every session, reading that header violates the
  constraint of strncat_s in decode_header, whose handler ends the program.\<close>

theorem client_stops_server:
  assumes "\<forall>x \<in> set ls. length (fst x) = header_length + max_body_length"
    and "input_loop ls = Inr ms" "client_reach raw0 c ms" "m \<in> set (c_sent c)"
    and "server_reach S log" "sessions S p = Some s"
  shows "on_read_header p (Some (take header_length (wire m))) S = Inl InvalidParameter"
proof -
  have "m \<in> set ms" using client_sent_made [OF assms(3) _ assms(4)] by simp
  then obtain n where n: "n \<le> max_body_length" "take header_length (wire m) = fmt_4d (int n)"
    using made_header [OF assms(1,2)] by blast
  show ?thesis
    unfolding n(2)
    by (rule header_fault [OF server_inv_session [OF server_reach_inv [OF assms(5)] assms(6)] _ _ assms(6)])
      (use length_fmt_4d [OF n(1)] fmt_4d_no_nul in \<open>simp_all add: header_length_def\<close>)
qed

text \<open>
  C6. Relay: a message whose header has a NUL and announces at most 512 bytes (which the client of this
  repository never writes) is taken by the server in every reachable state of any session and is the
  newest message of the room. Every session in the room, the sender's included, gets it at the end of
  its queue and hands it to async_write at once when nothing was queued before; nothing is queued for or
  written by any other session. Its bytes are those that were read, and every client that reads those
  bytes, in any of its reachable states, shows exactly the body on a line and reads on.\<close>

theorem relay_shows_body:
  assumes "server_reach S log" "sessions S p = Some s"
    and "length hdr = header_length" "NUL \<in> set hdr" "to_size_t (atoi (cstr hdr)) \<le> max_body_length"
    and "length bs = to_size_t (atoi (cstr hdr))"
    and "client_reach raw c clog" "length raw = 516"
  shows "\<exists>S1 S2 m. on_read_header p (Some hdr) S = Inr S1 \<and> on_read_body p (Some bs) S1 = Inr S2 \<and>
    last (recent_msgs (room S2)) = m \<and> wire m = hdr @ bs \<and>
    (\<forall>q t. sessions S q = Some t \<longrightarrow> (\<exists>t'. sessions S2 q = Some t' \<and>
       (if q \<in> set (participants (room S))
        then write_msgs t' = write_msgs t @ [m] \<and> sent t' = (if write_msgs t = [] then sent t @ [m] else sent t)
        else write_msgs t' = write_msgs t \<and> sent t' = sent t))) \<and>
    (\<exists>c1 c2. client_on_read_header (Some (take header_length (wire m))) c = Inr c1 \<and>
       client_on_read_body (Some (drop header_length (wire m))) c1 = Inr c2 \<and>
       c_out c2 = c_out c @ bs @ [CHR 0x0A] \<and> c_reading c2 = CHeader)"
proof -
  have h: "accepted_header hdr" using assms(3-5) by (simp add: accepted_header_def)
  obtain S1 S2 m where S: "on_read_header p (Some hdr) S = Inr S1" "on_read_body p (Some bs) S1 = Inr S2"
      "recent_msgs (room S2) = drop (length (log @ [m]) - max_recent_msgs) (log @ [m])" "wire m = hdr @ bs"
    and r: "relayed m S S2"
    using server_takes [OF assms(1,2) h assms(6)] by blast
  have l: "last (recent_msgs (room S2)) = m" unfolding S(3) by (simp add: max_recent_msgs_def)
  obtain c1 c2 where c: "client_on_read_header (Some hdr) c = Inr c1" "client_on_read_body (Some bs) c1 = Inr c2"
      "c_out c2 = c_out c @ bs @ [CHR 0x0A]" "c_reading c2 = CHeader"
    using client_takes [OF client_reach_inv [OF assms(7,8)] h assms(6)] by blast
  have "take header_length (wire m) = hdr" "drop header_length (wire m) = bs" using S(4) assms(3) by simp_all
  with S(1,2,4) l c r show ?thesis unfolding relayed_def by (intro exI conjI) (assumption | simp)+
qed

text \<open>A line typed into a client that has just started.\<close>

lemma one_message_sent: "\<exists>c. client_reach raw0 c [m] \<and> c_sent c = [m]"
proof -
  have 1: "client_reach raw0 (client_write m (new_client raw0)) [m]"
    using client_reach.step [OF client_reach.start client_step.main_write] by fastforce
  obtain c where c: "client_run_posted (client_write m (new_client raw0)) = Inr c" "c_sent c = [m]"
    by (simp add: client_run_posted_def client_write_def new_client_def client_enqueue_def
        client_do_write_def)
  from client_reach.step [OF 1 client_step.run_posted [OF c(1)]] c(2) show ?thesis by auto
qed

lemma raw0_lines: "\<forall>x \<in> set [(raw0, ''hi'')]. length (fst x) = header_length + max_body_length"
  by (simp add: msg_consts)

lemma hi_made: "\<exists>m. input_loop [(raw0, ''hi'')] = Inr [m] \<and> wire m = ''   2hi''"
proof -
  have f: "fmt_4d 2 = ''   2''" by code_simp
  have r: "length raw = header_length + max_body_length" if "(raw, line) \<in> set [(raw0, ''hi'')]" for raw line
    using raw0_lines that by fastforce
  define ls where "ls = [(raw0, ''hi'')]"
  have "\<exists>ms. input_loop ls = Inr ms \<and> (\<forall>m \<in> set ms. msg_ok m) \<and>
    map wire ms = map (\<lambda>(raw, line). fmt_4d (int (length (cstr line))) @ cstr line)
                      (takeWhile (\<lambda>(raw, line). length line \<le> max_body_length) ls)"
    by (rule input_loop_result) (rule r, simp add: ls_def)
  moreover have "map (\<lambda>(raw, line). fmt_4d (int (length (cstr line))) @ cstr line)
      (takeWhile (\<lambda>(raw, line). length line \<le> max_body_length) ls) = [''   2hi'']"
    using f by (simp add: ls_def max_body_length_def cstr_def NUL_def)
  ultimately obtain ms where "input_loop ls = Inr ms" "map wire ms = [''   2hi'']" by auto
  then show ?thesis unfolding ls_def by (cases ms) auto
qed

lemma client_stops_server_witness:
  "\<exists>c m. client_reach raw0 c [m] \<and> m \<in> set (c_sent c) \<and> take header_length (wire m) = ''   2'' \<and>
     on_read_header 5 (Some ''   2'') (demo_server ReadHeader abc_msg [abc_msg] [abc_msg] [abc_msg]) =
       Inl InvalidParameter"
proof -
  obtain m where m: "input_loop [(raw0, ''hi'')] = Inr [m]" "wire m = ''   2hi''" using hi_made by blast
  obtain c where c: "client_reach raw0 c [m]" "c_sent c = [m]" using one_message_sent by blast
  have "m \<in> set (c_sent c)" using c(2) by simp
  have t: "take header_length (wire m) = ''   2''" by (simp add: m(2) header_length_def)
  from client_stops_server [OF raw0_lines m(1) c(1) \<open>m \<in> set (c_sent c)\<close> demo_reach demo_session]
  show ?thesis unfolding t using c(1) \<open>m \<in> set (c_sent c)\<close> t by blast
qed

lemma relay_shows_body_witness:
  "\<exists>S1 S2 m t'. on_read_header 5 (Some abc_header) (demo_server ReadHeader abc_msg [abc_msg] [abc_msg] [abc_msg]) = Inr S1 \<and>
     on_read_body 5 (Some ''xyz'') S1 = Inr S2 \<and> last (recent_msgs (room S2)) = m \<and> wire m = abc_header @ ''xyz'' \<and>
     sessions S2 5 = Some t' \<and> write_msgs t' = [abc_msg, m]"
proof -
  have a: "cstr abc_header = ''3''" "atoi ''3'' = 3" "length abc_header = header_length" "NUL \<in> set abc_header"
    by (simp_all add: abc_header_def cstr_def NUL_def atoi_def is_space_def is_digit_def digit_val_def header_length_def)
  then have n: "to_size_t (atoi (cstr abc_header)) = 3" by (simp add: to_size_t_def)
  define S where "S = demo_server ReadHeader abc_msg [abc_msg] [abc_msg] [abc_msg]"
  have r: "server_reach S [abc_msg]" unfolding S_def by (rule demo_reach)
  have 5: "\<exists>t. sessions S 5 = Some t \<and> write_msgs t = [abc_msg]" "5 \<in> set (participants (room S))"
    by (simp_all add: S_def demo_server_def)
  then obtain t where t: "sessions S 5 = Some t" "write_msgs t = [abc_msg]" by blast
  have b: "to_size_t (atoi (cstr abc_header)) \<le> max_body_length" "length ''xyz'' = to_size_t (atoi (cstr abc_header))"
    unfolding n by (simp_all add: max_body_length_def)
  obtain S1 S2 m where m: "on_read_header 5 (Some abc_header) S = Inr S1" "on_read_body 5 (Some ''xyz'') S1 = Inr S2"
      "last (recent_msgs (room S2)) = m" "wire m = abc_header @ ''xyz''"
    and q: "\<forall>q t. sessions S q = Some t \<longrightarrow> (\<exists>t'. sessions S2 q = Some t' \<and>
       (if q \<in> set (participants (room S))
        then write_msgs t' = write_msgs t @ [m] \<and> sent t' = (if write_msgs t = [] then sent t @ [m] else sent t)
        else write_msgs t' = write_msgs t \<and> sent t' = sent t))"
    using relay_shows_body [OF r t(1) a(3,4) b client_reach.start raw0_length] by blast
  obtain t' where "sessions S2 5 = Some t'" "write_msgs t' = [abc_msg, m]"
    using q [rule_format, OF t(1)] 5(2) t(2) by auto
  with m show ?thesis unfolding S_def [symmetric] by blast
qed

end
