(* ===== verification/Chat_Network.thy ===== *)
theory Chat_Network
  imports Chat_System "HOL-Library.Sublist"
begin

text \<open>
  The running chat system: the server of MyTCPChatSrv01.cpp with one client of MyTCPChatCli01.cpp at
  each of its sessions, connected by TCP, which delivers to a client, in order and without loss, any
  part of the bytes that its session handed to async_write. What arrives at the server is left
  open: any peer may send anything, those that do not run this client included.
\<close>

section \<open>Messages that announce their own length\<close>

definition self_describing :: "chat_message \<Rightarrow> bool" where
  "self_describing m \<longleftrightarrow> msg_ok m \<and> NUL \<in> set (take header_length (msg_data m)) \<and>
     to_size_t (atoi (cstr (msg_data m))) = msg_body_length m"

lemma decoded_self_describing:
  assumes "msg_ok m" "decode_header m = Inr (True, m')"
  shows "self_describing m'"
  using assms decode_header_cases [OF assms(1)]
  by (auto simp: self_describing_def msg_ok_def Let_def split: if_splits)

lemma put_body_self_describing:
  assumes "self_describing m" "put_body bs m = Inr m'"
  shows "self_describing m'"
proof -
  let ?h = "take header_length (msg_data m)"
  have l: "length (msg_data m) = header_length + max_body_length" "NUL \<in> set ?h"
    using assms(1) by (simp_all add: self_describing_def msg_ok_def)
  obtain rest where d: "msg_data m' = ?h @ rest" "msg_body_length m' = msg_body_length m" "msg_ok m'"
    using assms put_body_keeps [OF assms(2)] by (auto simp: put_body_def self_describing_def split: if_splits)
  have h: "take header_length (msg_data m') = ?h" using l(1) by (simp add: d(1))
  have "cstr (msg_data m') = cstr ?h" using cstr_take_nul(1) [of header_length "msg_data m'"] l(2) h by simp
  also have "\<dots> = cstr (msg_data m)" using cstr_take_nul(1) [OF l(2)] .
  finally show ?thesis using assms(1) d(2,3) h by (simp add: self_describing_def)
qed

text \<open>What the bytes of such a message are.\<close>

lemma self_describing_wire:
  assumes "self_describing m"
  shows "accepted_header (take header_length (wire m))"
    "to_size_t (atoi (cstr (take header_length (wire m)))) = msg_body_length m"
    "length (wire m) = header_length + msg_body_length m"
    "drop header_length (wire m) = body m"
proof -
  have l: "length (msg_data m) = header_length + max_body_length" "msg_body_length m \<le> max_body_length"
    using assms by (simp_all add: self_describing_def msg_ok_def)
  have t: "take header_length (wire m) = take header_length (msg_data m)"
    by (simp add: wire_def msg_length_def min_def)
  have c: "cstr (take header_length (msg_data m)) = cstr (msg_data m)"
    using assms cstr_take_nul(1) by (simp add: self_describing_def)
  show n: "to_size_t (atoi (cstr (take header_length (wire m)))) = msg_body_length m"
    using assms by (simp add: t c self_describing_def)
  show "accepted_header (take header_length (wire m))"
    using assms l n by (simp add: accepted_header_def t self_describing_def)
  show "length (wire m) = header_length + msg_body_length m"
    using l by (simp add: wire_def msg_length_def)
  show "drop header_length (wire m) = body m"
    by (simp add: wire_def body_def msg_length_def drop_take)
qed

section \<open>What the server's steps do to the sessions\<close>

text \<open>Delivering extends what was handed to async_write and leaves the reading side alone.\<close>

definition kept :: "(sid \<Rightarrow> chat_session option) \<Rightarrow> (sid \<Rightarrow> chat_session option) \<Rightarrow> bool" where
  "kept ss ss' \<longleftrightarrow> dom ss' = dom ss \<and> (\<forall>p s. ss p = Some s \<longrightarrow>
     (\<exists>s'. ss' p = Some s' \<and> prefix (sent s) (sent s') \<and> read_msg s' = read_msg s \<and> reading s' = reading s))"

lemma kept_refl: "kept ss ss"
  by (simp add: kept_def)

lemma kept_trans:
  assumes "kept a b" "kept b c"
  shows "kept a c"
  unfolding kept_def
proof (intro conjI allI impI)
  show "dom c = dom a" using assms by (simp add: kept_def)
  fix p s
  assume "a p = Some s"
  then obtain s1 where s1: "b p = Some s1" "prefix (sent s) (sent s1)" "read_msg s1 = read_msg s" "reading s1 = reading s"
    using assms(1) unfolding kept_def by blast
  from s1(1) obtain s2 where "c p = Some s2" "prefix (sent s1) (sent s2)" "read_msg s2 = read_msg s1" "reading s2 = reading s1"
    using assms(2) unfolding kept_def by blast
  with s1 show "\<exists>s2. c p = Some s2 \<and> prefix (sent s) (sent s2) \<and> read_msg s2 = read_msg s \<and> reading s2 = reading s"
    using prefix_order.trans by force
qed

lemma session_deliver_sent: "session_deliver m s = Inr s' \<Longrightarrow> prefix (sent s) (sent s')"
  by (auto simp: session_deliver_def session_do_write_def Let_def split: if_splits list.splits)

lemma session_written_sent: "session_written s = Inr s' \<Longrightarrow> prefix (sent s) (sent s')"
  by (auto simp: session_written_def session_do_write_def Let_def split: if_splits list.splits)

lemma deliver_to_kept:
  assumes "deliver_to m p ss = Inr ss'"
  shows "kept ss ss'"
proof -
  obtain s s' where s: "ss p = Some s" "session_deliver m s = Inr s'" "ss' = ss(p \<mapsto> s')"
    using assms by (auto simp: deliver_to_def and_then_Inr_iff split: option.splits)
  from session_deliver_frame [OF s(2)] session_deliver_sent [OF s(2)] s(1,3) show ?thesis
    by (auto simp: kept_def)
qed

lemma deliver_to_all_kept: "deliver_to_all m ps ss = Inr ss' \<Longrightarrow> kept ss ss'"
  by (induction ps arbitrary: ss) (auto simp: and_then_Inr_iff kept_refl intro: kept_trans deliver_to_kept)

lemma deliver_all_to_kept: "deliver_all_to ms p ss = Inr ss' \<Longrightarrow> kept ss ss'"
  by (induction ms arbitrary: ss) (auto simp: and_then_Inr_iff kept_refl intro: kept_trans deliver_to_kept)


text \<open>The messages the room has, and those a session is about to deliver, describe themselves.\<close>

definition described :: "chat_server \<Rightarrow> chat_message list \<Rightarrow> bool" where
  "described S log \<longleftrightarrow> (\<forall>m \<in> set log. self_describing m) \<and>
     (\<forall>p s. sessions S p = Some s \<and> reading s = ReadBody \<longrightarrow> self_describing (read_msg s))"

definition grown :: "chat_server \<Rightarrow> chat_server \<Rightarrow> bool" where
  "grown S S' \<longleftrightarrow> (\<forall>p s. sessions S p = Some s \<longrightarrow>
     (\<exists>s'. sessions S' p = Some s' \<and> prefix (sent s) (sent s')))"

lemma grown_upd:
  "sessions S p = Some s \<Longrightarrow> prefix (sent s) (sent s') \<Longrightarrow> sessions S' = (sessions S)(p \<mapsto> s') \<Longrightarrow> grown S S'"
  by (auto simp: grown_def)

lemma described_upd:
  "described S log \<Longrightarrow> sessions S' = (sessions S)(p \<mapsto> s') \<Longrightarrow> (reading s' = ReadBody \<Longrightarrow> self_describing (read_msg s')) \<Longrightarrow>
   described S' log"
  by (auto simp: described_def)

lemma room_leave_sessions [simp]: "sessions (room_leave p S) = sessions S"
  by (simp add: room_leave_def)

lemma accept_session:
  assumes "on_accept (Some (p, raw)) S = Inr S'" "sessions S p = None"
  shows "grown S S'" "described S log \<Longrightarrow> described S' log"
proof -
  let ?S = "S\<lparr>accepting := accepting S - 1, sessions := (sessions S)(p \<mapsto> new_session raw)\<rparr>"
  obtain ss s where ss: "deliver_all_to (recent_msgs (room S)) p ((sessions S)(p \<mapsto> new_session raw)) = Inr ss"
      "ss p = Some s" "sessions S' = ss(p \<mapsto> session_do_read_header s)"
    using assms(1) by (auto simp: on_accept_def session_start_def room_join_def do_accept_def and_then_Inr_iff Let_def
        split: option.splits)
  have k: "kept ((sessions S)(p \<mapsto> new_session raw)) ss" using deliver_all_to_kept [OF ss(1)] .
  have old: "\<exists>t'. ss q = Some t' \<and> prefix (sent t) (sent t') \<and> read_msg t' = read_msg t \<and> reading t' = reading t"
    if "sessions S q = Some t" for q t
  proof -
    have "q \<noteq> p" using that assms(2) by auto
    with that have "((sessions S)(p \<mapsto> new_session raw)) q = Some t" by simp
    with k show ?thesis unfolding kept_def by blast
  qed
  show "grown S S'" unfolding grown_def
  proof (intro allI impI)
    fix q t assume q: "sessions S q = Some t"
    then have "q \<noteq> p" using assms(2) by auto
    with old [OF q] show "\<exists>t'. sessions S' q = Some t' \<and> prefix (sent t) (sent t')" by (auto simp: ss(3))
  qed
  assume d: "described S log"
  have "self_describing (read_msg t)" if t: "sessions S' q = Some t" "reading t = ReadBody" for q t
  proof (cases "q = p")
    case True
    then show ?thesis using t by (auto simp: ss(3) session_do_read_header_def)
  next
    case False
    then have "ss q = Some t" using t by (simp add: ss(3))
    moreover from this k False obtain u where u: "sessions S q = Some u" by (auto simp: kept_def)
    ultimately show ?thesis using old [OF u] t(2) d u by (auto simp: described_def)
  qed
  with d show "described S' log" unfolding described_def by blast
qed

lemma body_session:
  assumes "sessions S p = Some s" "put_body bs (read_msg s) = Inr m" "on_read_body p (Some bs) S = Inr S'"
    and "reading s = ReadBody"
  shows "grown S S'" "described S log \<Longrightarrow> described S' (log @ [m])"
proof -
  define ss1 where "ss1 = (sessions S)(p \<mapsto> s\<lparr>reading := NoRead, read_msg := m\<rparr>)"
  obtain ss s1 where ss: "kept ss1 ss" "ss p = Some s1" "sessions S' = ss(p \<mapsto> session_do_read_header s1)"
    using assms(1-3) by (auto simp: on_read_body_def room_deliver_def and_then_Inr_iff Let_def ss1_def
        split: option.splits dest!: deliver_to_all_kept)
  have old: "\<exists>t'. ss q = Some t' \<and> prefix (sent t) (sent t') \<and> read_msg t' = read_msg t \<and> reading t' = reading t"
    if "ss1 q = Some t" for q t
    using ss(1) that unfolding kept_def by blast
  have p1: "\<exists>t'. ss p = Some t' \<and> prefix (sent s) (sent t')"
    using old [of p "s\<lparr>reading := NoRead, read_msg := m\<rparr>"] by (auto simp: ss1_def)
  show "grown S S'" unfolding grown_def
  proof (intro allI impI)
    fix q t assume q: "sessions S q = Some t"
    show "\<exists>t'. sessions S' q = Some t' \<and> prefix (sent t) (sent t')"
    proof (cases "q = p")
      case True
      with p1 q assms(1) ss(2) show ?thesis by (auto simp: ss(3) session_do_read_header_def)
    next
      case False
      with old [of q t] q show ?thesis by (auto simp: ss(3) ss1_def)
    qed
  qed
  assume d: "described S log"
  have m: "self_describing m"
    using d assms(1,4) put_body_self_describing [OF _ assms(2)] by (auto simp: described_def)
  have "self_describing (read_msg t)" if t: "sessions S' q = Some t" "reading t = ReadBody" for q t
  proof (cases "q = p")
    case True
    then show ?thesis using t by (auto simp: ss(3) session_do_read_header_def)
  next
    case False
    then have "ss q = Some t" using t by (simp add: ss(3))
    moreover from this ss(1) False obtain u where u: "sessions S q = Some u" "ss1 q = Some u"
      by (auto simp: kept_def ss1_def)
    ultimately show ?thesis using old [OF u(2)] t(2) d u(1) by (auto simp: described_def)
  qed
  with d m show "described S' (log @ [m])" by (auto simp: described_def)
qed

lemma server_step_sessions:
  assumes "server_step S ds S'" "server_inv S log" "described S log"
  shows "grown S S' \<and> described S' (log @ ds)"
  using assms(1)
proof (cases rule: server_step.cases)
  case (accepted p raw)
  with accept_session [OF accepted(5,3)] assms(3) show ?thesis by simp
next
  case accept_error
  then have "sessions S' = sessions S" by (simp add: on_accept_def do_accept_def Let_def)
  with accept_error assms(3) show ?thesis by (auto simp: grown_def described_def)
next
  case (header_read p s bs)
  have ok: "msg_ok (put_header bs (read_msg s))"
    using put_header_ok session_inv_msg [OF server_inv_session [OF assms(2) header_read(2)]] header_read(4) by blast
  obtain b m where d: "decode_header (put_header bs (read_msg s)) = Inr (b, m)"
    using header_read(2,5) by (auto simp: on_read_header_def and_then_Inr_iff Let_def)
  obtain s' where s': "sessions S' = (sessions S)(p \<mapsto> s')" "sent s' = sent s" "read_msg s' = m"
      "reading s' = (if b then ReadBody else NoRead)"
    using header_read(2,5) d by (auto simp: on_read_header_def session_do_read_body_def Let_def split: if_splits)
  have "described S' log"
    by (rule described_upd [OF assms(3) s'(1)]) (use decoded_self_describing [OF ok] d s'(3,4) in \<open>auto split: if_splits\<close>)
  moreover have "grown S S'" by (rule grown_upd [OF header_read(2) _ s'(1)]) (simp add: s'(2))
  ultimately show ?thesis using header_read(1) by simp
next
  case (header_error p s)
  then have S': "sessions S' = (sessions S)(p \<mapsto> s\<lparr>reading := NoRead\<rparr>)" by (auto simp: on_read_header_def Let_def)
  with described_upd [OF assms(3) S'] grown_upd [OF header_error(2) _ S'] header_error(1) show ?thesis by simp
next
  case (body_read p s bs m)
  with body_session [OF body_read(2,5,6,3)] assms(3) show ?thesis by simp
next
  case (body_error p s)
  then have S': "sessions S' = (sessions S)(p \<mapsto> s\<lparr>reading := NoRead\<rparr>)" by (auto simp: on_read_body_def Let_def)
  with described_upd [OF assms(3) S'] grown_upd [OF body_error(2) _ S'] body_error(1) show ?thesis by simp
next
  case (written p s ok)
  have "\<exists>s'. sessions S' = (sessions S)(p \<mapsto> s') \<and> prefix (sent s) (sent s') \<and> read_msg s' = read_msg s \<and>
      reading s' = reading s"
  proof (cases ok)
    case True
    then obtain s' where "session_written s = Inr s'" "sessions S' = (sessions S)(p \<mapsto> s')"
      using written(2,4) by (auto simp: on_write_def and_then_Inr_iff)
    then show ?thesis using session_written_sent session_written_frame by blast
  next
    case False
    then show ?thesis using written(2,4) by (auto simp: on_write_def intro!: exI [of _ "s\<lparr>writing := writing s - 1\<rparr>"])
  qed
  then obtain s' where s': "prefix (sent s) (sent s')" "read_msg s' = read_msg s" "reading s' = reading s"
      "sessions S' = (sessions S)(p \<mapsto> s')" by blast
  have "described S' log"
    by (rule described_upd [OF assms(3) s'(4)]) (use assms(3) written(2) s'(2,3) in \<open>auto simp: described_def\<close>)
  with grown_upd [OF written(2) s'(1,4)] written(1) show ?thesis by simp
qed

lemma server_reach_described: "server_reach S log \<Longrightarrow> described S log"
proof (induction rule: server_reach.induct)
  case start
  show ?case by (simp add: described_def new_server_def do_accept_def)
next
  case (step S log ds S')
  with server_step_sessions [OF step.hyps(2) server_reach_inv [OF step.hyps(1)]] show ?case by simp
qed

section \<open>The system\<close>

text \<open>
  Client \<open>p\<close> is the one whose connection became the session at \<open>p\<close>. \<open>consumed\<close> counts the bytes its
  async_read operations took from the stream that session writes.
\<close>

record chat_net =
  net_server :: chat_server
  net_clients :: "sid \<Rightarrow> chat_client"
  consumed :: "sid \<Rightarrow> nat"

definition wires :: "chat_message list \<Rightarrow> string" where
  "wires ms = concat (map wire ms)"

definition shown :: "chat_message list \<Rightarrow> string" where
  "shown ms = concat (map (\<lambda>m. body m @ [CHR 0x0A]) ms)"

lemma wires_simps [simp]:
  "wires [] = []" "wires (m # ms) = wire m @ wires ms" "wires (ms @ ns) = wires ms @ wires ns"
  by (simp_all add: wires_def)

lemma shown_simps [simp]:
  "shown [] = []" "shown (m # ms) = body m @ [CHR 0x0A] @ shown ms" "shown (ms @ ns) = shown ms @ shown ns"
  by (simp_all add: shown_def)

definition sent_to :: "chat_net \<Rightarrow> sid \<Rightarrow> chat_message list" where
  "sent_to N p = (case sessions (net_server N) p of None \<Rightarrow> [] | Some s \<Rightarrow> sent s)"

definition unread :: "chat_net \<Rightarrow> sid \<Rightarrow> string" where
  "unread N p = drop (consumed N p) (wires (sent_to N p))"

definition new_net :: "(sid \<Rightarrow> string) \<Rightarrow> chat_net" where
  "new_net raws = \<lparr>net_server = new_server, net_clients = (\<lambda>p. new_client (raws p)), consumed = (\<lambda>_. 0)\<rparr>"

text \<open>What a client does besides reading: its main thread, posted functions, connecting, writes, read errors.\<close>

inductive client_quiet :: "chat_client \<Rightarrow> chat_client \<Rightarrow> bool" where
  q_write: "client_quiet c (client_write msg c)"
| q_close: "client_quiet c (client_close c)"
| q_posted: "client_run_posted c = Inr c' \<Longrightarrow> client_quiet c c'"
| q_connect: "c_connecting c \<Longrightarrow> client_quiet c (client_on_connect ok c)"
| q_header_error: "c_reading c = CHeader \<Longrightarrow> client_on_read_header None c = Inr c' \<Longrightarrow> client_quiet c c'"
| q_body_error: "c_reading c = CBody \<Longrightarrow> client_on_read_body None c = Inr c' \<Longrightarrow> client_quiet c c'"
| q_written: "0 < c_writing c \<Longrightarrow> (ok \<Longrightarrow> c_open c) \<Longrightarrow> client_on_write ok c = Inr c' \<Longrightarrow> client_quiet c c'"

text \<open>A completed read of client \<open>p\<close>, with the next bytes of its stream.\<close>

inductive client_reads :: "sid \<Rightarrow> chat_net \<Rightarrow> chat_net \<Rightarrow> bool" for p where
  r_header: "c_reading (net_clients N p) = CHeader \<Longrightarrow> c_open (net_clients N p) \<Longrightarrow>
     header_length \<le> length (unread N p) \<Longrightarrow>
     client_on_read_header (Some (take header_length (unread N p))) (net_clients N p) = Inr c' \<Longrightarrow>
     client_reads p N (N\<lparr>net_clients := (net_clients N)(p := c'),
                         consumed := (consumed N)(p := consumed N p + header_length)\<rparr>)"
| r_body: "c_reading (net_clients N p) = CBody \<Longrightarrow> c_open (net_clients N p) \<Longrightarrow>
     n = msg_body_length (c_read_msg (net_clients N p)) \<Longrightarrow> n \<le> length (unread N p) \<Longrightarrow>
     client_on_read_body (Some (take n (unread N p))) (net_clients N p) = Inr c' \<Longrightarrow>
     client_reads p N (N\<lparr>net_clients := (net_clients N)(p := c'), consumed := (consumed N)(p := consumed N p + n)\<rparr>)"

inductive net_step :: "chat_net \<Rightarrow> chat_message list \<Rightarrow> chat_net \<Rightarrow> bool" where
  server_acts: "server_step (net_server N) ds S' \<Longrightarrow> net_step N ds (N\<lparr>net_server := S'\<rparr>)"
| client_acts: "client_quiet (net_clients N p) c' \<Longrightarrow> net_step N [] (N\<lparr>net_clients := (net_clients N)(p := c')\<rparr>)"
| client_read: "client_reads p N N' \<Longrightarrow> net_step N [] N'"

inductive net_reach :: "(sid \<Rightarrow> string) \<Rightarrow> chat_net \<Rightarrow> chat_message list \<Rightarrow> bool" for raws where
  start: "net_reach raws (new_net raws) []"
| step: "net_reach raws N log \<Longrightarrow> net_step N ds N' \<Longrightarrow> net_reach raws N' (log @ ds)"

section \<open>Where a client stands in its stream\<close>

text \<open>
  After \<open>k\<close> messages of \<open>ms\<close> and \<open>n\<close> bytes: the display shows those messages; a client that waits for a
  header stands at a message boundary, one that waits for a body right behind a header, whose length
  it has decoded.
\<close>

definition client_at :: "chat_message list \<Rightarrow> nat \<Rightarrow> nat \<Rightarrow> chat_client \<Rightarrow> bool" where
  "client_at ms n k c \<longleftrightarrow> k \<le> length ms \<and> msg_ok (c_read_msg c) \<and> c_out c = shown (take k ms) \<and>
     (c_reading c = CHeader \<longrightarrow> n = length (wires (take k ms))) \<and>
     (c_reading c = CBody \<longrightarrow> k < length ms \<and> n = length (wires (take k ms)) + header_length \<and>
        msg_body_length (c_read_msg c) = msg_body_length (ms ! k)) \<and>
     (c_connecting c \<longrightarrow> c_reading c = CNone \<and> n = 0 \<and> k = 0)"

lemma client_at_prefix: "client_at ms n k c \<Longrightarrow> prefix ms ms' \<Longrightarrow> client_at ms' n k c"
  by (auto simp: client_at_def prefix_def nth_append)

text \<open>The quiet actions leave the reading side alone, or end it.\<close>

lemma client_quiet_frame:
  assumes "client_quiet c c'"
  shows "c_read_msg c' = c_read_msg c \<and> c_out c' = c_out c \<and>
    ((c_reading c' = c_reading c \<and> (c_connecting c' \<longrightarrow> c_connecting c)) \<or>
     (c_reading c' = CNone \<and> (c_connecting c' \<longrightarrow> c_connecting c)) \<or>
     (c_connecting c \<and> \<not> c_connecting c' \<and> c_reading c' = CHeader))"
  using assms
  by (cases rule: client_quiet.cases)
    (auto simp: client_write_def client_close_def client_run_posted_def client_enqueue_def client_do_write_def
       client_on_connect_def client_do_read_header_def client_on_read_header_def client_on_read_body_def
       client_on_write_def client_written_def client_shut_def Let_def
       split: if_splits list.splits posted.splits)

lemma client_quiet_at:
  assumes "client_quiet c c'" "client_at ms n k c"
  shows "client_at ms n k c'"
  using client_quiet_frame [OF assms(1)] assms(2) by (auto simp: client_at_def)

text \<open>Between two messages the unread bytes begin with the next message.\<close>

lemma unread_header:
  assumes "\<forall>m \<in> set ms. self_describing m" "k \<le> length ms" "u = drop (length (wires (take k ms))) (wires ms)"
  shows "u = wires (drop k ms)" "k < length ms \<Longrightarrow> take header_length u = take header_length (wire (ms ! k))"
    "header_length \<le> length u \<longleftrightarrow> k < length ms"
proof -
  have "wires ms = wires (take k ms) @ wires (drop k ms)" by (metis append_take_drop_id wires_simps(3))
  then show u: "u = wires (drop k ms)" using assms(3) by simp
  have c: "u = wire (ms ! k) @ wires (drop (Suc k) ms)" "header_length \<le> length (wire (ms ! k))" if "k < length ms"
  proof -
    show "u = wire (ms ! k) @ wires (drop (Suc k) ms)" using that by (simp add: u flip: Cons_nth_drop_Suc)
    have "self_describing (ms ! k)" using that assms(1) nth_mem by blast
    then show "header_length \<le> length (wire (ms ! k))" using self_describing_wire(3) by simp
  qed
  show "take header_length u = take header_length (wire (ms ! k))" if "k < length ms" using c [OF that] by simp
  show "header_length \<le> length u \<longleftrightarrow> k < length ms"
  proof (cases "k < length ms")
    case False
    then have "u = []" using u assms(2) by simp
    then show ?thesis using False by (simp add: header_length_def)
  qed (use c in simp)
qed

lemma unread_body:
  assumes "\<forall>m \<in> set ms. self_describing m" "k < length ms"
    "u = drop (length (wires (take k ms)) + header_length) (wires ms)"
  shows "take (msg_body_length (ms ! k)) u = body (ms ! k)" "msg_body_length (ms ! k) \<le> length u"
    "length (body (ms ! k)) = msg_body_length (ms ! k)"
    "length (wires (take (Suc k) ms)) = length (wires (take k ms)) + header_length + msg_body_length (ms ! k)"
proof -
  let ?m = "ms ! k"
  have m: "self_describing ?m" using assms(1,2) nth_mem by blast
  note w = self_describing_wire [OF m]
  have "wires ms = wires (take k ms) @ wires (drop k ms)" by (metis append_take_drop_id wires_simps(3))
  also have "wires (drop k ms) = wire ?m @ wires (drop (Suc k) ms)"
    using assms(2) by (simp flip: Cons_nth_drop_Suc)
  finally have "drop (length (wires (take k ms))) (wires ms) = wire ?m @ wires (drop (Suc k) ms)" by simp
  then have "drop header_length (drop (length (wires (take k ms))) (wires ms)) = body ?m @ wires (drop (Suc k) ms)"
    using w(3,4) by simp
  then have u: "u = body ?m @ wires (drop (Suc k) ms)" using assms(3) by (simp add: add.commute)
  show l: "length (body ?m) = msg_body_length ?m" using w(3,4) by (metis diff_add_inverse length_drop)
  then show "take (msg_body_length ?m) u = body ?m" "msg_body_length ?m \<le> length u" using u by simp_all
  show "length (wires (take (Suc k) ms)) = length (wires (take k ms)) + header_length + msg_body_length ?m"
    using assms(2) w(3) by (simp add: take_Suc_conv_app_nth)
qed

text \<open>Reading the header and the body of the next message.\<close>

lemma header_at:
  assumes "\<forall>m \<in> set ms. self_describing m" "client_at ms n k c" "c_reading c = CHeader"
    and "header_length \<le> length (drop n (wires ms))"
  shows "\<exists>c'. client_on_read_header (Some (take header_length (drop n (wires ms)))) c = Inr c' \<and>
    client_at ms (n + header_length) k c' \<and> c_reading c' = CBody \<and> c_open c' = c_open c"
proof -
  have n: "n = length (wires (take k ms))" "k \<le> length ms" "msg_ok (c_read_msg c)"
    using assms(2,3) by (simp_all add: client_at_def)
  have k: "k < length ms" using unread_header(3) [OF assms(1) n(2), of "drop n (wires ms)"] n(1) assms(4) by simp
  have m: "self_describing (ms ! k)" using assms(1) k nth_mem by blast
  have h: "take header_length (drop n (wires ms)) = take header_length (wire (ms ! k))"
    using unread_header(2) [OF assms(1) n(2) _ k] n(1) by simp
  let ?m = "(put_header (take header_length (wire (ms ! k))) (c_read_msg c))\<lparr>msg_body_length := msg_body_length (ms ! k)\<rparr>"
  have d: "decode_header (put_header (take header_length (wire (ms ! k))) (c_read_msg c)) = Inr (True, ?m)"
    using decode_accepted [OF self_describing_wire(1) [OF m] n(3)] self_describing_wire(2) [OF m] by simp
  have "msg_ok (put_header (take header_length (wire (ms ! k))) (c_read_msg c))"
    by (rule put_header_ok [OF n(3)]) (use self_describing_wire(1) [OF m] in \<open>simp add: accepted_header_def\<close>)
  then have "msg_ok ?m" using m by (simp add: msg_ok_def self_describing_def)
  then show ?thesis using d assms(2,3) k n(1) unfolding h
    by (auto simp: client_on_read_header_def client_do_read_body_def client_at_def)
qed

lemma body_at:
  assumes "\<forall>m \<in> set ms. self_describing m" "client_at ms n k c" "c_reading c = CBody" "l = msg_body_length (c_read_msg c)"
  shows "l \<le> length (drop n (wires ms))"
    "\<exists>c'. client_on_read_body (Some (take l (drop n (wires ms)))) c = Inr c' \<and>
       client_at ms (n + l) (Suc k) c' \<and> c_reading c' = CHeader \<and> c_open c' = c_open c"
proof -
  have n: "n = length (wires (take k ms)) + header_length" "k < length ms" "msg_ok (c_read_msg c)"
      "l = msg_body_length (ms ! k)"
    using assms(2-4) by (simp_all add: client_at_def)
  note u = unread_body [OF assms(1) n(2), of "drop n (wires ms)"]
  show "l \<le> length (drop n (wires ms))" using u(2) n(1,4) by simp
  have b: "take l (drop n (wires ms)) = body (ms ! k)" using u(1) n(1,4) by simp
  have le: "length (body (ms ! k)) = l" using u(3) n(1,4) by simp
  have lb: "l \<le> max_body_length" using n(3) assms(4) by (simp add: msg_ok_def)
  have p: "put_body (body (ms ! k)) (c_read_msg c) = Inr ((c_read_msg c)\<lparr>msg_data := take header_length
      (msg_data (c_read_msg c)) @ body (ms ! k) @ drop (header_length + l) (msg_data (c_read_msg c))\<rparr>)"
    using n(3) le lb by (simp add: put_body_def msg_ok_def)
  have "msg_length (c_read_msg c) = header_length + l" using assms(4) by (simp add: msg_length_def)
  then have ok: "msg_ok ((c_read_msg c)\<lparr>msg_data := take header_length
      (msg_data (c_read_msg c)) @ body (ms ! k) @ drop (header_length + l) (msg_data (c_read_msg c))\<rparr>)"
    using n(3) le lb by (simp add: msg_ok_def)
  have bb: "body ((c_read_msg c)\<lparr>msg_data := take header_length
      (msg_data (c_read_msg c)) @ body (ms ! k) @ drop (header_length + l) (msg_data (c_read_msg c))\<rparr>) = body (ms ! k)"
    using n(3) le assms(4) by (simp add: body_def [of "c_read_msg c\<lparr>msg_data := _\<rparr>"] msg_ok_def)
  have "shown (take (Suc k) ms) = shown (take k ms) @ body (ms ! k) @ [CHR 0x0A]"
    using n(2) by (simp add: take_Suc_conv_app_nth)
  then show "\<exists>c'. client_on_read_body (Some (take l (drop n (wires ms)))) c = Inr c' \<and>
       client_at ms (n + l) (Suc k) c' \<and> c_reading c' = CHeader \<and> c_open c' = c_open c"
    unfolding b using p ok bb assms(2,3) n(1,2,4) u(4)
    by (auto simp: client_on_read_body_def client_do_read_header_def client_at_def)
qed

section \<open>The invariant of the system\<close>

definition net_inv :: "chat_net \<Rightarrow> chat_message list \<Rightarrow> bool" where
  "net_inv N log \<longleftrightarrow> server_reach (net_server N) log \<and>
     (\<forall>p. \<exists>k. client_at (sent_to N p) (consumed N p) k (net_clients N p))"

text \<open>What a session wrote is a segment of what the room delivered.\<close>

lemma sent_segment:
  assumes "server_reach (net_server N) log"
  shows "\<exists>i j. i \<le> j \<and> j \<le> length log \<and> sent_to N p = drop i (take j log)"
proof (cases "sessions (net_server N) p")
  case None
  then show ?thesis by (auto simp: sent_to_def intro!: exI [of _ 0])
next
  case (Some s)
  obtain i j where ij: "i \<le> j" "j \<le> length log" "so.accepted s = drop i (take j log)"
    using server_inv_session [OF server_reach_inv [OF assms] Some] by (auto simp: session_inv_def)
  then have l: "length (sent s) + length (tl (write_msgs s)) = j - i" by (auto simp: so.accepted_def dest: arg_cong [of _ _ length])
  have "sent s = take (length (sent s)) (drop i (take j log))"
    using ij(3) by (metis append_eq_conv_conj so.accepted_def)
  also have "\<dots> = drop i (take (i + length (sent s)) log)"
    using l ij(1) by (simp add: take_drop min_def add.commute)
  finally have "sent_to N p = drop i (take (i + length (sent s)) log)" using Some by (simp add: sent_to_def)
  then show ?thesis using ij l by (intro exI [of _ i] exI [of _ "i + length (sent s)"]) auto
qed

lemma sent_described:
  assumes "server_reach (net_server N) log"
  shows "\<forall>m \<in> set (sent_to N p). self_describing m"
proof -
  have "set (sent_to N p) \<subseteq> set log"
    using sent_segment [OF assms, of p] by (auto dest!: in_set_dropD in_set_takeD)
  then show ?thesis using server_reach_described [OF assms] by (auto simp: described_def)
qed

text \<open>Reads of one client leave the server and what it sent alone.\<close>

lemma reads_frame:
  assumes "client_reads p N N'"
  shows "net_server N' = net_server N" "sent_to N' q = sent_to N q"
    "q \<noteq> p \<Longrightarrow> net_clients N' q = net_clients N q \<and> consumed N' q = consumed N q"
  using assms by (auto simp: sent_to_def elim!: client_reads.cases)

lemma reads_at:
  assumes "server_reach (net_server N) log" "client_reads p N N'"
    "client_at (sent_to N p) (consumed N p) k (net_clients N p)"
  shows "\<exists>k'. client_at (sent_to N' p) (consumed N' p) k' (net_clients N' p)"
  using assms(2)
proof (cases rule: client_reads.cases)
  case (r_header c')
  with header_at [OF sent_described [OF assms(1)] assms(3) r_header(2)] show ?thesis
    by (auto simp: unread_def sent_to_def)
next
  case (r_body n c')
  with body_at(2) [OF sent_described [OF assms(1)] assms(3) r_body(2,4)] show ?thesis
    by (auto simp: unread_def sent_to_def)
qed

lemma net_step_inv [pres]:
  assumes "net_step N ds N'" "net_inv N log"
  shows "net_inv N' (log @ ds)"
  using assms(1)
proof (cases rule: net_step.cases)
  case (server_acts S')
  have r: "server_reach (net_server N) log" using assms(2) by (simp add: net_inv_def)
  have g: "grown (net_server N) S'"
    using server_step_sessions [OF server_acts(2) server_reach_inv [OF r] server_reach_described [OF r]] ..
  have "prefix (sent_to N p) (sent_to N' p)" for p
  proof (cases "sessions (net_server N) p")
    case (Some s)
    then obtain s' where "sessions S' p = Some s'" "prefix (sent s) (sent s')" using g unfolding grown_def by blast
    then show ?thesis using Some server_acts(1) by (simp add: sent_to_def)
  qed (simp add: sent_to_def)
  then show ?thesis
    using assms(2) server_reach.step [OF r server_acts(2)] server_acts(1) client_at_prefix
    unfolding net_inv_def by (metis chat_net.select_convs chat_net.surjective chat_net.update_convs(1))
next
  case (client_acts p c')
  then have s: "net_server N' = net_server N" "sent_to N' q = sent_to N q" "consumed N' q = consumed N q" for q
    by (simp_all add: sent_to_def)
  have "\<exists>k. client_at (sent_to N' q) (consumed N' q) k (net_clients N' q)" for q
  proof (cases "q = p")
    case True
    obtain k where "client_at (sent_to N p) (consumed N p) k (net_clients N p)" using assms(2) by (auto simp: net_inv_def)
    with client_quiet_at [OF client_acts(3) this] True client_acts(2) show ?thesis unfolding s by auto
  next
    case False
    with assms(2) client_acts(2) show ?thesis unfolding s net_inv_def by simp
  qed
  then show ?thesis using assms(2) client_acts(1) s(1) by (simp add: net_inv_def)
next
  case client_read
  then obtain p where p: "client_reads p N N'" by blast
  have r: "server_reach (net_server N) log" using assms(2) by (simp add: net_inv_def)
  have "\<exists>k. client_at (sent_to N' q) (consumed N' q) k (net_clients N' q)" for q
  proof (cases "q = p")
    case True
    with assms(2) reads_at [OF r p] show ?thesis unfolding net_inv_def by blast
  next
    case False
    with assms(2) reads_frame [OF p] show ?thesis by (simp add: net_inv_def)
  qed
  then show ?thesis using r reads_frame(1) [OF p] client_read by (simp add: net_inv_def)
qed

lemma net_reach_inv:
  assumes "net_reach raws N log" "\<forall>p. length (raws p) = 516"
  shows "net_inv N log"
  using assms(1)
proof (induction rule: net_reach.induct)
  case start
  have "client_at [] 0 0 (new_client (raws p))" for p
    using assms(2) by (simp add: client_at_def new_client_def msg_ok_def new_chat_message_def msg_consts)
  moreover have "sent_to (new_net raws) p = []" for p
    by (simp add: sent_to_def new_net_def new_server_def do_accept_def)
  ultimately show ?case
    using server_reach.start by (auto simp: net_inv_def new_net_def)
qed (blast intro: net_step_inv)

text \<open>A client whose socket is open has its body read, and after it reads on to the end of its stream.\<close>

lemma body_reads:
  assumes "server_reach (net_server N) log" "client_at (sent_to N p) (consumed N p) k (net_clients N p)"
    "c_reading (net_clients N p) = CBody" "c_open (net_clients N p)"
  shows "\<exists>N'. client_reads p N N' \<and> client_at (sent_to N p) (consumed N' p) (Suc k) (net_clients N' p) \<and>
    c_reading (net_clients N' p) = CHeader \<and> c_open (net_clients N' p)"
proof -
  let ?c = "net_clients N p"
  note sd = sent_described [OF assms(1), of p]
  define l where "l = msg_body_length (c_read_msg ?c)"
  have le: "l \<le> length (unread N p)"
    using body_at(1) [OF sd assms(2,3) l_def] by (simp add: unread_def)
  obtain c where c: "client_on_read_body (Some (take l (unread N p))) ?c = Inr c"
      "client_at (sent_to N p) (consumed N p + l) (Suc k) c" "c_reading c = CHeader" "c_open c"
    using body_at(2) [OF sd assms(2,3) l_def] assms(4) unfolding unread_def by metis
  show ?thesis
    by (intro exI conjI, rule client_reads.r_body [OF assms(3,4) l_def le c(1)]) (use c in simp_all)
qed

lemma header_reads:
  assumes "server_reach (net_server N) log" "client_at (sent_to N p) (consumed N p) k (net_clients N p)"
    "c_reading (net_clients N p) = CHeader" "c_open (net_clients N p)" "k < length (sent_to N p)"
  shows "\<exists>N'. client_reads p N N' \<and> client_at (sent_to N p) (consumed N' p) k (net_clients N' p) \<and>
    c_reading (net_clients N' p) = CBody \<and> c_open (net_clients N' p)"
proof -
  let ?ms = "sent_to N p" and ?c = "net_clients N p"
  note sd = sent_described [OF assms(1), of p]
  have "consumed N p = length (wires (take k ?ms))" using assms(2,3) by (simp add: client_at_def)
  then have le: "header_length \<le> length (unread N p)"
    using unread_header(3) [OF sd, of k "unread N p"] assms(5) by (simp add: unread_def)
  obtain c where c: "client_on_read_header (Some (take header_length (unread N p))) ?c = Inr c"
      "client_at ?ms (consumed N p + header_length) k c" "c_reading c = CBody" "c_open c"
    using header_at [OF sd assms(2,3)] le assms(4) unfolding unread_def by metis
  show ?thesis
    by (intro exI conjI, rule client_reads.r_header [OF assms(3,4) le c(1)]) (use c in simp_all)
qed

lemma reads_to_end:
  assumes "server_reach (net_server N) log" "client_at (sent_to N p) (consumed N p) k (net_clients N p)"
    "c_reading (net_clients N p) = CHeader" "c_open (net_clients N p)"
  shows "\<exists>N'. (client_reads p)\<^sup>*\<^sup>* N N' \<and> sent_to N' p = sent_to N p \<and> unread N' p = [] \<and>
    c_out (net_clients N' p) = shown (sent_to N p) \<and> c_reading (net_clients N' p) = CHeader"
  using assms
proof (induction "length (sent_to N p) - k" arbitrary: N k)
  case 0
  then have "k = length (sent_to N p)" by (auto simp: client_at_def)
  with 0 have "unread N p = []" "c_out (net_clients N p) = shown (sent_to N p)"
    by (auto simp: client_at_def unread_def)
  with 0 show ?case by blast
next
  case (Suc d)
  have "k < length (sent_to N p)" using Suc.hyps(2) by simp
  then obtain N1 where r1: "client_reads p N N1"
    and n1: "client_at (sent_to N p) (consumed N1 p) k (net_clients N1 p)" "c_reading (net_clients N1 p) = CBody"
      "c_open (net_clients N1 p)"
    using header_reads [OF Suc.prems] by blast
  have s1: "sent_to N1 p = sent_to N p" "net_server N1 = net_server N" using reads_frame [OF r1] by simp_all
  then have "server_reach (net_server N1) log" using Suc.prems(1) by simp
  then obtain N2 where r2: "client_reads p N1 N2"
    and n2: "client_at (sent_to N p) (consumed N2 p) (Suc k) (net_clients N2 p)" "c_reading (net_clients N2 p) = CHeader"
      "c_open (net_clients N2 p)"
    using body_reads [of N1 log p k] n1 s1(1) by auto
  have s2: "sent_to N2 p = sent_to N p" "net_server N2 = net_server N" using reads_frame [OF r2] s1 by simp_all
  have "\<exists>N'. (client_reads p)\<^sup>*\<^sup>* N2 N' \<and> sent_to N' p = sent_to N2 p \<and> unread N' p = [] \<and>
    c_out (net_clients N' p) = shown (sent_to N2 p) \<and> c_reading (net_clients N' p) = CHeader"
    by (rule Suc.hyps(1) [of N2 "Suc k"]) (use Suc.hyps(2) Suc.prems(1) s2 n2 in simp_all)
  then show ?case using r1 r2 s2 by (metis converse_rtranclp_into_rtranclp)
qed

lemma reads_catch_up:
  assumes "net_inv N log" "c_reading (net_clients N p) \<noteq> CNone" "c_open (net_clients N p)"
  shows "\<exists>N'. (client_reads p)\<^sup>*\<^sup>* N N' \<and> sent_to N' p = sent_to N p \<and> unread N' p = [] \<and>
    c_out (net_clients N' p) = shown (sent_to N p) \<and> c_reading (net_clients N' p) = CHeader"
proof -
  have r: "server_reach (net_server N) log" using assms(1) by (simp add: net_inv_def)
  obtain k where k: "client_at (sent_to N p) (consumed N p) k (net_clients N p)"
    using assms(1) by (auto simp: net_inv_def)
  show ?thesis
  proof (cases "c_reading (net_clients N p)")
    case CHeader
    with reads_to_end [OF r k] assms(3) show ?thesis by blast
  next
    case CBody
    obtain N1 where n1: "client_reads p N N1" "client_at (sent_to N p) (consumed N1 p) (Suc k) (net_clients N1 p)"
      "c_reading (net_clients N1 p) = CHeader" "c_open (net_clients N1 p)"
      using body_reads [OF r k CBody assms(3)] by blast
    have s1: "sent_to N1 p = sent_to N p" "net_server N1 = net_server N" using reads_frame [OF n1(1)] by simp_all
    have "\<exists>N'. (client_reads p)\<^sup>*\<^sup>* N1 N' \<and> sent_to N' p = sent_to N1 p \<and> unread N' p = [] \<and>
        c_out (net_clients N' p) = shown (sent_to N1 p) \<and> c_reading (net_clients N' p) = CHeader"
      by (rule reads_to_end [of N1 log p "Suc k"]) (use r n1 s1 in simp_all)
    then show ?thesis using n1(1) s1(1) by (metis converse_rtranclp_into_rtranclp)
  qed (use assms(2) in simp)
qed

section \<open>A run for the witnesses\<close>

lemma server_runs: "server_reach S log \<Longrightarrow> net_reach raws ((new_net raws)\<lparr>net_server := S\<rparr>) log"
proof (induction rule: server_reach.induct)
  case start
  have "(new_net raws)\<lparr>net_server := new_server\<rparr> = new_net raws" by (simp add: new_net_def)
  then show ?case using net_reach.start by metis
next
  case (step S log ds S')
  from net_step.server_acts [of "(new_net raws)\<lparr>net_server := S\<rparr>" ds S'] step.hyps(2)
  have "net_step ((new_net raws)\<lparr>net_server := S\<rparr>) ds ((new_net raws)\<lparr>net_server := S'\<rparr>)" by simp
  with step.IH show ?case by (rule net_reach.step)
qed

lemma reads_reach:
  assumes "(client_reads p)\<^sup>*\<^sup>* N N'" "net_reach raws N log"
  shows "net_reach raws N' log"
  using assms
proof (induction rule: rtranclp_induct)
  case (step N1 N2)
  with net_reach.step [OF _ net_step.client_read [OF step.hyps(2)]] show ?case by fastforce
qed simp

text \<open>The message abc has been delivered; the client at session 5 has connected.\<close>

definition demo_net :: chat_net where
  "demo_net = \<lparr>net_server = demo_server ReadHeader abc_msg [abc_msg] [abc_msg] [abc_msg],
     net_clients = (\<lambda>p. new_client raw0)(5 := client_on_connect True (new_client raw0)), consumed = (\<lambda>_. 0)\<rparr>"

lemma demo_net_reach: "net_reach (\<lambda>_. raw0) demo_net [abc_msg]"
proof -
  let ?N = "(new_net (\<lambda>_. raw0))\<lparr>net_server := demo_server ReadHeader abc_msg [abc_msg] [abc_msg] [abc_msg]\<rparr>"
  have "client_quiet (net_clients ?N 5) (client_on_connect True (new_client raw0))"
    using client_quiet.q_connect [of "new_client raw0" True] by (simp add: new_net_def new_client_def)
  from net_reach.step [OF server_runs [OF demo_reach] net_step.client_acts [OF this]] show ?thesis
    by (simp add: demo_net_def new_net_def)
qed

lemma demo_net_client:
  "c_reading (net_clients demo_net 5) = CHeader" "c_open (net_clients demo_net 5)" "sent_to demo_net 5 = [abc_msg]"
  by (simp_all add: demo_net_def client_on_connect_def client_do_read_header_def new_client_def sent_to_def demo_server_def)

lemma abc_body: "body abc_msg = ''abc''"
  by (simp add: body_def abc_msg_def header_length_def)

lemma demo_net_shows:
  "\<exists>N. net_reach (\<lambda>_. raw0) N [abc_msg] \<and> c_out (net_clients N 5) = ''abc'' @ [CHR 0x0A]"
proof -
  have "net_inv demo_net [abc_msg]" by (rule net_reach_inv [OF demo_net_reach]) simp
  from reads_catch_up [OF this, of 5] demo_net_client obtain N where
    "(client_reads 5)\<^sup>*\<^sup>* demo_net N" "c_out (net_clients N 5) = shown [abc_msg]" by auto
  then show ?thesis using reads_reach [OF _ demo_net_reach] abc_body by auto
qed

section \<open>Properties\<close>

text \<open>
  C1. End to end total order: whatever the interleaving of the server's handlers and of the actions of all
  clients, whatever arrives at the server and however TCP cuts the streams, the display of every client
  is the bodies, one per line, of a contiguous segment of the one sequence of messages the room has
  delivered, in that order, none lost, repeated, torn or reordered.\<close>

theorem net_total_order:
  assumes "net_reach raws N log" "\<forall>p. length (raws p) = 516"
  shows "\<exists>i j. i \<le> j \<and> j \<le> length log \<and>
    c_out (net_clients N p) = concat (map (\<lambda>m. body m @ [CHR 0x0A]) (drop i (take j log)))"
proof -
  have inv: "net_inv N log" by (rule net_reach_inv [OF assms])
  then obtain k where k: "client_at (sent_to N p) (consumed N p) k (net_clients N p)" by (auto simp: net_inv_def)
  obtain i j where ij: "i \<le> j" "j \<le> length log" "sent_to N p = drop i (take j log)"
    using sent_segment inv unfolding net_inv_def by blast
  have "k \<le> j - i" "c_out (net_clients N p) = shown (take k (drop i (take j log)))"
    using k ij by (auto simp: client_at_def)
  moreover have "take k (drop i (take j log)) = drop i (take (i + k) log)" if "k \<le> j - i"
    using that ij by (simp add: take_drop min_def add.commute)
  ultimately show ?thesis using ij by (intro exI [of _ i] exI [of _ "i + k"]) (auto simp: shown_def)
qed

lemma net_total_order_witness:
  "\<exists>N i j. net_reach (\<lambda>_. raw0) N [abc_msg] \<and> c_out (net_clients N 5) = ''abc'' @ [CHR 0x0A] \<and>
     c_out (net_clients N 5) = concat (map (\<lambda>m. body m @ [CHR 0x0A]) (drop i (take j [abc_msg])))"
proof -
  obtain N where N: "net_reach (\<lambda>_. raw0) N [abc_msg]" "c_out (net_clients N 5) = ''abc'' @ [CHR 0x0A]"
    using demo_net_shows by blast
  have "\<forall>p :: sid. length raw0 = 516" by simp
  from net_total_order [OF N(1) this, of 5] N show ?thesis by blast
qed

text \<open>
  C2. Catching up: from every reachable state in which a client still reads and its socket is open, the
  reads of that client alone, none of which faults or stops it, bring it to the end of what its session
  wrote; then it shows every message the session wrote and waits for the next header.\<close>

theorem net_catches_up:
  assumes "net_reach raws N log" "\<forall>p. length (raws p) = 516"
    and "c_reading (net_clients N p) \<noteq> CNone" "c_open (net_clients N p)"
  shows "\<exists>N'. (client_reads p)\<^sup>*\<^sup>* N N' \<and> net_server N' = net_server N \<and> unread N' p = [] \<and>
    c_out (net_clients N' p) = concat (map (\<lambda>m. body m @ [CHR 0x0A]) (sent_to N p)) \<and>
    c_reading (net_clients N' p) = CHeader"
proof -
  have inv: "net_inv N log" by (rule net_reach_inv [OF assms(1,2)])
  have "net_server N' = net_server N" if "(client_reads p)\<^sup>*\<^sup>* N N'" for N'
    using that by (induction rule: rtranclp_induct) (auto dest: reads_frame(1))
  with reads_catch_up [OF inv assms(3,4)] show ?thesis unfolding shown_def by blast
qed

lemma net_catches_up_witness:
  "\<exists>N'. (client_reads 5)\<^sup>*\<^sup>* demo_net N' \<and> unread N' 5 = [] \<and> c_out (net_clients N' 5) = ''abc'' @ [CHR 0x0A]"
proof -
  have "\<forall>p :: sid. length raw0 = 516" by simp
  from net_catches_up [OF demo_net_reach this, of 5] demo_net_client abc_body show ?thesis by fastforce
qed

end
