(* ===== verification/Chat_Mains.thy ===== *)
theory Chat_Mains
  imports Chat_Network
begin

text \<open>
  The two chat programs as wholes: main of MyTCPChatSrv01.cpp, which runs one room per port on a single
  io_context, and main of MyTCPChatCli01.cpp, whose input loop posts to the thread that runs the
  client. Which ports can be bound, and whether a name resolves, are arguments.
\<close>

section \<open>The server program\<close>

text \<open>A port is an unsigned short.\<close>

definition port_of :: "string \<Rightarrow> nat" where
  "port_of arg = nat (atoi arg mod 2 ^ 16)"

text \<open>
  \<open>bind used port\<close> is what constructing the acceptor throws, if it does, when the program already
  listens on \<open>used\<close>. Nothing is assumed of it: the acceptor sets the option to reuse addresses, so
  that whether a port in use can be bound again depends on the system.
\<close>

fun start_servers ::
  "(nat list \<Rightarrow> nat \<Rightarrow> string option) \<Rightarrow> (nat \<times> chat_server) list \<Rightarrow> string list \<Rightarrow> string + (nat \<times> chat_server) list"
where
  "start_servers bind servers [] = Inr servers"
| "start_servers bind servers (arg # args) =
     (case bind (map fst servers) (port_of arg) of
        Some what \<Rightarrow> Inl what
      | None \<Rightarrow> start_servers bind (servers @ [(port_of arg, new_server)]) args)"

text \<open>The exit code with what went to std::cerr, or the servers that io_context.run serves.\<close>

definition chat_server_main ::
  "(nat list \<Rightarrow> nat \<Rightarrow> string option) \<Rightarrow> string list \<Rightarrow> (int \<times> string) + (nat \<times> chat_server) list"
where
  "chat_server_main bind args =
     (if length args < 1 then Inl (1, ''Usage: chat_server <port> [<port> ...]'' @ [CHR 0x0A])
      else case start_servers bind [] args of
             Inl what \<Rightarrow> Inl (0, ''Exception: '' @ what @ [CHR 0x0A])
           | Inr servers \<Rightarrow> Inr servers)"

text \<open>The io_context runs a handler of any of the servers.\<close>

inductive rooms_step :: "(nat \<times> chat_server) list \<Rightarrow> nat \<Rightarrow> chat_message list \<Rightarrow> (nat \<times> chat_server) list \<Rightarrow> bool" where
  one_room: "i < length SS \<Longrightarrow> server_step (snd (SS ! i)) ds S' \<Longrightarrow> rooms_step SS i ds (SS[i := (fst (SS ! i), S')])"

inductive rooms_reach ::
  "(nat list \<Rightarrow> nat \<Rightarrow> string option) \<Rightarrow> string list \<Rightarrow> (nat \<times> chat_server) list \<Rightarrow> chat_message list list \<Rightarrow> bool"
  for bind args where
  start: "chat_server_main bind args = Inr SS \<Longrightarrow> rooms_reach bind args SS (replicate (length SS) [])"
| step: "rooms_reach bind args SS logs \<Longrightarrow> rooms_step SS i ds SS' \<Longrightarrow>
    rooms_reach bind args SS' (logs[i := logs ! i @ ds])"

lemma start_servers_result:
  assumes "start_servers bind servers args = Inr SS"
  shows "SS = servers @ map (\<lambda>arg. (port_of arg, new_server)) args"
  using assms by (induction bind servers args rule: start_servers.induct) (auto split: option.splits)

text \<open>There is one server per argument, in their order, and every room runs as if it were alone.\<close>

lemma rooms_reach_alone:
  assumes "rooms_reach bind args SS logs"
  shows "length logs = length SS \<and> map fst SS = map port_of args \<and>
    (\<forall>i < length SS. server_reach (snd (SS ! i)) (logs ! i))"
  using assms
proof (induction rule: rooms_reach.induct)
  case (start SS)
  then have "SS = map (\<lambda>arg. (port_of arg, new_server)) args"
    by (auto simp: chat_server_main_def split: if_splits sum.splits dest: start_servers_result)
  then show ?case using server_reach.start by (simp add: o_def)
next
  case (step SS logs i ds SS')
  from step.hyps(2) obtain S' where s: "i < length SS" "server_step (snd (SS ! i)) ds S'"
      "SS' = SS[i := (fst (SS ! i), S')]" by (auto elim: rooms_step.cases)
  have f: "map fst SS' = map fst SS" using s(1) by (simp add: s(3) map_update list_update_same_conv)
  have "server_reach (snd (SS' ! j)) (logs[i := logs ! i @ ds] ! j)" if "j < length SS'" for j
  proof (cases "j = i")
    case True
    with step.IH s server_reach.step [of "snd (SS ! i)" "logs ! i" ds S'] show ?thesis by simp
  next
    case False
    with step.IH s that show ?thesis by simp
  qed
  with step.IH f s show ?case by simp
qed

section \<open>The client program\<close>

text \<open>What the io_context thread does: everything but the two calls of the main thread.\<close>

inductive client_io :: "chat_client \<Rightarrow> chat_client \<Rightarrow> bool" where
  io_posted: "c_posted c \<noteq> [] \<Longrightarrow> client_run_posted c = Inr c' \<Longrightarrow> client_io c c'"
| io_connected: "c_connecting c \<Longrightarrow> client_io c (client_on_connect ok c)"
| io_header: "c_reading c = CHeader \<Longrightarrow> (\<And>bs. r = Some bs \<Longrightarrow> length bs = header_length \<and> c_open c) \<Longrightarrow>
     client_on_read_header r c = Inr c' \<Longrightarrow> client_io c c'"
| io_body: "c_reading c = CBody \<Longrightarrow>
     (\<And>bs. r = Some bs \<Longrightarrow> length bs = msg_body_length (c_read_msg c) \<and> c_open c) \<Longrightarrow>
     client_on_read_body r c = Inr c' \<Longrightarrow> client_io c c'"
| io_written: "0 < c_writing c \<Longrightarrow> (ok \<Longrightarrow> c_open c) \<Longrightarrow> client_on_write ok c = Inr c' \<Longrightarrow> client_io c c'"

lemma client_io_step: "client_io c c' \<Longrightarrow> client_step c [] c'"
  by (erule client_io.cases) (blast intro: client_step.intros)+

text \<open>The calls main has still to make (one write per line, then close), and the client.\<close>

record client_prog =
  todo :: "posted list"
  client :: chat_client

fun main_call :: "posted \<Rightarrow> chat_client \<Rightarrow> chat_client" where
  "main_call (PostWrite msg) c = client_write msg c"
| "main_call PostClose c = client_close c"

text \<open>main up to the start of its input loop: \<open>failed\<close> is what resolving the host throws.\<close>

definition chat_client_main ::
  "nat \<Rightarrow> string option \<Rightarrow> string \<Rightarrow> (string \<times> string) list \<Rightarrow> fault + ((int \<times> string) + client_prog)"
where
  "chat_client_main argc failed raw ls =
     (if argc \<noteq> 3 then Inr (Inl (1, ''Usage: chat_client <host> <port>'' @ [CHR 0x0A]))
      else case failed of Some what \<Rightarrow> Inr (Inl (0, ''Exception: '' @ what @ [CHR 0x0A]))
      | None \<Rightarrow> and_then (input_loop ls) (\<lambda>ms.
          Inr (Inr \<lparr>todo = map PostWrite ms @ [PostClose], client = new_client raw\<rparr>)))"

inductive prog_step :: "client_prog \<Rightarrow> client_prog \<Rightarrow> bool" where
  main_thread: "todo P = p # ps \<Longrightarrow> prog_step P (P\<lparr>todo := ps, client := main_call p (client P)\<rparr>)"
| io_thread: "client_io (client P) c' \<Longrightarrow> prog_step P (P\<lparr>client := c'\<rparr>)"

text \<open>\<open>t.join()\<close> returns, and with it main, when the io_context has nothing left to do.\<close>

definition prog_done :: "client_prog \<Rightarrow> bool" where
  "prog_done P \<longleftrightarrow> todo P = [] \<and> c_posted (client P) = [] \<and> \<not> c_connecting (client P) \<and>
     c_reading (client P) = CNone \<and> c_writing (client P) = 0"

inductive prog_reach :: "string \<Rightarrow> (string \<times> string) list \<Rightarrow> client_prog \<Rightarrow> bool" for raw ls where
  start: "chat_client_main 3 None raw ls = Inr (Inr P) \<Longrightarrow> prog_reach raw ls P"
| step: "prog_reach raw ls P \<Longrightarrow> prog_step P P' \<Longrightarrow> prog_reach raw ls P'"

lemma posted_msgs_writes [simp]: "posted_msgs (map PostWrite ms) = ms"
  by (induction ms) auto

lemma main_call_posted [simp]: "c_posted (main_call p c) = c_posted c @ [p]"
  by (cases p) (simp_all add: client_write_def client_close_def)

lemma main_call_step: "client_step c (posted_msgs [p]) (main_call p c)"
  by (cases p) (auto intro: client_step.intros)

text \<open>The client of the program is a reachable client, and what it wrote so far and what it has still to
  write are the messages of the lines.\<close>

lemma prog_reach_client:
  assumes "prog_reach raw ls P"
  shows "\<exists>log ms. input_loop ls = Inr ms \<and> client_reach raw (client P) log \<and> log @ posted_msgs (todo P) = ms"
  using assms
proof (induction rule: prog_reach.induct)
  case (start P)
  then obtain ms where "input_loop ls = Inr ms" "P = \<lparr>todo = map PostWrite ms @ [PostClose], client = new_client raw\<rparr>"
    by (auto simp: chat_client_main_def and_then_Inr_iff)
  then show ?case using client_reach.start by fastforce
next
  case (step P P')
  then obtain log ms where i: "input_loop ls = Inr ms" "client_reach raw (client P) log" "log @ posted_msgs (todo P) = ms"
    by blast
  from step.hyps(2) show ?case
  proof (cases rule: prog_step.cases)
    case (main_thread p ps)
    have "posted_msgs (todo P) = posted_msgs [p] @ posted_msgs ps"
      using posted_msgs_append [of "[p]" ps] main_thread(2) by simp
    then show ?thesis
      using i client_reach.step [OF i(2) main_call_step [of "client P" p]] main_thread(1) by fastforce
  next
    case (io_thread c')
    then show ?thesis using i client_reach.step [OF i(2) client_io_step [OF io_thread(2)]] by fastforce
  qed
qed

text \<open>Running the functions posted when nothing but the first write is outstanding.\<close>

lemma posted_run:
  assumes "c_write_msgs c = m # ms" "c_posted c = map PostWrite ns @ [PostClose]"
  shows "client_io\<^sup>*\<^sup>* c (c\<lparr>c_write_msgs := m # ms @ ns, c_posted := [], c_open := False\<rparr>)"
  using assms
proof (induction ns arbitrary: c ms)
  case Nil
  then have "client_run_posted c = Inr (c\<lparr>c_write_msgs := m # ms @ [], c_posted := [], c_open := False\<rparr>)"
    by (simp add: client_run_posted_def client_shut_def)
  with Nil(2) show ?case by (intro r_into_rtranclp io_posted) auto
next
  case (Cons n ns)
  define c1 where "c1 = c\<lparr>c_posted := map PostWrite ns @ [PostClose], c_write_msgs := m # ms @ [n]\<rparr>"
  have "client_run_posted c = Inr c1"
    using Cons.prems by (simp add: client_run_posted_def client_enqueue_def c1_def)
  then have s: "client_io c c1" using Cons.prems(2) by (intro io_posted) auto
  have "client_io\<^sup>*\<^sup>* c1 (c1\<lparr>c_write_msgs := m # (ms @ [n]) @ ns, c_posted := [], c_open := False\<rparr>)"
    by (rule Cons.IH) (simp_all add: c1_def)
  moreover have "c1\<lparr>c_write_msgs := m # (ms @ [n]) @ ns, c_posted := [], c_open := False\<rparr> =
      c\<lparr>c_write_msgs := m # ms @ n # ns, c_posted := [], c_open := False\<rparr>" by (simp add: c1_def)
  ultimately show ?case using s by (metis converse_rtranclp_into_rtranclp)
qed

lemma prog_io:
  assumes "client_io\<^sup>*\<^sup>* c c'" "prog_reach raw ls P" "client P = c"
  shows "prog_reach raw ls (P\<lparr>client := c'\<rparr>)"
  using assms
proof (induction rule: rtranclp_induct)
  case base
  then have "P\<lparr>client := c\<rparr> = P" by (cases P) auto
  with base show ?case by metis
next
  case (step c1 c2)
  from prog_step.io_thread [of "P\<lparr>client := c1\<rparr>" c2] step.hyps(2)
  have "prog_step (P\<lparr>client := c1\<rparr>) (P\<lparr>client := c2\<rparr>)" by simp
  with step.IH [OF step.prems] show ?case by (rule prog_reach.step)
qed

text \<open>main making all its calls before the other thread runs.\<close>

lemma main_first:
  assumes "prog_reach raw ls P"
  shows "prog_reach raw ls (P\<lparr>todo := [], client := fold main_call (todo P) (client P)\<rparr>)"
  using assms
proof (induction "todo P" arbitrary: P)
  case Nil
  then have "P\<lparr>todo := [], client := fold main_call (todo P) (client P)\<rparr> = P" by (cases P) auto
  with Nil.prems show ?case by metis
next
  case (Cons p ps)
  from prog_step.main_thread [of P p ps] Cons.hyps(2)
  have "prog_reach raw ls (P\<lparr>todo := ps, client := main_call p (client P)\<rparr>)"
    using prog_reach.step [OF Cons.prems] by simp
  from Cons.hyps(1) [OF _ this] Cons.hyps(2) show ?case by (simp flip: Cons.hyps(2))
qed

lemma fold_main_call: "fold main_call ps c = c\<lparr>c_posted := c_posted c @ ps\<rparr>"
proof (induction ps arbitrary: c)
  case (Cons p ps)
  then show ?case by (cases p) (simp_all add: client_write_def client_close_def)
qed simp

text \<open>What is left once the socket is closed and nothing is posted.\<close>

definition io_left :: "client_prog \<Rightarrow> nat" where
  "io_left P = (if c_connecting (client P) then 2 else 0) + of_bool (c_reading (client P) \<noteq> CNone) + c_writing (client P)"

definition closing :: "client_prog \<Rightarrow> bool" where
  "closing P \<longleftrightarrow> todo P = [] \<and> c_posted (client P) = [] \<and> \<not> c_open (client P)"

lemma closing_step:
  assumes "closing P" "prog_step P P'"
  shows "closing P' \<and> io_left P' < io_left P"
  using assms(2)
proof (cases rule: prog_step.cases)
  case (main_thread p ps)
  with assms(1) show ?thesis by (simp add: closing_def)
next
  case (io_thread c')
  note d = closing_def io_left_def client_shut_def Let_def
  from io_thread(2) show ?thesis
  proof (cases rule: client_io.cases)
    case (io_connected ok)
    with assms(1) io_thread(1) show ?thesis by (auto simp: d client_on_connect_def client_do_read_header_def)
  next
    case (io_header r)
    then have "r = None" using assms(1) by (cases r) (auto simp: closing_def)
    with assms(1) io_thread(1) io_header show ?thesis by (auto simp: d client_on_read_header_def)
  next
    case (io_body r)
    then have "r = None" using assms(1) by (cases r) (auto simp: closing_def)
    with assms(1) io_thread(1) io_body show ?thesis by (auto simp: d client_on_read_body_def)
  next
    case (io_written ok)
    then have "\<not> ok" using assms(1) by (auto simp: closing_def)
    with assms(1) io_thread(1) io_written show ?thesis by (auto simp: d client_on_write_def)
  qed (use assms(1) in \<open>simp add: closing_def\<close>)
qed

lemma closing_stuck:
  assumes "closing P" "\<not> prog_done P"
  shows "\<exists>P'. prog_step P P'"
proof -
  let ?c = "client P"
  have "c_connecting ?c \<or> c_reading ?c = CHeader \<or> c_reading ?c = CBody \<or> 0 < c_writing ?c"
    using assms by (cases "c_reading ?c") (auto simp: prog_done_def closing_def)
  moreover have "\<exists>c'. client_on_read_header None ?c = Inr c'" "\<exists>c'. client_on_read_body None ?c = Inr c'"
    "\<exists>c'. client_on_write False ?c = Inr c'"
    by (simp_all add: client_on_read_header_def client_on_read_body_def client_on_write_def)
  ultimately show ?thesis
    using prog_step.io_thread io_connected io_header [of ?c None] io_body [of ?c None] io_written [of ?c False]
    by (metis option.distinct(1))
qed

lemma closing_steps:
  assumes "(prog_step ^^ k) P P'" "closing P"
  shows "closing P' \<and> io_left P' + k \<le> io_left P"
  using assms
proof (induction k arbitrary: P')
  case (Suc k)
  then obtain P1 where "(prog_step ^^ k) P P1" "prog_step P1 P'" by auto
  with Suc.IH [OF this(1) Suc.prems(2)] closing_step [of P1 P'] show ?case by fastforce
qed simp

section \<open>Properties\<close>

text \<open>
  C8. What the client program puts on the wire: in every interleaving of its two threads the messages
  handed to async_write are, in order and byte for byte, a prefix of the typed lines (up to the first that
  is too long), each as its length in four columns followed by its text.\<close>

theorem client_program_wire:
  assumes "prog_reach raw ls P" "length raw = 516"
    and "\<forall>x \<in> set ls. length (fst x) = header_length + max_body_length"
  shows "prefix (map wire (c_sent (client P)))
    (map (\<lambda>(raw, line). fmt_4d (int (length (cstr line))) @ cstr line)
         (takeWhile (\<lambda>(raw, line). length line \<le> max_body_length) ls))"
proof -
  obtain log ms where p: "input_loop ls = Inr ms" "client_reach raw (client P) log" "log @ posted_msgs (todo P) = ms"
    using prog_reach_client [OF assms(1)] by blast
  have "prefix (c_sent (client P)) log"
    using client_reach_inv [OF p(2) assms(2)] by (auto simp: client_inv_def co.accepted_def prefix_def)
  then have "prefix (c_sent (client P)) ms" using p(3) by (auto intro: prefix_order.trans)
  then have "prefix (map wire (c_sent (client P))) (map wire ms)" by (rule map_mono_prefix)
  moreover have "length raw = header_length + max_body_length" if "(raw, line) \<in> set ls" for raw line
    using assms(3) that by fastforce
  from input_loop_result [of ls, OF this] p(1) have "map wire ms = map (\<lambda>(raw, line).
      fmt_4d (int (length (cstr line))) @ cstr line) (takeWhile (\<lambda>(raw, line). length line \<le> max_body_length) ls)"
    by auto
  ultimately show ?thesis by simp
qed

text \<open>
  C22. Closing after the last line loses messages: whatever lines were typed, the program can end with only
  the first of them handed to the socket, because close runs while the others still wait for its write.\<close>

theorem close_loses_messages:
  assumes "input_loop ls = Inr (m # ms)"
  shows "\<exists>P. prog_reach raw ls P \<and> prog_done P \<and> c_sent (client P) = [m] \<and> c_write_msgs (client P) = m # ms"
proof -
  define P0 where "P0 = \<lparr>todo = map PostWrite (m # ms) @ [PostClose], client = new_client raw\<rparr>"
  have "prog_reach raw ls P0"
    by (rule prog_reach.start) (simp add: chat_client_main_def assms P0_def)
  from main_first [OF this] have r1: "prog_reach raw ls
      \<lparr>todo = [], client = (new_client raw)\<lparr>c_posted := map PostWrite (m # ms) @ [PostClose]\<rparr>\<rparr>"
    unfolding fold_main_call by (simp add: P0_def new_client_def)
  define c0 where "c0 = (new_client raw)\<lparr>c_posted := map PostWrite (m # ms) @ [PostClose]\<rparr>"
  define c1 where "c1 = c0\<lparr>c_connecting := False, c_reading := CHeader\<rparr>"
  define c2 where "c2 = c1\<lparr>c_posted := map PostWrite ms @ [PostClose], c_write_msgs := [m], c_writing := 1, c_sent := [m]\<rparr>"
  define c3 where "c3 = c2\<lparr>c_write_msgs := m # ms, c_posted := [], c_open := False\<rparr>"
  define c4 where "c4 = c3\<lparr>c_reading := CNone\<rparr>"
  define c5 where "c5 = c4\<lparr>c_writing := 0\<rparr>"
  have "client_on_connect True c0 = c1" by (simp add: client_on_connect_def client_do_read_header_def c1_def)
  then have s0: "client_io c0 c1" using io_connected [of c0 True] by (simp add: c0_def new_client_def)
  have "client_run_posted c1 = Inr c2"
    by (simp add: c0_def c1_def c2_def client_run_posted_def client_enqueue_def client_do_write_def new_client_def)
  then have s1: "client_io c1 c2" by (intro io_posted) (simp add: c1_def c0_def)
  have s2: "client_io\<^sup>*\<^sup>* c2 c3" using posted_run [of c2 m "[]" ms] by (simp add: c2_def c3_def)
  have "client_on_read_header None c3 = Inr c4"
    by (simp add: client_on_read_header_def client_shut_def c4_def c3_def)
  then have s3: "client_io c3 c4" by (intro io_header [of c3 None]) (simp_all add: c3_def c2_def c1_def)
  have "client_on_write False c4 = Inr c5"
    by (simp add: client_on_write_def client_shut_def c5_def c4_def c3_def c2_def)
  then have s4: "client_io c4 c5" by (intro io_written [of c4 False]) (simp_all add: c4_def c3_def c2_def)
  have "client_io\<^sup>*\<^sup>* c0 c5" using s0 s1 s2 s3 s4
    by (meson converse_rtranclp_into_rtranclp rtranclp.rtrancl_into_rtrancl)
  from prog_io [OF this r1] have "prog_reach raw ls \<lparr>todo = [], client = c5\<rparr>" by (simp add: c0_def)
  moreover have "prog_done \<lparr>todo = [], client = c5\<rparr>" "c_sent c5 = [m]" "c_write_msgs c5 = m # ms"
    by (simp_all add: prog_done_def c5_def c4_def c3_def c2_def c1_def c0_def new_client_def)
  ultimately show ?thesis by (metis client_prog.select_convs(2))
qed

text \<open>
  C9. The client program ends: once close has run, main makes no more calls, the io thread has at most
  four more steps, and when none is possible the join, and with it the program, returns.\<close>

theorem client_program_ends:
  assumes "prog_reach raw ls P" "length raw = 516" "todo P = []" "c_posted (client P) = []" "\<not> c_open (client P)"
    and "(prog_step ^^ k) P P'"
  shows "k \<le> 4 \<and> (prog_done P' \<or> (\<exists>P''. prog_step P' P''))"
proof -
  have c: "closing P" using assms(3-5) by (simp add: closing_def)
  have s: "closing P'" "io_left P' + k \<le> io_left P" using closing_steps [OF assms(6) c] by simp_all
  obtain log where "client_reach raw (client P) log" using prog_reach_client [OF assms(1)] by blast
  from client_reach_inv [OF this assms(2)] have "c_writing (client P) \<le> 1"
    by (auto simp: client_inv_def co.in_step_def split: if_splits)
  then have "io_left P \<le> 4" by (simp add: io_left_def)
  with s closing_stuck [OF s(1)] show ?thesis by auto
qed

section \<open>Witnesses\<close>

lemma prefix_same_length: "prefix xs ys \<Longrightarrow> length xs = length ys \<Longrightarrow> xs = ys"
  by (auto simp: prefix_def)

definition hi_line :: "(string \<times> string) list" where
  "hi_line = [(raw0, ''hi'')]"

definition hi_prog :: client_prog where
  "hi_prog = (case chat_client_main 3 None raw0 hi_line of Inr (Inr P) \<Rightarrow> P)"

lemma hi_prog_reach: "prog_reach raw0 hi_line hi_prog"
proof -
  obtain m where "input_loop hi_line = Inr [m]" using hi_made by (auto simp: hi_line_def)
  then have "chat_client_main 3 None raw0 hi_line = Inr (Inr hi_prog)"
    by (simp add: hi_prog_def chat_client_main_def)
  then show ?thesis by (rule prog_reach.start)
qed

text \<open>The program at its end, by the schedule that loses messages; here there is only one.\<close>

lemma hi_prog_ended:
  "\<exists>P. prog_reach raw0 hi_line P \<and> closing P \<and> length (c_sent (client P)) = 1"
proof -
  obtain m where m: "input_loop hi_line = Inr [m]" using hi_made by (auto simp: hi_line_def)
  define c0 where "c0 = (new_client raw0)\<lparr>c_posted := [PostWrite m, PostClose]\<rparr>"
  define c1 where "c1 = c0\<lparr>c_posted := [PostClose], c_write_msgs := [m], c_writing := 1, c_sent := [m]\<rparr>"
  define c2 where "c2 = c1\<lparr>c_posted := [], c_open := False\<rparr>"
  have "client_run_posted c0 = Inr c1" "client_run_posted c1 = Inr c2"
    by (simp_all add: c0_def c1_def c2_def client_run_posted_def client_enqueue_def client_do_write_def
        client_shut_def new_client_def)
  then have "client_io c0 c1" "client_io c1 c2" by (auto intro!: io_posted simp: c0_def c1_def)
  then have "client_io\<^sup>*\<^sup>* c0 c2" by (meson converse_rtranclp_into_rtranclp r_into_rtranclp)
  moreover have "prog_reach raw0 hi_line \<lparr>todo = [PostWrite m, PostClose], client = new_client raw0\<rparr>"
    by (rule prog_reach.start) (simp add: chat_client_main_def m)
  from main_first [OF this] have "prog_reach raw0 hi_line \<lparr>todo = [], client = c0\<rparr>"
    unfolding fold_main_call by (simp add: c0_def new_client_def)
  ultimately have "prog_reach raw0 hi_line \<lparr>todo = [], client = c2\<rparr>" using prog_io by fastforce
  moreover have "closing \<lparr>todo = [], client = c2\<rparr>" "length (c_sent (client \<lparr>todo = [], client = c2\<rparr>)) = 1"
    by (simp_all add: closing_def c2_def c1_def)
  ultimately show ?thesis by blast
qed

lemma client_program_wire_witness:
  "\<exists>P. prog_reach raw0 hi_line P \<and> map wire (c_sent (client P)) = [''   2hi'']"
proof -
  obtain P where P: "prog_reach raw0 hi_line P" "length (c_sent (client P)) = 1" using hi_prog_ended by blast
  have f: "fmt_4d 2 = ''   2''" by code_simp
  have h: "\<forall>x \<in> set hi_line. length (fst x) = header_length + max_body_length"
    using raw0_lines by (simp add: hi_line_def)
  have "map (\<lambda>(raw, line). fmt_4d (int (length (cstr line))) @ cstr line)
      (takeWhile (\<lambda>(raw, line). length line \<le> max_body_length) hi_line) = [''   2hi'']"
    using f by (simp add: hi_line_def max_body_length_def cstr_def NUL_def)
  with client_program_wire [OF P(1) raw0_length h] have "prefix (map wire (c_sent (client P))) [''   2hi'']" by simp
  then have "map wire (c_sent (client P)) = [''   2hi'']"
    by (rule prefix_same_length) (simp add: P(2))
  with P(1) show ?thesis by (intro exI conjI)
qed

lemma close_loses_messages_witness:
  "\<exists>P m. prog_reach raw0 [(raw0, ''hi''), (raw0, ''ho'')] P \<and> prog_done P \<and> length (c_sent (client P)) = 1 \<and>
     length (c_write_msgs (client P)) = 2"
proof -
  define ls where "ls = [(raw0, ''hi''), (raw0, ''ho'')]"
  have p: "length raw = header_length + max_body_length" if "(raw, line) \<in> set ls" for raw line
    using that by (auto simp: ls_def msg_consts)
  have "\<exists>ms. input_loop ls = Inr ms \<and> (\<forall>m \<in> set ms. msg_ok m) \<and>
    map wire ms = map (\<lambda>(raw, line). fmt_4d (int (length (cstr line))) @ cstr line)
                      (takeWhile (\<lambda>(raw, line). length line \<le> max_body_length) ls)"
    by (rule input_loop_result) (rule p)
  then obtain ms where ms: "input_loop ls = Inr ms"
      "map wire ms = map (\<lambda>(raw, line). fmt_4d (int (length (cstr line))) @ cstr line)
         (takeWhile (\<lambda>(raw, line). length line \<le> max_body_length) ls)" by blast
  from arg_cong [OF ms(2), of length] have "length ms = 2" by (simp add: ls_def max_body_length_def)
  then obtain m n where "ms = [m, n]" by (auto simp: length_Suc_conv numeral_2_eq_2)
  with ms(1) close_loses_messages [of ls m "[n]" raw0] show ?thesis unfolding ls_def by fastforce
qed

lemma client_program_ends_witness:
  "\<exists>P. prog_reach raw0 hi_line P \<and> (\<forall>k P'. (prog_step ^^ k) P P' \<longrightarrow> k \<le> 4)"
proof -
  obtain P where P: "prog_reach raw0 hi_line P" "closing P" using hi_prog_ended by blast
  have "k \<le> 4" if "(prog_step ^^ k) P P'" for k P'
    using client_program_ends [OF P(1) raw0_length _ _ _ that] P(2) by (simp add: closing_def)
  with P(1) show ?thesis by blast
qed

end
