(* ===== verification/Echo_System.thy ===== *)
theory Echo_System
  imports Echo_Session Small_Programs "HOL-Library.Sublist"
begin

text \<open>
  The echo programs as wholes: main of MyTCPSrv01.cpp with all its connections, and the blocking client of
  MyTCPCli01.cpp talking to one of them over TCP, which delivers the bytes of each direction in order, in
  pieces of any size.
\<close>

section \<open>The server program\<close>

text \<open>The constructor of the server binds its acceptor (\<open>bound\<close> is what that throws) and accepts.\<close>

definition echo_server_start :: "string option \<Rightarrow> string + echo_server" where
  "echo_server_start bound =
     (case bound of Some what \<Rightarrow> Inl what | None \<Rightarrow> Inr (start_accept \<lparr>connections = [], accepts = 0\<rparr>))"

definition echo_main :: "nat \<Rightarrow> string option \<Rightarrow> (int \<times> string) + echo_server" where
  "echo_main argc bound =
     (if argc \<noteq> 2 then Inl (1, ''Usage: third_party_lib <port>'' @ [newline])
      else case echo_server_start bound of
             Inl what \<Rightarrow> Inl (0, ''Exception: '' @ what @ [newline])
           | Inr s \<Rightarrow> Inr s)"

inductive echo_step :: "echo_server \<Rightarrow> echo_server \<Rightarrow> bool" where
  accepting: "0 < accepts s \<Longrightarrow> echo_step s (handle_accept error s)"
| serving: "i < length (connections s) \<Longrightarrow> conn_step (connections s ! i) c \<Longrightarrow>
    echo_step s (s\<lparr>connections := (connections s)[i := c]\<rparr>)"

inductive echo_reach :: "echo_server \<Rightarrow> bool" where
  start: "echo_main 2 None = Inr s \<Longrightarrow> echo_reach s"
| step: "echo_reach s \<Longrightarrow> echo_step s s' \<Longrightarrow> echo_reach s'"

lemma echo_reach_parts:
  assumes "echo_reach s"
  shows "accepts s = 1 \<and> (\<forall>c \<in> set (connections s). conn_reach c)"
  using assms
proof (induction rule: echo_reach.induct)
  case (start s)
  then show ?case by (auto simp: echo_main_def echo_server_start_def start_accept_def)
next
  case (step s s')
  from step.hyps(2) show ?case
  proof (cases rule: echo_step.cases)
    case (accepting error)
    with step.IH conn_reach.start show ?thesis by (auto simp: handle_accept_def start_accept_def Let_def)
  next
    case (serving i c)
    have "conn_reach c" using step.IH serving(2,3) conn_reach.step by (metis nth_mem)
    with step.IH serving(1) set_update_subset_insert [of "connections s" i c] show ?thesis by auto
  qed
qed

section \<open>The blocking client\<close>

text \<open>\<open>getline\<close> into 1024 bytes and \<open>strlen\<close> of the result.\<close>

definition client_request :: "string \<Rightarrow> string" where
  "client_request input = cstr (take 1023 (takeWhile (\<lambda>c. c \<noteq> newline) input))"

text \<open>Where main is: in \<open>write\<close>, in \<open>read\<close>, or at its end. Both calls loop over pieces until \<open>request_length\<close>
  bytes have been transferred, and throw when the socket fails.\<close>

datatype client_at = InWrite | InRead | AtEnd

record echo_client =
  ec_request :: string      \<comment> \<open>\<open>request\<close>, up to \<open>request_length\<close>\<close>
  ec_sent :: nat            \<comment> \<open>bytes written so far\<close>
  ec_reply :: string        \<comment> \<open>\<open>reply\<close>, as far as it has been read\<close>
  ec_at :: client_at
  ec_out :: string          \<comment> \<open>what is printed, errors included\<close>

text \<open>\<open>write\<close> returns when nothing is left to be written.\<close>

definition write_returns :: "echo_client \<Rightarrow> echo_client" where
  "write_returns c = (if ec_sent c < length (ec_request c) then c else c\<lparr>ec_at := InRead\<rparr>)"

text \<open>Up to the call of \<open>write\<close>: \<open>failed\<close> is the text of an exception thrown while connecting, if any.\<close>

definition client_start :: "nat \<Rightarrow> string option \<Rightarrow> string \<Rightarrow> (int \<times> string) + echo_client" where
  "client_start argc failed input =
     (if argc \<noteq> 3 then Inl (1, ''Usage: blocking_tcp_echo_client <host> <port>'' @ [newline])
      else case failed of Some what \<Rightarrow> Inl (0, ''Exception: '' @ what @ [newline])
      | None \<Rightarrow> Inr (write_returns \<lparr>ec_request = client_request input, ec_sent = 0, ec_reply = [], ec_at = InWrite,
          ec_out = ''Enter message: ''\<rparr>))"

text \<open>The socket takes \<open>n\<close> more bytes of the request.\<close>

definition client_writes :: "nat \<Rightarrow> echo_client \<Rightarrow> string \<times> echo_client" where
  "client_writes n c =
     (take n (drop (ec_sent c) (ec_request c)), write_returns (c\<lparr>ec_sent := ec_sent c + n\<rparr>))"

definition client_reads :: "string \<Rightarrow> echo_client \<Rightarrow> echo_client" where
  "client_reads bs c = c\<lparr>ec_reply := ec_reply c @ bs\<rparr>"

text \<open>\<open>read\<close> has returned.\<close>

definition client_shows :: "echo_client \<Rightarrow> echo_client" where
  "client_shows c = c\<lparr>ec_at := AtEnd, ec_out := ec_out c @ ''Reply is: '' @ ec_reply c @ [newline]\<rparr>"

text \<open>The handler of the exception that \<open>write\<close> or \<open>read\<close> throws.\<close>

definition client_fails :: "string \<Rightarrow> echo_client \<Rightarrow> echo_client" where
  "client_fails what c = c\<lparr>ec_at := AtEnd, ec_out := ec_out c @ ''Exception: '' @ what @ [newline]\<rparr>"

section \<open>One connection and its client\<close>

text \<open>The bytes under way in each direction.\<close>

record echo_net =
  conn :: connection
  to_server :: string
  to_client :: string
  cli :: echo_client

text \<open>The client has connected and read the line \<open>input\<close> starts with.\<close>

definition echo_net_start :: "echo_client \<Rightarrow> echo_net" where
  "echo_net_start c = \<lparr>conn = conn_start new_connection, to_server = [], to_client = [], cli = c\<rparr>"

text \<open>
  The readiness of the socket leads to a read of what has arrived, at most 128 bytes, or of nothing; or to
  a write of a part of the buffer. The client writes at least one byte of what is left of its request, and
  reads at least one byte of what has arrived, up to the length of its request. Any wait or operation may
  fail.
\<close>

inductive echo_net_step :: "echo_net \<Rightarrow> echo_net \<Rightarrow> bool" where
  server_reads: "0 < read_waits (conn N) \<Longrightarrow> sock_open (conn N) \<Longrightarrow> to_server N = bs @ rest \<Longrightarrow> length bs \<le> 128 \<Longrightarrow>
     e' = (if bs = [] then WouldBlock else Ok) \<Longrightarrow>
     echo_net_step N (N\<lparr>conn := handle_read Ok bs e' (conn N), to_server := rest\<rparr>)"
| read_fails: "0 < read_waits (conn N) \<Longrightarrow> echo_net_step N (N\<lparr>conn := handle_read Failed [] Failed (conn N)\<rparr>)"
| server_writes: "0 < write_waits (conn N) \<Longrightarrow> sock_open (conn N) \<Longrightarrow> n \<le> length (write_buffer (session_impl (conn N))) \<Longrightarrow>
     e' = (if n = 0 then WouldBlock else Ok) \<Longrightarrow>
     echo_net_step N (N\<lparr>conn := handle_write Ok n e' (conn N),
       to_client := to_client N @ take n (write_buffer (session_impl (conn N)))\<rparr>)"
| write_fails: "0 < write_waits (conn N) \<Longrightarrow> echo_net_step N (N\<lparr>conn := handle_write Failed 0 Failed (conn N)\<rparr>)"
| client_write: "ec_at (cli N) = InWrite \<Longrightarrow> 0 < n \<Longrightarrow> ec_sent (cli N) + n \<le> length (ec_request (cli N)) \<Longrightarrow>
     client_writes n (cli N) = (bs, c) \<Longrightarrow> echo_net_step N (N\<lparr>to_server := to_server N @ bs, cli := c\<rparr>)"
| client_read: "ec_at (cli N) = InRead \<Longrightarrow> to_client N = bs @ rest \<Longrightarrow> bs \<noteq> [] \<Longrightarrow>
     length (ec_reply (cli N)) + length bs \<le> length (ec_request (cli N)) \<Longrightarrow>
     echo_net_step N (N\<lparr>to_client := rest, cli := client_reads bs (cli N)\<rparr>)"
| client_show: "ec_at (cli N) = InRead \<Longrightarrow> length (ec_reply (cli N)) = length (ec_request (cli N)) \<Longrightarrow>
     echo_net_step N (N\<lparr>cli := client_shows (cli N)\<rparr>)"
| client_fail: "ec_at (cli N) \<noteq> AtEnd \<Longrightarrow> echo_net_step N (N\<lparr>cli := client_fails what (cli N)\<rparr>)"

inductive echo_net_reach :: "string \<Rightarrow> echo_net \<Rightarrow> bool" for input where
  start: "client_start 3 None input = Inr c \<Longrightarrow> echo_net_reach input (echo_net_start c)"
| step: "echo_net_reach input N \<Longrightarrow> echo_net_step N N' \<Longrightarrow> echo_net_reach input N'"

text \<open>The client in each place: what it has written and read, and what it has printed.\<close>

definition shown :: "string \<Rightarrow> string" where
  "shown request = ''Enter message: Reply is: '' @ request @ [newline]"

definition client_ok :: "string \<Rightarrow> echo_client \<Rightarrow> bool" where
  "client_ok request c \<longleftrightarrow> ec_request c = request \<and> ec_sent c \<le> length request \<and>
     (case ec_at c of
        InWrite \<Rightarrow> ec_sent c < length request \<and> ec_reply c = [] \<and> ec_out c = ''Enter message: ''
      | InRead \<Rightarrow> ec_sent c = length request \<and> ec_out c = ''Enter message: ''
      | AtEnd \<Rightarrow> ec_out c = shown request \<or> (\<exists>what. ec_out c = ''Enter message: Exception: '' @ what @ [newline]))"

definition echo_net_inv :: "string \<Rightarrow> echo_net \<Rightarrow> bool" where
  "echo_net_inv request N \<longleftrightarrow> conn_reach (conn N) \<and> client_ok request (cli N) \<and>
     got (session_impl (conn N)) @ to_server N = take (ec_sent (cli N)) request \<and>
     put (session_impl (conn N)) = ec_reply (cli N) @ to_client N"

lemma handle_read_bytes:
  "got (session_impl (handle_read e bs e' c)) = got (session_impl c) @ (if e = Ok then bs else [])"
  "put (session_impl (handle_read e bs e' c)) = put (session_impl c)"
  by (auto simp: handle_read_def do_read_def start_operations_def conn_close_def Let_def)

lemma handle_write_bytes:
  "got (session_impl (handle_write e n e' c)) = got (session_impl c)"
  "put (session_impl (handle_write e n e' c)) = put (session_impl c) @
     (if e = Ok then take n (write_buffer (session_impl c)) else [])"
  by (auto simp: handle_write_def do_write_def start_operations_def conn_close_def Let_def)

lemma echo_net_step_inv [pres]:
  assumes "echo_net_step N N'" "echo_net_inv request N"
  shows "echo_net_inv request N'"
  using assms(1)
proof (cases rule: echo_net_step.cases)
  case (server_reads bs rest e')
  have "conn_step (conn N) (handle_read Ok bs e' (conn N))"
    by (rule conn_step.read_ready) (use server_reads in \<open>auto simp: read_some_ok_def\<close>)
  with conn_reach.step [OF _ this] assms(2) server_reads show ?thesis
    by (auto simp: echo_net_inv_def handle_read_bytes)
next
  case read_fails
  have "conn_step (conn N) (handle_read Failed [] Failed (conn N))" by (rule conn_step.read_ready) (use read_fails in auto)
  with conn_reach.step [OF _ this] assms(2) read_fails show ?thesis by (auto simp: echo_net_inv_def handle_read_bytes)
next
  case (server_writes n e')
  have "conn_step (conn N) (handle_write Ok n e' (conn N))"
    by (rule conn_step.write_ready) (use server_writes in \<open>auto simp: write_some_ok_def\<close>)
  with conn_reach.step [OF _ this] assms(2) server_writes show ?thesis
    by (auto simp: echo_net_inv_def handle_write_bytes)
next
  case write_fails
  have "conn_step (conn N) (handle_write Failed 0 Failed (conn N))" by (rule conn_step.write_ready) (use write_fails in auto)
  with conn_reach.step [OF _ this] assms(2) write_fails show ?thesis by (auto simp: echo_net_inv_def handle_write_bytes)
next
  case (client_write n bs c)
  let ?k = "ec_sent (cli N)"
  have r: "ec_request (cli N) = request" "?k + n \<le> length request"
    using assms(2) client_write by (simp_all add: echo_net_inv_def client_ok_def)
  have "client_ok request c" using assms(2) client_write
    by (auto simp: echo_net_inv_def client_ok_def client_writes_def write_returns_def)
  moreover have "ec_sent c = ?k + n" "ec_reply c = ec_reply (cli N)"
    using client_write(5) by (auto simp: client_writes_def write_returns_def)
  moreover have "take (?k + n) request = take ?k request @ bs"
    using client_write(5) r(1) by (auto simp: client_writes_def take_add)
  ultimately show ?thesis using assms(2) client_write(1) by (simp add: echo_net_inv_def flip: append_assoc)
next
  case (client_read bs rest)
  with assms(2) show ?thesis by (simp add: echo_net_inv_def client_ok_def client_reads_def)
next
  case client_show
  have "put (session_impl (conn N)) @ write_buffer (session_impl (conn N)) @ to_server N = request"
    using assms(2) client_show conn_reach_inv [of "conn N"]
    by (auto simp: echo_net_inv_def client_ok_def conn_inv_def session_ok_def)
  then have "ec_reply (cli N) = request"
    using assms(2) client_show by (auto simp: echo_net_inv_def client_ok_def)
  with assms(2) client_show show ?thesis
    by (simp add: echo_net_inv_def client_ok_def client_shows_def shown_def)
next
  case (client_fail what)
  have "ec_out (cli N) = ''Enter message: ''"
    using assms(2) client_fail(2) by (cases "ec_at (cli N)") (simp_all add: echo_net_inv_def client_ok_def)
  with assms(2) client_fail show ?thesis
    by (simp add: echo_net_inv_def client_ok_def client_fails_def)
qed

lemma client_start_ok: "client_start 3 None input = Inr c \<Longrightarrow> client_ok (client_request input) c \<and> ec_sent c = 0 \<and> ec_reply c = []"
  by (auto simp: client_start_def client_ok_def write_returns_def)

lemma echo_net_reach_inv: "echo_net_reach input N \<Longrightarrow> echo_net_inv (client_request input) N"
proof (induction rule: echo_net_reach.induct)
  case (start c)
  have "got (session_impl (conn_start new_connection)) = []" "put (session_impl (conn_start new_connection)) = []"
    by (simp_all add: conn_start_def start_operations_def new_connection_def new_session_def Let_def)
  with conn_reach.start client_start_ok [OF start] show ?case by (simp add: echo_net_inv_def echo_net_start_def)
qed (blast intro: echo_net_step_inv)

text \<open>What is still to be done for the reply to be shown; some step always brings it down.\<close>

definition echo_left :: "echo_net \<Rightarrow> nat" where
  "echo_left N = 4 * (length (ec_request (cli N)) - ec_sent (cli N)) + 3 * length (to_server N) +
     2 * length (write_buffer (session_impl (conn N))) + length (to_client N)"

lemma echo_net_parts:
  assumes "echo_net_inv request N"
  shows "take (ec_sent (cli N)) request = ec_reply (cli N) @ to_client N @ write_buffer (session_impl (conn N)) @ to_server N"
proof -
  have "session_ok (session_impl (conn N))"
    using assms conn_reach_inv by (auto simp: echo_net_inv_def conn_inv_def)
  with assms show ?thesis by (auto simp: echo_net_inv_def session_ok_def)
qed

lemma handle_open:
  "sock_open c \<Longrightarrow> sock_open (handle_read Ok bs Ok c)" "sock_open c \<Longrightarrow> sock_open (handle_write Ok n Ok c)"
  by (simp_all add: handle_read_def handle_write_def start_operations_def Let_def)

lemma handle_buffer:
  "bs \<noteq> [] \<Longrightarrow> write_buffer (session_impl (handle_read Ok bs Ok c)) = bs"
  "n \<noteq> 0 \<Longrightarrow> write_buffer (session_impl (handle_write Ok n Ok c)) = drop n (write_buffer (session_impl c))"
  by (simp_all add: handle_read_def handle_write_def do_read_def do_write_def start_operations_def Let_def)

lemma echo_progress:
  assumes inv: "echo_net_inv request N" and o: "sock_open (conn N)" and at: "ec_at (cli N) \<noteq> AtEnd"
  shows "\<exists>N'. echo_net_step N N' \<and>
    (ec_out (cli N') = shown request \<or> sock_open (conn N') \<and> ec_at (cli N') \<noteq> AtEnd \<and> echo_left N' < echo_left N)"
proof -
  let ?s = "session_impl (conn N)" and ?c = "cli N"
  have c: "conn_inv (conn N)" and k: "client_ok request ?c" using inv conn_reach_inv by (simp_all add: echo_net_inv_def)
  have parts: "length (ec_reply ?c) + length (to_client N) \<le> length request"
    using arg_cong [OF echo_net_parts [OF inv], of length] by simp
  consider (writing) "ec_at ?c = InWrite" | (complete) "ec_at ?c = InRead" "ec_reply ?c = request"
    | (in_reply) "ec_at ?c = InRead" "to_client N \<noteq> []" | (in_buffer) "write_buffer ?s \<noteq> []"
    | (in_flight) "write_buffer ?s = []" "to_server N \<noteq> []"
    using at k echo_net_parts [OF inv] by (cases "ec_at ?c") (fastforce simp: client_ok_def)+
  then show ?thesis
  proof cases
    case writing
    define n where "n = length request - ec_sent ?c"
    have n: "0 < n" "ec_sent ?c + n = length request" "ec_request ?c = request"
      using k writing by (simp_all add: n_def client_ok_def)
    define c' where "c' = ?c\<lparr>ec_sent := length request, ec_at := InRead\<rparr>"
    have "client_writes n ?c = (take n (drop (ec_sent ?c) request), c')"
      by (simp add: client_writes_def write_returns_def n c'_def)
    from echo_net_step.client_write [OF writing n(1) _ this] n have
      "echo_net_step N (N\<lparr>to_server := to_server N @ take n (drop (ec_sent ?c) request), cli := c'\<rparr>)" by simp
    moreover define N' where "N' = N\<lparr>to_server := to_server N @ take n (drop (ec_sent ?c) request), cli := c'\<rparr>"
    moreover have "echo_left N' < echo_left N" "sock_open (conn N')" "ec_at (cli N') \<noteq> AtEnd"
      using n o by (simp_all add: N'_def echo_left_def c'_def n_def)
    ultimately show ?thesis by blast
  next
    case complete
    have "echo_net_step N (N\<lparr>cli := client_shows ?c\<rparr>)"
      by (rule echo_net_step.client_show) (use complete k in \<open>simp_all add: client_ok_def\<close>)
    moreover have "ec_out (client_shows ?c) = shown request"
      using complete k by (simp add: client_ok_def client_shows_def shown_def)
    ultimately show ?thesis by (intro exI conjI) (assumption, simp)
  next
    case in_reply
    have "echo_net_step N (N\<lparr>to_client := [], cli := client_reads (to_client N) ?c\<rparr>)"
      by (rule echo_net_step.client_read) (use in_reply parts k in \<open>simp_all add: client_ok_def\<close>)
    moreover define N' where "N' = N\<lparr>to_client := [], cli := client_reads (to_client N) ?c\<rparr>"
    moreover have "echo_left N' < echo_left N" "sock_open (conn N')" "ec_at (cli N') \<noteq> AtEnd"
      using in_reply o by (simp_all add: N'_def echo_left_def client_reads_def)
    ultimately show ?thesis by blast
  next
    case in_buffer
    let ?n = "length (write_buffer ?s)"
    have w: "0 < write_waits (conn N)" using c o in_buffer by (auto simp: conn_inv_def session_ok_def want_write_def)
    from echo_net_step.server_writes [OF w o, of ?n Ok] in_buffer show ?thesis
      by (intro exI conjI) (assumption | simp add: o at echo_left_def handle_open handle_buffer)+
  next
    case in_flight
    define bs where "bs = take 128 (to_server N)"
    define rest where "rest = drop 128 (to_server N)"
    have l: "to_server N = bs @ rest" "length bs \<le> 128" "bs \<noteq> []"
      using in_flight(2) by (simp_all add: bs_def rest_def)
    have w: "0 < read_waits (conn N)"
      using c o in_flight by (cases "ses_state ?s") (auto simp: conn_inv_def session_ok_def want_read_def)
    define N' where "N' = N\<lparr>conn := handle_read Ok bs Ok (conn N), to_server := rest\<rparr>"
    have "echo_net_step N N'"
      unfolding N'_def by (rule echo_net_step.server_reads [OF w o l(1,2)]) (simp add: l(3))
    moreover have "sock_open (conn N')" "ec_at (cli N') \<noteq> AtEnd" using handle_open(1) [OF o] at by (simp_all add: N'_def)
    moreover have "echo_left N' < echo_left N"
      using handle_buffer(1) [OF l(3)] l in_flight(1) by (simp add: N'_def echo_left_def)
    ultimately show ?thesis by blast
  qed
qed

lemma echo_completes:
  assumes "echo_net_inv request N" "sock_open (conn N)" "ec_at (cli N) \<noteq> AtEnd"
  shows "\<exists>N'. echo_net_step\<^sup>*\<^sup>* N N' \<and> ec_out (cli N') = shown request"
  using assms
proof (induction "echo_left N" arbitrary: N rule: less_induct)
  case less
  obtain N1 where s: "echo_net_step N N1" "ec_out (cli N1) = shown request \<or>
      sock_open (conn N1) \<and> ec_at (cli N1) \<noteq> AtEnd \<and> echo_left N1 < echo_left N"
    using echo_progress [OF less.prems] by blast
  from s(2) show ?case
  proof (elim disjE conjE)
    assume "ec_out (cli N1) = shown request"
    with s(1) show ?thesis by blast
  next
    assume n: "sock_open (conn N1)" "ec_at (cli N1) \<noteq> AtEnd" "echo_left N1 < echo_left N"
    from less.hyps [OF n(3) echo_net_step_inv [OF s(1) less.prems(1)] n(1,2)] s(1) show ?thesis
      by (blast intro: converse_rtranclp_into_rtranclp)
  qed
qed

section \<open>Properties\<close>

text \<open>
  C27. The echo server program: in every reachable state exactly one accept is outstanding, and on every
  connection ever accepted the bytes written back and still in the buffer are the bytes read, in order,
  with exactly one wait outstanding while its socket is open.\<close>

theorem echo_server_serves:
  assumes "echo_reach s"
  shows "accepts s = 1 \<and> (\<forall>c \<in> set (connections s).
    got (session_impl c) = put (session_impl c) @ write_buffer (session_impl c) \<and>
    read_waits c + write_waits c = of_bool (sock_open c))"
proof -
  have "conn_inv c" if "c \<in> set (connections s)" for c
    using echo_reach_parts [OF assms] that conn_reach_inv by blast
  then have "got (session_impl c) = put (session_impl c) @ write_buffer (session_impl c) \<and>
      read_waits c + write_waits c = of_bool (sock_open c)" if "c \<in> set (connections s)" for c
    using that by (force simp: conn_inv_def session_ok_def state_cases)
  then show ?thesis using echo_reach_parts [OF assms] by blast
qed

lemma echo_server_serves_witness:
  "\<exists>s. echo_reach s \<and> connections s = [conn_start new_connection] \<and> accepts s = 1"
proof -
  obtain s0 where s0: "echo_main 2 None = Inr s0" "connections s0 = []" "0 < accepts s0"
    by (simp add: echo_main_def echo_server_start_def start_accept_def)
  from echo_reach.step [OF echo_reach.start [OF s0(1)] echo_step.accepting [OF s0(3), of Ok]] s0(2)
  have r: "echo_reach (handle_accept Ok s0)" "connections (handle_accept Ok s0) = [conn_start new_connection]"
    by (simp_all add: handle_accept_def start_accept_def Let_def)
  from echo_server_serves [OF r(1)] r show ?thesis by blast
qed

text \<open>
  C28. Echo end to end. The blocking client sends the line it read, at most 1023 bytes up to a NUL, in pieces
  of any size, and reads as many bytes back, while the server serves the connection; every operation may
  fail. Whenever the client is at its end it has shown exactly its request as the reply, or the text of an
  exception; and from every reachable state in which the socket of the server is open and the client not
  at its end, the two can go on until the client has shown its request.\<close>

theorem echo_reply:
  assumes "echo_net_reach input N"
  shows "(ec_at (cli N) = AtEnd \<longrightarrow>
      ec_out (cli N) = ''Enter message: Reply is: '' @ client_request input @ [newline] \<or>
      (\<exists>what. ec_out (cli N) = ''Enter message: Exception: '' @ what @ [newline])) \<and>
    (sock_open (conn N) \<and> ec_at (cli N) \<noteq> AtEnd \<longrightarrow>
      (\<exists>N'. echo_net_step\<^sup>*\<^sup>* N N' \<and>
         ec_out (cli N') = ''Enter message: Reply is: '' @ client_request input @ [newline]))"
proof -
  have inv: "echo_net_inv (client_request input) N" by (rule echo_net_reach_inv [OF assms])
  then have "client_ok (client_request input) (cli N)" by (simp add: echo_net_inv_def)
  then show ?thesis using echo_completes [OF inv] unfolding client_ok_def shown_def by auto
qed

lemma echo_reply_witness:
  "\<exists>N. echo_net_reach (''hello'' @ [newline]) N \<and> ec_out (cli N) = ''Enter message: Reply is: hello'' @ [newline]"
proof -
  have r: "client_request (''hello'' @ [newline]) = ''hello''" by code_simp
  obtain c where c: "client_start 3 None (''hello'' @ [newline]) = Inr c" by (simp add: client_start_def)
  have "ec_at c = InWrite" using c unfolding client_start_def r by (auto simp: write_returns_def)
  then have o: "sock_open (conn (echo_net_start c)) \<and> ec_at (cli (echo_net_start c)) \<noteq> AtEnd"
    by (simp add: echo_net_start_def conn_start_def start_operations_def new_connection_def Let_def)
  obtain N where N: "echo_net_step\<^sup>*\<^sup>* (echo_net_start c) N" "ec_out (cli N) = ''Enter message: Reply is: '' @ ''hello'' @ [newline]"
    using conjunct2 [OF echo_reply [OF echo_net_reach.start [OF c]]] o unfolding r by blast
  from N(1) have "echo_net_reach (''hello'' @ [newline]) N"
    by (induction rule: rtranclp_induct) (use c in \<open>auto intro: echo_net_reach.intros\<close>)
  with N(2) show ?thesis by (intro exI conjI) (assumption, simp)
qed

end
