(* ===== verification/Udp_Session.thy ===== *)
theory Udp_Session
  imports Udp_Programs
begin

text \<open>
  Project1/udpclient.c as a whole, its start-up and the loop of its main over the rounds of the theory
  of the datagram programs, and a session of it with UDPServer.c.
\<close>

section \<open>The client's loop\<close>

text \<open>
  What the user and the network do in a round: the address line and the message line that fgets stores
  (\<open>None\<close> for the address at the end of the input), the result of sendto, and of recvfrom.
\<close>

record udp_round =
  addr_line :: "string option"
  msg_line :: string
  sendto_result :: int
  recv_result :: "int \<times> string"

datatype round_result =
    UnknownHost
  | SendError string string                    \<comment> \<open>the address and the bytes of the failed sendto\<close>
  | Exchanged string string "string option"    \<comment> \<open>address, bytes sent, the text shown for the reply\<close>

text \<open>One round, with \<open>nbytes\<close> and \<open>str_target_addr\<close> as the round before left them. The old contents of
  \<open>str_addr_temp\<close> are overwritten before they are read.\<close>

definition client_round ::
  "(string \<Rightarrow> string option) \<Rightarrow> nat \<Rightarrow> string \<Rightarrow> udp_round \<Rightarrow> fault + round_result \<times> nat \<times> string"
where
  "client_round resolve nbytes target r =
     and_then (client_address resolve (addr_line r) target (replicate ADDR_LEN NUL)) (\<lambda>(addr, target1).
       case addr of
         None \<Rightarrow> Inr (UnknownHost, nbytes, target1)
       | Some a \<Rightarrow>
           and_then (client_message (msg_line r) nbytes) (\<lambda>(nbytes1, bytes).
             if client_sent_failed (sendto_result r) then Inr (SendError a bytes, nbytes1, target1)
             else and_then (client_reply (fst (recv_result r)) (snd (recv_result r))) (\<lambda>shown.
                    Inr (Exchanged a bytes shown, nbytes1, target1))))"

text \<open>The endless loop, for as many rounds as there is input.\<close>

fun client_loop ::
  "(string \<Rightarrow> string option) \<Rightarrow> nat \<Rightarrow> string \<Rightarrow> udp_round list \<Rightarrow> fault + round_result list"
where
  "client_loop resolve nbytes target [] = Inr []"
| "client_loop resolve nbytes target (r # rs) =
     and_then (client_round resolve nbytes target r) (\<lambda>(res, nbytes1, target1).
     and_then (client_loop resolve nbytes1 target1 rs) (\<lambda>ress. Inr (res # ress)))"

text \<open>
  Start-up: \<open>WSAStartup\<close> fills in a structure of \<open>wsadata\<close> bytes, the program hands it a block as large as
  a pointer; \<open>nCode\<close> and \<open>sock\<close> are the results of WSAStartup and socket. A SOCKET is unsigned, so that
  the test \<open>sock < 0\<close> is never true.
\<close>

definition udp_client_main ::
  "nat \<Rightarrow> nat \<Rightarrow> int \<Rightarrow> int \<Rightarrow> (string \<Rightarrow> string option) \<Rightarrow> udp_round list \<Rightarrow> fault + int \<times> string \<times> round_result list"
where
  "udp_client_main wsadata pointer nCode sock resolve rs =
     (if wsadata > pointer then Inl OutOfBounds
      else if nCode \<noteq> 0 then Inr (-1, ''Opps! WSA error '' @ dec_int nCode @ [CHR 0x0A], [])
      else if size_t sock < 0 then Inr (-1, ''socket error = '' @ dec_int (size_t sock) @ [CHR 0x0A], [])
      else and_then (client_loop resolve (BUF_LEN - 1) (replicate ADDR_LEN NUL) rs) (\<lambda>ress. Inr (0, [], ress)))"

section \<open>Addresses\<close>

text \<open>A dotted address as typed.\<close>

definition plain_address :: "string \<Rightarrow> bool" where
  "plain_address a \<longleftrightarrow> a \<noteq> [] \<and> length a \<le> 17 \<and> 48 \<le> (of_char (hd a) :: nat) \<and> (of_char (hd a) :: nat) \<le> 57 \<and>
     NUL \<notin> set a \<and> CHR 0x0A \<notin> set a"

text \<open>An empty line repeats the address before.\<close>

fun typed_line :: "string option \<Rightarrow> string" where
  "typed_line None = [CHR 0x0A]"
| "typed_line (Some a) = a @ [CHR 0x0A]"

fun used_address :: "string \<Rightarrow> string option \<Rightarrow> string" where
  "used_address prev None = prev"
| "used_address prev (Some a) = a"

definition target_ok :: "string \<Rightarrow> string \<Rightarrow> bool" where
  "target_ok prev target \<longleftrightarrow> length target = ADDR_LEN \<and> NUL \<in> set target \<and> cstr target = prev"

lemma cstr_shorter: "NUL \<in> set buf \<Longrightarrow> length (cstr buf) < length buf"
  by (induction buf) (auto simp: cstr_def)

lemma address_repeated:
  assumes "target_ok prev target"
  shows "\<exists>target1. client_address resolve (Some [CHR 0x0A]) target (replicate ADDR_LEN NUL) = Inr (Some prev, target1) \<and>
    target_ok prev target1"
proof -
  have l: "length prev < 20" "NUL \<notin> set prev" "length target = 20"
    using assms cstr_shorter [of target] cstr_no_nul [of target] by (auto simp: target_ok_def ADDR_LEN_def)
  define t where "t = prev @ [NUL] @ drop (length prev + 1) (replicate 20 NUL)"
  have t: "strcpy_into (replicate ADDR_LEN NUL) prev = Inr t" "cstr t = prev" "length t = 20"
    using l by (simp_all add: strcpy_into_def ADDR_LEN_def t_def)
  have n: "cstr ([CHR 0x0A] @ [NUL] @ drop 2 target) = [CHR 0x0A]" by (simp add: cstr_def NUL_def)
  have "strcpy_into target [CHR 0x0A] = Inr ([CHR 0x0A] @ [NUL] @ drop 2 target)"
    using l(3) by (simp add: strcpy_into_def numeral_2_eq_2)
  with n t assms have "client_address resolve (Some [CHR 0x0A]) target (replicate ADDR_LEN NUL) = Inr (Some prev, t)"
    by (simp add: client_address_def target_ok_def)
  moreover have "target_ok prev t" using t by (simp add: target_ok_def ADDR_LEN_def t_def)
  ultimately show ?thesis by blast
qed

lemma address_typed:
  assumes "target_ok prev target" "plain_address a"
  shows "\<exists>target1. client_address resolve (Some (a @ [CHR 0x0A])) target (replicate ADDR_LEN NUL) = Inr (Some a, target1) \<and>
    target_ok a target1"
proof -
  have l: "length prev < 20" "length target = 20" "cstr target = prev"
    using assms(1) cstr_shorter [of target] by (auto simp: target_ok_def ADDR_LEN_def)
  have a: "a \<noteq> []" "length a \<le> 17" "NUL \<notin> set a" "CHR 0x0A \<notin> set a"
    "48 \<le> (of_char (a ! 0) :: nat)" "(of_char (a ! 0) :: nat) \<le> 57"
    using assms(2) by (auto simp: plain_address_def hd_conv_nth)
  define t where "t = a @ [CHR 0x0A] @ [NUL] @ drop (length a + 2) target"
  have t: "strcpy_into target (a @ [CHR 0x0A]) = Inr t" "length t = 20"
    using a(2) l(2) by (simp_all add: strcpy_into_def t_def)
  have c: "cstr t = a @ [CHR 0x0A]"
    using cstr_append_nul [of "a @ [CHR 0x0A]" "drop (length a + 2) target"] a(3) by (simp add: t_def NUL_def)
  have k: "t ! length a = CHR 0x0A" by (simp add: t_def)
  define t1 where "t1 = t[length a := NUL]"
  have t1: "t1 = a @ NUL # [NUL] @ drop (length a + 2) target" by (simp add: t1_def t_def list_update_append)
  have c1: "cstr t1 = a" unfolding t1 by (rule cstr_append_nul [OF a(3)])
  have h: "t1 ! 0 = a ! 0" using a(1) by (simp add: t1 nth_append)
  have "hd (cstr t) \<noteq> CHR 0x0A" using a(1,4) by (cases a) (auto simp: c)
  moreover have "strcpy_into (replicate ADDR_LEN NUL) prev = Inr (prev @ [NUL] @ drop (length prev + 1) (replicate 20 NUL))"
    using l(1) by (simp add: strcpy_into_def ADDR_LEN_def)
  ultimately have "client_address resolve (Some (a @ [CHR 0x0A])) target (replicate ADDR_LEN NUL) = Inr (Some a, t1)"
    using t(1) c k c1 h a(5,6) l(3) by (simp add: client_address_def t1_def [symmetric] Let_def)
  moreover have "target_ok a t1" using c1 t(2) by (simp add: target_ok_def ADDR_LEN_def t1_def) (simp add: t1_def [symmetric] t1)
  ultimately show ?thesis by blast
qed

section \<open>A session with the server\<close>

text \<open>
  Each round's datagram reaches the server of UDPServer.c, whose reply is what the client receives. The
  input is a list of addresses (\<open>None\<close> for an empty line) and message lines as fgets stores them; the
  result is what the client did and what the server showed.
\<close>

fun udp_session ::
  "(string \<Rightarrow> string option) \<Rightarrow> nat \<Rightarrow> string \<Rightarrow> string \<Rightarrow> (string option \<times> string) list \<Rightarrow> fault + round_result list \<times> string"
where
  "udp_session resolve nbytes target buffer [] = Inr ([], [])"
| "udp_session resolve nbytes target buffer ((addr, line) # ins) =
     and_then (client_message line nbytes) (\<lambda>(n, bytes).
     and_then (server_round buffer (int (length bytes)) bytes) (\<lambda>(out, reply, buffer1).
     and_then (client_round resolve nbytes target \<lparr>addr_line = Some (typed_line addr), msg_line = line,
                 sendto_result = int (length bytes), recv_result = (int (length reply), reply)\<rparr>) (\<lambda>(res, nbytes1, target1).
     and_then (udp_session resolve nbytes1 target1 buffer1 ins) (\<lambda>(ress, outs). Inr (res # ress, out @ outs)))))"

fun addresses :: "string \<Rightarrow> (string option \<times> string) list \<Rightarrow> string list" where
  "addresses prev [] = []"
| "addresses prev ((addr, line) # ins) = used_address prev addr # addresses (used_address prev addr) ins"

definition padded :: "string \<Rightarrow> string" where
  "padded line = line @ replicate (99 - length line) NUL"

text \<open>One round of both.\<close>

lemma exchange_round:
  assumes "length line \<le> 98" "NUL \<notin> set line" "length buffer = BUF_LEN"
  shows "client_message line 99 = Inr (99, padded line) \<and> client_reply 99 (padded line) = Inr None \<and>
    (\<exists>b. server_round buffer 99 (padded line) = Inr (line @ [CHR 0x0A], padded line, b) \<and> length b = BUF_LEN)"
proof -
  have len: "length (padded line) = 99" using assms(1) by (simp add: padded_def)
  have ok: "recv_ok srv_nbytes 99 (padded line)" using len by (simp add: recv_ok_def srv_nbytes_def)
  obtain k where k: "99 - length line = Suc k" using assms(1) by (cases "99 - length line") auto
  have "cstr (padded line) = line" unfolding k padded_def using assms(2) by simp
  moreover have ne: "padded line \<noteq> []" using len by force
  ultimately obtain b where b: "server_round buffer 99 (padded line) = Inr (line @ [CHR 0x0A], take srv_nbytes b, b)"
    "length b = BUF_LEN" "b = padded line @ NUL # drop 100 buffer"
    using server_round_result [OF assms(3) ok] len by auto
  have "take srv_nbytes b = padded line" unfolding b(3) using len by (simp add: srv_nbytes_def)
  moreover have "client_reply 99 (padded line) = Inr None"
    by (simp add: client_reply_def size_t_def BUF_LEN_def Let_def)
  ultimately show ?thesis using client_message_result [OF assms(1,2)] b(1,2) by (auto simp: padded_def)
qed

definition address_ok :: "string option \<Rightarrow> bool" where
  "address_ok addr = (case addr of None \<Rightarrow> True | Some a \<Rightarrow> plain_address a)"

lemma address_entered:
  assumes "target_ok prev target" "address_ok addr"
  shows "\<exists>target1. client_address resolve (Some (typed_line addr)) target (replicate ADDR_LEN NUL) =
      Inr (Some (used_address prev addr), target1) \<and> target_ok (used_address prev addr) target1"
  using address_repeated [OF assms(1)] address_typed [OF assms(1)] assms(2)
  by (cases addr) (auto simp: address_ok_def)

lemma udp_session_result:
  assumes "target_ok prev target" "length buffer = BUF_LEN"
    and "\<forall>x \<in> set ins. address_ok (fst x) \<and> length (snd x) \<le> 98 \<and> NUL \<notin> set (snd x)"
  shows "udp_session resolve 99 target buffer ins =
    Inr (map2 (\<lambda>a line. Exchanged a (padded line) None) (addresses prev ins) (map snd ins),
         concat (map (\<lambda>line. line @ [CHR 0x0A]) (map snd ins)))"
  using assms
proof (induction ins arbitrary: prev target buffer)
  case Nil
  then show ?case by simp
next
  case (Cons x ins)
  obtain addr line where x: "x = (addr, line)" by (cases x)
  have p: "address_ok addr" "length line \<le> 98" "NUL \<notin> set line" using Cons.prems(3) x by auto
  note e = exchange_round [OF p(2,3) Cons.prems(2)]
  then obtain b where b: "server_round buffer 99 (padded line) = Inr (line @ [CHR 0x0A], padded line, b)" "length b = BUF_LEN"
    by blast
  obtain t where t: "client_address resolve (Some (typed_line addr)) target (replicate ADDR_LEN NUL) =
      Inr (Some (used_address prev addr), t)" "target_ok (used_address prev addr) t"
    using address_entered [OF Cons.prems(1) p(1)] by blast
  have l: "length (padded line) = 99" using p(2) by (simp add: padded_def)
  have "\<not> client_sent_failed 99" by (simp add: client_sent_failed_def size_t_def)
  then have r: "client_round resolve 99 target \<lparr>addr_line = Some (typed_line addr), msg_line = line,
      sendto_result = 99, recv_result = (99, padded line)\<rparr> = Inr (Exchanged (used_address prev addr) (padded line) None, 99, t)"
    using e t(1) by (simp add: client_round_def)
  have "udp_session resolve 99 t b ins = Inr (map2 (\<lambda>a line. Exchanged a (padded line) None)
      (addresses (used_address prev addr) ins) (map snd ins), concat (map (\<lambda>line. line @ [CHR 0x0A]) (map snd ins)))"
    by (rule Cons.IH [OF t(2) b(2)]) (use Cons.prems(3) in simp)
  then show ?case using e b(1) r l by (simp add: x)
qed

section \<open>Properties\<close>

text \<open>
  C39. The rounds of the client's loop against the server's: for any sequence of rounds, entered behind the client's
  start-up (which on Windows overruns the block for WSAStartup, see below), in each of which the address typed has 1 to 17
  characters and begins with a digit, or is an empty line, which repeats the last one (host names, which the
  client mangles, are left out), the message has, as fgets stores it, at most 98 characters and no NUL, and the datagram
  and the reply arrive: no round faults, every datagram goes to the address typed last with the message padded with
  NULs to 99 bytes, the server shows exactly the messages in order, and the client never shows a
  reply, since the server always returns 99 bytes.\<close>

theorem udp_session_shows:
  assumes "length buffer = BUF_LEN"
    and "\<forall>x \<in> set ins. address_ok (fst x) \<and> length (snd x) \<le> 98 \<and> NUL \<notin> set (snd x)"
  shows "udp_session resolve (BUF_LEN - 1) (replicate ADDR_LEN NUL) buffer ins =
    Inr (map2 (\<lambda>a line. Exchanged a (padded line) None) (addresses [] ins) (map snd ins),
         concat (map (\<lambda>line. line @ [CHR 0x0A]) (map snd ins)))"
proof -
  have "target_ok [] (replicate ADDR_LEN NUL)" by (simp add: target_ok_def ADDR_LEN_def cstr_def)
  from udp_session_result [OF this assms] show ?thesis by (simp add: BUF_LEN_def)
qed

lemma udp_session_shows_witness:
  "\<exists>ress. udp_session (\<lambda>_. None) (BUF_LEN - 1) (replicate ADDR_LEN NUL) old_buffer
      [(Some ''10.0.0.7'', ''hello''), (None, ''again'')] = Inr (ress, ''hello'' @ [CHR 0x0A] @ ''again'' @ [CHR 0x0A]) \<and>
     ress = [Exchanged ''10.0.0.7'' (padded ''hello'') None, Exchanged ''10.0.0.7'' (padded ''again'') None]"
proof -
  have p: "\<forall>x \<in> set [(Some ''10.0.0.7'', ''hello''), (None, ''again'')].
      address_ok (fst x) \<and> length (snd x) \<le> 98 \<and> NUL \<notin> set (snd x)"
    by (simp add: address_ok_def plain_address_def NUL_def)
  show ?thesis using udp_session_shows [OF old_buffer_length p, of "\<lambda>_. None"] by simp
qed

text \<open>With a structure larger than a pointer, as every Windows has it, the client is out of bounds before
  its loop.\<close>

lemma client_start_overruns: "pointer < wsadata \<Longrightarrow> udp_client_main wsadata pointer nCode sock resolve rs = Inl OutOfBounds"
  by (simp add: udp_client_main_def)

text \<open>A failed sendto (-1) is taken for a success.\<close>

lemma send_error_unnoticed:
  "client_round resolve n target r = Inr (res, m, t) \<Longrightarrow> sendto_result r = -1 \<Longrightarrow> res \<noteq> SendError a b"
  by (auto simp: client_round_def and_then_Inr_iff client_sent_failed_def size_t_def split: option.splits if_splits)

end
