(* ===== verification/Bounce_Program.thy ===== *)
theory Bounce_Program
  imports Bounce_Threads
begin

text \<open>
  Project1/MThread01.c, MThread02.c and Main01.c as wholes: main with its keyboard loop, the threads that
  draw, the screen they share and the mutex that guards it. The counters and the mutex that keeps the threads running are
  those of the theory of the threads, the rounds those of the theory of the screen; every console call
  is a step of its own, so that any interleaving the screen mutex allows is a run.
\<close>

section \<open>State\<close>

text \<open>Where a thread is: not begun; before the wait for the screen mutex; holding it, before and after
  reading the old cell, with the calls it has still to make; before the wait for the run mutex; in
  MThread02 before the test of the delete request and before clearing it; behind its loop; in MThread02 then at
  the steps of \<open>threadNr--\<close>, of the title and of the return; ended.\<close>

datatype place =
    Fresh | ForScreen bouncer | Locked bouncer | Painting bouncer "console_call list"
  | ForRun bouncer | ForCheck bouncer | ForReset bouncer | Exiting bouncer
  | ForLower bouncer int | ForTitle bouncer | ForName bouncer int | ForReturn bouncer | Exited

text \<open>Where main is: in its keyboard loop; there, after the key C of MThread02, before the wait for the
  screen mutex, behind it, and behind the clearing; in ShutDown at the same three places.\<close>

datatype stage = AtKeys | WantClear | Clearing | GiveBack | WantScreen | HasScreen | Cleared

record 'm bounce_prog =
  sys :: "'m bounce_sys"
  places :: "place list"
  screen_owner :: "nat option"         \<comment> \<open>hScreenMutex: main is 0, thread \<open>i\<close> is \<open>Suc i\<close>\<close>
  cells :: grid
  main_at :: stage

section \<open>Operations\<close>

text \<open>What the programs differ in.\<close>

record 'm console_ops =
  op_key :: "bool \<Rightarrow> int \<Rightarrow> 'm bounce_sys \<Rightarrow> fault + 'm bounce_sys"   \<comment> \<open>one round of the keyboard loop\<close>
  op_clears :: "int \<Rightarrow> bool"           \<comment> \<open>the keys that clear the screen\<close>
  op_act :: "nat \<Rightarrow> 'm bounce_sys \<Rightarrow> fault + 'm bounce_sys"   \<comment> \<open>a thread's next step behind its drawing\<close>
  op_start :: "int \<Rightarrow> int \<Rightarrow> int \<times> int \<times> int \<Rightarrow> int \<times> int \<times> int \<times> int \<Rightarrow> fault + int \<times> bouncer"
  op_round :: "int \<Rightarrow> int \<Rightarrow> grid \<Rightarrow> bouncer \<Rightarrow> fault + bouncer \<times> console_call list"
  op_clear :: "int \<Rightarrow> int \<Rightarrow> console_call"

text \<open>MThread01.\<close>

definition ClearScreen :: "int \<Rightarrow> int \<Rightarrow> console_call" where
  "ClearScreen W H = FillChar 0x20 (W * H) (0, 0)"

definition BounceProc_start ::
  "int \<Rightarrow> int \<Rightarrow> int \<times> int \<times> int \<Rightarrow> int \<times> int \<times> int \<times> int \<Rightarrow> fault + int \<times> bouncer"
where
  "BounceProc_start W H ids rs = bounce_start W H ids rs"

definition BounceProc_on :: "int \<Rightarrow> int \<Rightarrow> grid \<Rightarrow> bouncer \<Rightarrow> fault + bouncer \<times> console_call list" where
  "BounceProc_on W H g b = BounceProc_round W H (read_char W H g (old_at b)) (read_attr W H g (old_at b)) b"

definition act01 :: "'m mutex_api \<Rightarrow> nat \<Rightarrow> 'm bounce_sys \<Rightarrow> fault + 'm bounce_sys" where
  "act01 api i S =
     (case threads S ! i of Drawing \<Rightarrow> Inr (wait_run api i S) | Leaving \<Rightarrow> Inr (end_thread api i S) | _ \<Rightarrow> Inr S)"

definition mthread01 :: "'m mutex_api \<Rightarrow> 'm console_ops" where
  "mthread01 api = \<lparr>op_key = KbdFunc_key api, op_clears = (\<lambda>k. False), op_act = act01 api, op_start = BounceProc_start, op_round = BounceProc_on, op_clear = ClearScreen\<rparr>"

text \<open>Main01, which reads a character where it wants the attribute.\<close>

definition clearScreen_main :: "int \<Rightarrow> int \<Rightarrow> console_call" where
  "clearScreen_main W H = FillChar 0x20 (W * H) (0, 0)"

definition bounceProc_main_start ::
  "int \<Rightarrow> int \<Rightarrow> int \<times> int \<times> int \<Rightarrow> int \<times> int \<times> int \<times> int \<Rightarrow> fault + int \<times> bouncer"
where
  "bounceProc_main_start W H ids rs = bounce_start W H ids rs"

definition bounceProc_main_on :: "int \<Rightarrow> int \<Rightarrow> grid \<Rightarrow> bouncer \<Rightarrow> fault + bouncer \<times> console_call list" where
  "bounceProc_main_on W H g b = bounceProc_char_round W H (read_char W H g (old_at b)) (read_char W H g (old_at b)) b"

definition main01 :: "'m mutex_api \<Rightarrow> 'm console_ops" where
  "main01 api = \<lparr>op_key = readInput_main_key api, op_clears = (\<lambda>k. False), op_act = act01 api,
     op_start = bounceProc_main_start, op_round = bounceProc_main_on, op_clear = clearScreen_main\<rparr>"

text \<open>MThread02, whose key C clears the screen and whose threads look for a delete request.\<close>

definition bounceProc_on :: "int \<Rightarrow> int \<Rightarrow> grid \<Rightarrow> bouncer \<Rightarrow> fault + bouncer \<times> console_call list" where
  "bounceProc_on W H g b = bounceProc_round W H (read_char W H g (old_at b)) (read_char W H g (old_at b)) b"

definition key_c :: "int \<Rightarrow> bool" where
  "key_c k \<longleftrightarrow> to_lower k = 99"

definition mthread02 :: "'m mutex_api \<Rightarrow> 'm console_ops" where
  "mthread02 api = \<lparr>op_key = readInput_key api, op_clears = key_c, op_act = act02 api, op_start = bounce_start,
     op_round = bounceProc_on, op_clear = clearScreen\<rparr>"

text \<open>main up to its keyboard loop, on a screen that shows anything.\<close>

definition console_main :: "(int \<Rightarrow> int \<Rightarrow> console_call) \<Rightarrow> 'm bounce_sys \<Rightarrow> int \<Rightarrow> int \<Rightarrow> grid \<Rightarrow> 'm bounce_prog" where
  "console_main clear S W H g =
     \<lparr>sys = S, places = [], screen_owner = None, cells = show_call W H (clear W H) g, main_at = AtKeys\<rparr>"

definition MThread01_main :: "'m mutex_api \<Rightarrow> int \<Rightarrow> int \<Rightarrow> grid \<Rightarrow> fault + 'm bounce_prog" where
  "MThread01_main api W H g = and_then (bounce_main api WriteTitle) (\<lambda>S. Inr (console_main ClearScreen S W H g))"

definition Main01_main :: "'m mutex_api \<Rightarrow> int \<Rightarrow> int \<Rightarrow> grid \<Rightarrow> fault + 'm bounce_prog" where
  "Main01_main api W H g = and_then (bounce_main api writeTitle_main) (\<lambda>S. Inr (console_main clearScreen_main S W H g))"

definition MThread02_main :: "'m mutex_api \<Rightarrow> int \<Rightarrow> int \<Rightarrow> grid \<Rightarrow> fault + 'm bounce_prog" where
  "MThread02_main api W H g = and_then (bounce_main api writeTitle) (\<lambda>S. Inr (console_main clearScreen S W H g))"

text \<open>The round beeps after it released the screen.\<close>

fun is_beep :: "console_call \<Rightarrow> bool" where
  "is_beep (Beep f d) = True"
| "is_beep _ = False"

definition goto :: "nat \<Rightarrow> place \<Rightarrow> 'm bounce_prog \<Rightarrow> 'm bounce_prog" where
  "goto i p G = G\<lparr>places := (places G)[i := p]\<rparr>"

text \<open>The places at which a thread takes its next step on counters and run mutex, and where it is then.\<close>

fun acting :: "place \<Rightarrow> bouncer option" where
  "acting (ForRun b) = Some b"
| "acting (ForCheck b) = Some b"
| "acting (ForReset b) = Some b"
| "acting (Exiting b) = Some b"
| "acting (ForLower b v) = Some b"
| "acting (ForTitle b) = Some b"
| "acting (ForName b v) = Some b"
| "acting (ForReturn b) = Some b"
| "acting _ = None"

fun settle :: "bouncer \<Rightarrow> phase \<Rightarrow> place" where
  "settle b Drawing = ForScreen b"
| "settle b Checking = ForCheck b"
| "settle b Stopping = ForReset b"
| "settle b Leaving = Exiting b"
| "settle b (Lowering v) = ForLower b v"
| "settle b Titling = ForTitle b"
| "settle b (Naming v) = ForName b v"
| "settle b Returning = ForReturn b"
| "settle b Ended = Exited"

inductive console_step :: "'m console_ops \<Rightarrow> int \<Rightarrow> int \<Rightarrow> 'm bounce_prog \<Rightarrow> 'm bounce_prog \<Rightarrow> bool" for ops W H where
  key: "main_at G = AtKeys \<Longrightarrow> op_key ops started k (sys G) = Inr S' \<Longrightarrow>
    console_step ops W H G (G\<lparr>sys := S',
      places := places G @ replicate (length (threads S') - length (threads (sys G))) Fresh,
      main_at := (if quitting S' then WantScreen else if op_clears ops k then WantClear else AtKeys)\<rparr>)"
| take_clear: "main_at G = WantClear \<Longrightarrow> screen_owner G = None \<Longrightarrow>
    console_step ops W H G (G\<lparr>screen_owner := Some 0, main_at := Clearing\<rparr>)"
| clear_key: "main_at G = Clearing \<Longrightarrow>
    console_step ops W H G (G\<lparr>cells := show_call W H (op_clear ops W H) (cells G), main_at := GiveBack\<rparr>)"
| give_back: "main_at G = GiveBack \<Longrightarrow> console_step ops W H G (G\<lparr>screen_owner := None, main_at := AtKeys\<rparr>)"
| take_screen: "main_at G = WantScreen \<Longrightarrow> screen_owner G = None \<Longrightarrow>
    console_step ops W H G (G\<lparr>screen_owner := Some 0, main_at := HasScreen\<rparr>)"
| clear_screen: "main_at G = HasScreen \<Longrightarrow>
    console_step ops W H G (G\<lparr>cells := show_call W H (op_clear ops W H) (cells G), main_at := Cleared\<rparr>)"
| begins: "i < length (places G) \<Longrightarrow> places G ! i = Fresh \<Longrightarrow> 0 \<le> r1 \<Longrightarrow> 0 \<le> r2 \<Longrightarrow> 0 \<le> r3 \<Longrightarrow> 0 \<le> r4 \<Longrightarrow>
    op_start ops W H ids (r1, r2, r3, r4) = Inr (seed, b) \<Longrightarrow> console_step ops W H G (goto i (ForScreen b) G)"
| locks: "i < length (places G) \<Longrightarrow> places G ! i = ForScreen b \<Longrightarrow> screen_owner G = None \<Longrightarrow>
    console_step ops W H G (goto i (Locked b) (G\<lparr>screen_owner := Some (Suc i)\<rparr>))"
| looks: "i < length (places G) \<Longrightarrow> places G ! i = Locked b \<Longrightarrow>
    op_round ops W H (cells G) b = Inr (b', calls) \<Longrightarrow>
    console_step ops W H G (goto i (Painting b' (filter (\<lambda>c. \<not> is_beep c) calls)) G)"
| paints: "i < length (places G) \<Longrightarrow> places G ! i = Painting b (c # cs) \<Longrightarrow>
    console_step ops W H G (goto i (Painting b cs) (G\<lparr>cells := show_call W H c (cells G)\<rparr>))"
| unlocks: "i < length (places G) \<Longrightarrow> places G ! i = Painting b [] \<Longrightarrow>
    console_step ops W H G (goto i (ForRun b) (G\<lparr>screen_owner := None\<rparr>))"
| acts: "i < length (places G) \<Longrightarrow> acting (places G ! i) = Some b \<Longrightarrow> op_act ops i (sys G) = Inr S' \<Longrightarrow>
    console_step ops W H G (goto i (settle b (threads S' ! i)) (G\<lparr>sys := S'\<rparr>))"

inductive console_reach ::
  "('m mutex_api \<Rightarrow> int \<Rightarrow> int \<Rightarrow> grid \<Rightarrow> fault + 'm bounce_prog) \<Rightarrow> 'm console_ops \<Rightarrow> 'm mutex_api \<Rightarrow> int \<Rightarrow> int \<Rightarrow>
   'm bounce_prog \<Rightarrow> bool" for main ops api W H where
  start: "main api W H g = Inr G \<Longrightarrow> console_reach main ops api W H G"
| step: "console_reach main ops api W H G \<Longrightarrow> console_step ops W H G G' \<Longrightarrow> console_reach main ops api W H G'"

section \<open>The invariant\<close>

fun phase_of :: "place \<Rightarrow> phase" where
  "phase_of (ForCheck b) = Checking"
| "phase_of (ForReset b) = Stopping"
| "phase_of (Exiting b) = Leaving"
| "phase_of (ForLower b v) = Lowering v"
| "phase_of (ForTitle b) = Titling"
| "phase_of (ForName b v) = Naming v"
| "phase_of (ForReturn b) = Returning"
| "phase_of Exited = Ended"
| "phase_of _ = Drawing"

fun inside :: "place \<Rightarrow> bool" where
  "inside (Locked b) = True"
| "inside (Painting b cs) = True"
| "inside _ = False"

text \<open>The old cell of a thread is on the screen or was read before.\<close>

definition seen :: "int \<Rightarrow> int \<Rightarrow> bouncer \<Rightarrow> bool" where
  "seen W H b \<longleftrightarrow> on_screen W H (old_at b) \<or> (old_cell b \<noteq> None \<and> old_attr b \<noteq> None)"

type_synonym fitness = "int \<Rightarrow> int \<Rightarrow> bouncer \<Rightarrow> bool"

fun place_ok :: "fitness \<Rightarrow> int \<Rightarrow> int \<Rightarrow> place \<Rightarrow> bool" where
  "place_ok fit W H (ForScreen b) = fit W H b"
| "place_ok fit W H (Locked b) = fit W H b"
| "place_ok fit W H (Painting b cs) = (fit W H b \<and> length cs \<le> 3)"
| "place_ok fit W H (ForRun b) = fit W H b"
| "place_ok fit W H (ForCheck b) = fit W H b"
| "place_ok fit W H (ForReset b) = fit W H b"
| "place_ok fit W H (Exiting b) = fit W H b"
| "place_ok fit W H (ForLower b v) = fit W H b"
| "place_ok fit W H (ForTitle b) = fit W H b"
| "place_ok fit W H (ForName b v) = fit W H b"
| "place_ok fit W H (ForReturn b) = fit W H b"
| "place_ok fit W H _ = True"

text \<open>Where main is between locking and releasing the screen, and where it has cleared it.\<close>

definition holds_screen :: "stage \<Rightarrow> bool" where
  "holds_screen m \<longleftrightarrow> m \<in> {Clearing, GiveBack, HasScreen, Cleared}"

definition has_cleared :: "stage \<Rightarrow> bool" where
  "has_cleared m \<longleftrightarrow> m \<in> {GiveBack, Cleared}"

definition blank :: "int \<Rightarrow> int \<Rightarrow> grid \<Rightarrow> bool" where
  "blank W H g \<longleftrightarrow> (\<forall>p. on_screen W H p \<longrightarrow> fst (g p) = blank_cell)"

text \<open>Each thread's place fits its phase, and a thread is inside exactly when it holds the screen mutex.\<close>

definition threads_fit :: "fitness \<Rightarrow> int \<Rightarrow> int \<Rightarrow> 'm bounce_prog \<Rightarrow> bool" where
  "threads_fit fit W H G \<longleftrightarrow> map phase_of (places G) = threads (sys G) \<and> (\<forall>p \<in> set (places G). place_ok fit W H p) \<and>
     (\<forall>i < length (places G). inside (places G ! i) \<longleftrightarrow> screen_owner G = Some (Suc i))"

definition main_fits :: "int \<Rightarrow> int \<Rightarrow> 'm bounce_prog \<Rightarrow> bool" where
  "main_fits W H G \<longleftrightarrow> (screen_owner G = Some 0 \<longleftrightarrow> holds_screen (main_at G)) \<and>
     (\<forall>i. screen_owner G = Some (Suc i) \<longrightarrow> i < length (places G)) \<and>
     (main_at G \<in> {AtKeys, WantClear, Clearing, GiveBack} \<longleftrightarrow> \<not> quitting (sys G)) \<and>
     (has_cleared (main_at G) \<longrightarrow> blank W H (cells G))"

lemmas stages = holds_screen_def has_cleared_def

definition prog_inv :: "('m bounce_sys \<Rightarrow> bool) \<Rightarrow> fitness \<Rightarrow> int \<Rightarrow> int \<Rightarrow> 'm bounce_prog \<Rightarrow> bool" where
  "prog_inv ok fit W H G \<longleftrightarrow> ok (sys G) \<and> threads_fit fit W H G \<and> main_fits W H G"

lemma settle_facts [simp]:
  "phase_of (settle b ph) = ph" "\<not> inside (settle b ph)" "fit W H b \<Longrightarrow> place_ok fit W H (settle b ph)"
  by (cases ph; simp)+

lemma acting_facts: "acting p = Some b \<Longrightarrow> \<not> inside p \<and> (place_ok fit W H p \<longrightarrow> fit W H b)"
  by (cases p) auto

lemma goto_sel [simp]:
  "sys (goto i p G) = sys G" "places (goto i p G) = (places G)[i := p]" "screen_owner (goto i p G) = screen_owner G"
  "cells (goto i p G) = cells G" "main_at (goto i p G) = main_at G"
  by (simp_all add: goto_def)

lemma threads_fit_goto:
  assumes "threads_fit fit W H G" "i < length (places G)" "place_ok fit W H p"
    and "places G' = (places G)[i := p]" "threads (sys G') = (threads (sys G))[i := phase_of p]"
    and "inside p \<longleftrightarrow> screen_owner G' = Some (Suc i)"
    and "\<And>j. j \<noteq> i \<Longrightarrow> screen_owner G' = Some (Suc j) \<longleftrightarrow> screen_owner G = Some (Suc j)"
  shows "threads_fit fit W H G'"
  unfolding threads_fit_def
proof (intro conjI allI impI)
  show "map phase_of (places G') = threads (sys G')" using assms(1,4,5) by (simp add: threads_fit_def map_update)
  show "\<forall>q \<in> set (places G'). place_ok fit W H q"
    using assms(1,3,4) set_update_subset_insert [of "places G" i p] by (auto simp: threads_fit_def)
  fix j assume "j < length (places G')"
  then show "inside (places G' ! j) \<longleftrightarrow> screen_owner G' = Some (Suc j)"
    using assms by (cases "j = i") (auto simp: threads_fit_def)
qed

text \<open>A thread moves from one place to another of the same phase, under the screen mutex or onto it.\<close>

definition moves :: "fitness \<Rightarrow> int \<Rightarrow> int \<Rightarrow> nat \<Rightarrow> place \<Rightarrow> 'm bounce_prog \<Rightarrow> 'm bounce_prog \<Rightarrow> bool" where
  "moves fit W H i p G G' \<longleftrightarrow> i < length (places G) \<and> place_ok fit W H p \<and> places G' = (places G)[i := p] \<and> main_at G' = main_at G \<and>
     screen_owner G' = (if inside p then Some (Suc i) else if inside (places G ! i) then None else screen_owner G) \<and>
     (screen_owner G = None \<or> inside (places G ! i) \<or> \<not> inside p \<and> cells G' = cells G)"

lemma inside_owner:
  "threads_fit fit W H G \<Longrightarrow> i < length (places G) \<Longrightarrow> inside (places G ! i) \<longleftrightarrow> screen_owner G = Some (Suc i)"
  by (simp add: threads_fit_def)

lemma moves_fit:
  assumes t: "threads_fit fit W H G" and m: "main_fits W H G" and mv: "moves fit W H i p G G'"
    and s: "threads (sys G') = (threads (sys G))[i := phase_of p]" "quitting (sys G') = quitting (sys G)"
  shows "threads_fit fit W H G' \<and> main_fits W H G'"
proof
  have i: "i < length (places G)" using mv by (simp add: moves_def)
  note o = inside_owner [OF t i]
  show "threads_fit fit W H G'"
    by (rule threads_fit_goto [OF t i, of p]) (use mv s(1) o in \<open>auto simp: moves_def split: if_splits\<close>)
  have c: "cells G' = cells G" if "has_cleared (main_at G)"
    using mv m o that by (auto simp: moves_def main_fits_def stages)
  show "main_fits W H G'"
    using mv m o s(2) c by (auto simp: moves_def main_fits_def split: if_splits)
qed

lemma places_threads:
  assumes "prog_inv ok fit W H G" "i < length (places G)"
  shows "i < length (threads (sys G))" "threads (sys G) ! i = phase_of (places G ! i)" "place_ok fit W H (places G ! i)"
    "inside (places G ! i) \<longleftrightarrow> screen_owner G = Some (Suc i)"
  using assms unfolding prog_inv_def threads_fit_def by (metis length_map, metis nth_map, simp_all)

text \<open>How far a thread is from its end, and a step that brings one nearer.\<close>

fun rest_of :: "place \<Rightarrow> nat" where
  "rest_of Fresh = 9"
| "rest_of (ForScreen b) = 8"
| "rest_of (Locked b) = 7"
| "rest_of (Painting b cs) = 3 + length cs"
| "rest_of (Exiting b) = 1"
| "rest_of Exited = 0"
| "rest_of p = 2"

definition nearer :: "'m console_ops \<Rightarrow> int \<Rightarrow> int \<Rightarrow> 'm bounce_prog \<Rightarrow> 'm bounce_prog \<Rightarrow> bool" where
  "nearer ops W H G G' \<longleftrightarrow> console_step ops W H G G' \<and> main_at G' = main_at G \<and>
     sum_list (map rest_of (places G')) < sum_list (map rest_of (places G))"

text \<open>A thread that waits for the screen when main has it.\<close>

definition waiting :: "place \<Rightarrow> bool" where
  "waiting p \<longleftrightarrow> p = Fresh \<or> (\<exists>b. p = ForScreen b)"

definition shut_out :: "'m bounce_prog \<Rightarrow> nat \<Rightarrow> bool" where
  "shut_out G i \<longleftrightarrow> screen_owner G = Some 0 \<and> main_at G \<in> {HasScreen, Cleared} \<and> i < length (places G) \<and> waiting (places G ! i)"

section \<open>The interface of the programs\<close>

text \<open>What every program promises: \<open>ok\<close> is an invariant of the counters and of the run mutex under keys and
  threads, \<open>fit\<close> one of what a thread remembers under its rounds; keys only add threads, a thread's step changes only
  its own phase; a round paints at most three cells; and clearing blanks the screen.\<close>

locale console_screen =
  fixes ops :: "'m console_ops" and ok :: "'m bounce_sys \<Rightarrow> bool" and fit :: fitness
  assumes key_ok: "ok S \<Longrightarrow> \<not> quitting S \<Longrightarrow> op_key ops started k S = Inr S' \<Longrightarrow> ok S'"
    and act_ok: "ok S \<Longrightarrow> op_act ops i S = Inr S' \<Longrightarrow> i < length (threads S) \<Longrightarrow> ok S'"
    and act_frame: "ok S \<Longrightarrow> op_act ops i S = Inr S' \<Longrightarrow> i < length (threads S) \<Longrightarrow>
      threads S' = (threads S)[i := threads S' ! i] \<and> quitting S' = quitting S"
    and key_threads: "op_key ops started k S = Inr S' \<Longrightarrow> \<exists>n. threads S' = threads S @ replicate n Drawing"
    and start_fit: "0 < W \<Longrightarrow> 0 < H \<Longrightarrow> op_start ops W H ids rs = Inr (seed, b) \<Longrightarrow> fit W H b"
    and round_fit: "fit W H b \<Longrightarrow> op_round ops W H g b = Inr (b', calls) \<Longrightarrow> fit W H b' \<and>
      length (filter (\<lambda>c. \<not> is_beep c) calls) \<le> 3"
    and clears: "0 < W \<Longrightarrow> blank W H (show_call W H (op_clear ops W H) g)"
begin

lemma key_fit:
  assumes "threads_fit fit W H G" "main_fits W H G" "op_key ops started k (sys G) = Inr S'"
    "main_at G = AtKeys"
    "G' = G\<lparr>sys := S', places := places G @ replicate (length (threads S') - length (threads (sys G))) Fresh,
      main_at := (if quitting S' then WantScreen else if op_clears ops k then WantClear else AtKeys)\<rparr>"
  shows "threads_fit fit W H G' \<and> main_fits W H G'"
proof -
  obtain n where n: "threads S' = threads (sys G) @ replicate n Drawing" using key_threads [OF assms(3)] by blast
  have g: "places G' = places G @ replicate n Fresh" "sys G' = S'" "screen_owner G' = screen_owner G"
      "main_at G' = (if quitting S' then WantScreen else if op_clears ops k then WantClear else AtKeys)"
      "cells G' = cells G"
    using n by (simp_all add: assms(5))
  have o: "screen_owner G \<noteq> Some 0" "\<And>i. screen_owner G = Some (Suc i) \<Longrightarrow> i < length (places G)"
    using assms(2,4) by (auto simp: main_fits_def stages)
  have "inside (places G' ! j) \<longleftrightarrow> screen_owner G' = Some (Suc j)" if j: "j < length (places G')" for j
  proof (cases "j < length (places G)")
    case True
    then show ?thesis using assms(1) by (simp add: threads_fit_def g nth_append)
  next
    case False
    then have "places G' ! j = Fresh" using j by (simp add: g nth_append)
    moreover have "screen_owner G' \<noteq> Some (Suc j)" using False o(2) g(3) by auto
    ultimately show ?thesis by simp
  qed
  moreover have "map phase_of (places G') = threads S'" using assms(1) n by (simp add: threads_fit_def g)
  moreover have "\<forall>p \<in> set (places G'). place_ok fit W H p" using assms(1) by (auto simp: threads_fit_def g)
  ultimately have "threads_fit fit W H G'" by (simp add: threads_fit_def g)
  moreover have "main_fits W H G'" using o by (auto simp: main_fits_def g stages trans_less_add1)
  ultimately show ?thesis ..
qed

lemma moves_inv:
  assumes "prog_inv ok fit W H G" "moves fit W H i p G G'" "phase_of p = phase_of (places G ! i)" "sys G' = sys G"
  shows "prog_inv ok fit W H G'"
proof -
  have i: "i < length (places G)" using assms(2) by (simp add: moves_def)
  have t: "threads_fit fit W H G" "main_fits W H G" using assms(1) by (simp_all add: prog_inv_def)
  have "threads (sys G) ! i = phase_of p" using t(1) i assms(3) by (metis nth_map threads_fit_def)
  then have "threads (sys G') = (threads (sys G))[i := phase_of p]" unfolding assms(4) by (metis list_update_id)
  from moves_fit [OF t assms(2) this] assms(1,4) show ?thesis by (simp add: prog_inv_def)
qed

lemma step_inv:
  assumes W: "0 < W" "0 < H" and s: "console_step ops W H G G'" and inv: "prog_inv ok fit W H G"
  shows "prog_inv ok fit W H G'"
  using s
proof (cases rule: console_step.cases)
  case (key started k S')
  have b: "ok (sys G)" and t: "threads_fit fit W H G" "main_fits W H G"
    using inv by (simp_all add: prog_inv_def)
  have "ok S'" using key_ok [OF b _ key(3)] t(2) key(2) by (auto simp: main_fits_def stages)
  with key_fit [OF t key(3,2,1)] key(1) show ?thesis by (simp add: prog_inv_def)
next
  case take_clear
  with inv show ?thesis by (auto simp: prog_inv_def threads_fit_def main_fits_def stages)
next
  case clear_key
  with inv clears [OF W(1)] show ?thesis by (auto simp: prog_inv_def threads_fit_def main_fits_def stages)
next
  case give_back
  with inv show ?thesis by (auto simp: prog_inv_def threads_fit_def main_fits_def stages)
next
  case take_screen
  with inv show ?thesis by (auto simp: prog_inv_def threads_fit_def main_fits_def stages)
next
  case clear_screen
  with inv clears [OF W(1)] show ?thesis by (auto simp: prog_inv_def threads_fit_def main_fits_def stages)
next
  case (begins i r1 r2 r3 r4 ids seed b)
  have "moves fit W H i (ForScreen b) G G'" using begins(1-3) start_fit [OF W begins(8)] by (simp add: moves_def)
  from moves_inv [OF inv this] begins(1,3) show ?thesis by simp
next
  case (locks i b)
  have "moves fit W H i (Locked b) G G'" using locks places_threads(3) [OF inv locks(2)] by (simp add: moves_def)
  from moves_inv [OF inv this] locks(1,3) show ?thesis by simp
next
  case (looks i b b' calls)
  have "moves fit W H i (Painting b' (filter (\<lambda>c. \<not> is_beep c) calls)) G G'"
    using looks places_threads(3,4) [OF inv looks(2)] round_fit [OF _ looks(4)] by (auto simp: moves_def)
  from moves_inv [OF inv this] looks(1,3) show ?thesis by simp
next
  case (paints i b c cs)
  have "moves fit W H i (Painting b cs) G G'" using paints places_threads(3,4) [OF inv paints(2)] by (simp add: moves_def)
  from moves_inv [OF inv this] paints(1,3) show ?thesis by simp
next
  case (unlocks i b)
  have "moves fit W H i (ForRun b) G G'" using unlocks places_threads(3) [OF inv unlocks(2)] by (simp add: moves_def)
  from moves_inv [OF inv this] unlocks(1,3) show ?thesis by simp
next
  case (acts i b S')
  note d = places_threads [OF inv acts(2)]
  have o: "ok (sys G)" and t: "threads_fit fit W H G" "main_fits W H G" using inv by (simp_all add: prog_inv_def)
  note f = act_frame [OF o acts(4) d(1)]
  have g: "sys G' = S'" by (simp add: acts(1))
  have m: "moves fit W H i (settle b (threads S' ! i)) G G'"
    using acts(1,2) d(3) acting_facts [OF acts(3), of fit W H] by (simp add: moves_def)
  have "threads (sys G') = (threads (sys G))[i := phase_of (settle b (threads S' ! i))]" "quitting (sys G') = quitting (sys G)"
    using f unfolding g settle_facts(1) by blast+
  from moves_fit [OF t m this] act_ok [OF o acts(4) d(1)] show ?thesis by (simp add: prog_inv_def g)
qed

lemma shut_out_step:
  assumes "prog_inv ok fit W H G" "shut_out G i" "console_step ops W H G G'"
  shows "shut_out G' i"
  using assms(3)
proof (cases rule: console_step.cases)
  case (unlocks j b)
  then have "screen_owner G = Some (Suc j)" using places_threads(4) [OF assms(1) unlocks(2)] by simp
  with assms(2) show ?thesis by (simp add: shut_out_def)
next
  case (begins j r1 r2 r3 r4 ids seed b)
  with assms(2) show ?thesis by (cases "j = i") (auto simp: shut_out_def waiting_def)
next
  case (looks j b b' calls)
  with assms(2) show ?thesis by (cases "j = i") (auto simp: shut_out_def waiting_def)
next
  case (paints j b c cs)
  with assms(2) show ?thesis by (cases "j = i") (auto simp: shut_out_def waiting_def)
next
  case (acts j b S')
  with assms(2) show ?thesis by (cases "j = i") (auto simp: shut_out_def waiting_def)
qed (use assms(2) in \<open>auto simp: shut_out_def\<close>)

lemma shut_out_steps:
  assumes "(console_step ops W H)\<^sup>*\<^sup>* G G'" "prog_inv ok fit W H G" "shut_out G i" "0 < W" "0 < H"
  shows "shut_out G' i \<and> prog_inv ok fit W H G'"
  using assms(1-3)
proof (induction rule: rtranclp_induct)
  case (step G1 G2)
  with shut_out_step [of W H G1 i G2] step_inv [OF assms(4,5) step.hyps(2)] show ?case by blast
qed simp

end

text \<open>A program whose rounds never fault, whose threads follow the protocol of the run mutex, and in which that
  mutex goes round once main is in ShutDown.\<close>

locale console_program = console_screen +
  fixes api :: "'a mutex_api"
  assumes acts01: "op_act ops = act01 api"
    and start_runs: "0 < W \<Longrightarrow> W < 2 ^ 15 - 4 \<Longrightarrow> 0 < H \<Longrightarrow> H < 2 ^ 15 - 4 \<Longrightarrow>
      \<exists>seed b. op_start ops W H (0, 0, 0) (0, 0, 0, 0) = Inr (seed, b)"
    and round_runs: "fit W H b \<Longrightarrow> \<exists>b' calls. op_round ops W H g b = Inr (b', calls)"
    and ends: "mutex_ok api \<Longrightarrow> ok S \<Longrightarrow> quitting S \<Longrightarrow> threads S = [] \<or> chain_ok api S"
begin

lemma nearerI:
  assumes "console_step ops W H G G'" "i < length (places G)" "places G' = (places G)[i := p]" "main_at G' = main_at G"
    "rest_of p < rest_of (places G ! i)"
  shows "\<exists>G'. nearer ops W H G G'"
  using assms sum_list_update_less [OF assms(2,5)] by (auto simp: nearer_def)

lemma inside_nearer:
  assumes inv: "prog_inv ok fit W H G" and i: "i < length (places G)" "inside (places G ! i)"
  shows "\<exists>G'. nearer ops W H G G'"
proof (cases "places G ! i")
  case (Locked b)
  then have "fit W H b" using places_threads(3) [OF inv i(1)] by simp
  then obtain b' calls where
    r: "op_round ops W H (cells G) b = Inr (b', calls)"
      "length (filter (\<lambda>c. \<not> is_beep c) calls) \<le> 3"
    using round_runs [of W H b "cells G"] round_fit by blast
  from console_step.looks [OF i(1) Locked r(1)] show ?thesis
    by (rule nearerI [OF _ i(1), where p = "Painting b' (filter (\<lambda>c. \<not> is_beep c) calls)"])
      (use r(2) Locked in simp_all)
next
  case (Painting b cs)
  show ?thesis
  proof (cases cs)
    case Nil
    with Painting have p: "places G ! i = Painting b []" by simp
    from console_step.unlocks [OF i(1) p] show ?thesis
      by (rule nearerI [OF _ i(1), where p = "ForRun b"]) (use p in simp_all)
  next
    case (Cons c cs')
    with Painting have p: "places G ! i = Painting b (c # cs')" by simp
    from console_step.paints [OF i(1) p] show ?thesis
      by (rule nearerI [OF _ i(1), where p = "Painting b cs'"]) (use p in simp_all)
  qed
qed (use i(2) in simp_all)

lemma chain_phases:
  "chain_ok api S \<Longrightarrow> i < length (threads S) \<Longrightarrow> threads S ! i \<in> {Drawing, Leaving, Ended}"
  unfolding chain_ok_def by (auto dest: nth_mem)

text \<open>When no thread is inside and none is leaving, both mutexes are free and any thread can go on.\<close>

lemma outside_nearer:
  assumes m: "mutex_ok api" and W: "0 < W" "W < 2 ^ 15 - 4" and H: "0 < H" "H < 2 ^ 15 - 4"
    and inv: "prog_inv ok fit W H G" and at: "main_at G = WantScreen"
    and out: "\<forall>p \<in> set (places G). \<not> inside p \<and> phase_of p \<noteq> Leaving"
    and i: "i < length (places G)" "places G ! i \<noteq> Exited"
  shows "\<exists>G'. nearer ops W H G G'"
proof -
  have "quitting (sys G)" using inv at by (auto simp: prog_inv_def main_fits_def)
  moreover have l: "i < length (threads (sys G))" using places_threads(1) [OF inv i(1)] .
  ultimately have c: "chain_ok api (sys G)"
    using ends [OF m, of "sys G"] inv by (auto simp: prog_inv_def)
  note ph = chain_phases [OF c l, unfolded places_threads(2) [OF inv i(1)]]
  show ?thesis
proof (cases "places G ! i")
  case Fresh
  obtain s b where b: "op_start ops W H (0, 0, 0) (0, 0, 0, 0) = Inr (s, b)" using start_runs [OF W H] by blast
  have "console_step ops W H G (goto i (ForScreen b) G)"
    by (rule console_step.begins [OF i(1) Fresh _ _ _ _ b]) simp_all
  then show ?thesis by (rule nearerI [OF _ i(1), where p = "ForScreen b"]) (use Fresh in simp_all)
next
  case (ForScreen b)
  have "screen_owner G = None"
  proof (cases "screen_owner G")
    case (Some n)
    then show ?thesis using inv at out
      by (cases n) (auto simp: prog_inv_def main_fits_def threads_fit_def stages)
  qed
  from console_step.locks [OF i(1) ForScreen this] show ?thesis
    by (rule nearerI [OF _ i(1), where p = "Locked b"]) (use ForScreen in simp_all)
next
  case (ForRun b)
  have "Leaving \<notin> set (threads (sys G))"
  proof
    assume "Leaving \<in> set (threads (sys G))"
    then obtain p where "p \<in> set (places G)" "phase_of p = Leaving"
      using inv unfolding prog_inv_def threads_fit_def by (metis (no_types, lifting) image_iff set_map)
    with out show False by blast
  qed
  then have "mx_owner api (run_mutex (sys G)) = None" using c unfolding chain_ok_def by (metis nth_mem)
  then have w: "threads (wait_run api i (sys G)) ! i = Leaving" using chain_wait_free(1) [OF m _ l] l by simp
  have "op_act ops i (sys G) = Inr (wait_run api i (sys G))"
    using places_threads(2) [OF inv i(1)] ForRun by (simp add: acts01 act01_def)
  then have "console_step ops W H G (goto i (Exiting b) (G\<lparr>sys := wait_run api i (sys G)\<rparr>))"
    using console_step.acts [OF i(1), of b ops "wait_run api i (sys G)" W H] ForRun w by simp
  then show ?thesis by (rule nearerI [OF _ i(1), where p = "Exiting b"]) (use ForRun in simp_all)
qed (use i out ph nth_mem [OF i(1)] in auto)
qed

lemma all_can_exit:
  assumes "mutex_ok api" "0 < W" "W < 2 ^ 15 - 4" "0 < H" "H < 2 ^ 15 - 4"
    and "prog_inv ok fit W H G" "main_at G = WantScreen"
  shows "\<exists>G'. (console_step ops W H)\<^sup>*\<^sup>* G G' \<and> set (places G') \<subseteq> {Exited} \<and> main_at G' = WantScreen \<and> prog_inv ok fit W H G'"
  using assms(6,7)
proof (induction "sum_list (map rest_of (places G))" arbitrary: G rule: less_induct)
  case less
  show ?case
  proof (cases "set (places G) \<subseteq> {Exited}")
    case True
    with less.prems show ?thesis by blast
  next
    case False
    then obtain i where i: "i < length (places G)" "places G ! i \<noteq> Exited" by (auto simp: subset_iff in_set_conv_nth)
    have "\<exists>G1. nearer ops W H G G1"
    proof (cases "\<exists>j < length (places G). inside (places G ! j) \<or> phase_of (places G ! j) = Leaving")
      case True
      then obtain j where j: "j < length (places G)" "inside (places G ! j) \<or> phase_of (places G ! j) = Leaving" by blast
      show ?thesis
      proof (cases "inside (places G ! j)")
        case True
        then show ?thesis using inside_nearer [OF less.prems(1) j(1)] by blast
      next
        case False
        with j obtain b where e: "places G ! j = Exiting b" by (cases "places G ! j") auto
        have "op_act ops j (sys G) = Inr (end_thread api j (sys G))" "j < length (threads (sys G))"
          using places_threads(1,2) [OF less.prems(1) j(1)] e by (simp_all add: acts01 act01_def)
        then have "console_step ops W H G (goto j Exited (G\<lparr>sys := end_thread api j (sys G)\<rparr>))"
          using console_step.acts [OF j(1), of b ops "end_thread api j (sys G)" W H] e by (simp add: end_thread_def)
        then show ?thesis by (rule nearerI [OF _ j(1), where p = Exited]) (use e in simp_all)
      qed
    next
      case False
      then have "\<forall>p \<in> set (places G). \<not> inside p \<and> phase_of p \<noteq> Leaving" by (auto simp: in_set_conv_nth)
      from outside_nearer [OF assms(1-5) less.prems this i] show ?thesis .
    qed
    then obtain G1 where n: "console_step ops W H G G1" "main_at G1 = WantScreen"
        "sum_list (map rest_of (places G1)) < sum_list (map rest_of (places G))"
      using less.prems(2) by (auto simp: nearer_def)
    from less.hyps [OF n(3) step_inv [OF assms(2,4) n(1) less.prems(1)] n(2)] n(1) show ?thesis
      by (meson converse_rtranclp_into_rtranclp)
  qed
qed

end

section \<open>The providers\<close>

text \<open>Clearing and the start, which are the same in both programs.\<close>

lemma fill_blank:
  assumes "0 < W"
  shows "blank W H (show_call W H (FillChar 0x20 (W * H) (0, 0)) g)"
proof -
  have "snd p * W + fst p < W * H" if "on_screen W H p" for p
  proof -
    have "fst p < W" "snd p \<le> H - 1" using that by (simp_all add: on_screen_def)
    then have "snd p * W \<le> (H - 1) * W" using assms by (intro mult_right_mono) auto
    with \<open>fst p < W\<close> show ?thesis by (simp add: algebra_simps)
  qed
  moreover have "0 \<le> snd p * W + fst p" if "on_screen W H p" for p
    using that assms by (simp add: on_screen_def)
  ultimately show ?thesis by (auto simp: blank_def blank_cell_def)
qed

lemma bounce_start_seen:
  assumes "0 < W" "0 < H" "bounce_start W H ids rs = Inr (seed, b)"
  shows "seen W H b"
proof -
  have "old_at b = (0, 0)"
    using assms(3) by (auto simp: bounce_start_def and_then_Inr_iff Let_def split: prod.splits)
  with assms(1,2) show ?thesis by (simp add: seen_def on_screen_def)
qed

lemma bounce_start_runs:
  "0 < W \<Longrightarrow> W < 2 ^ 15 - 4 \<Longrightarrow> 0 < H \<Longrightarrow> H < 2 ^ 15 - 4 \<Longrightarrow> \<exists>seed b. bounce_start W H (0, 0, 0) (0, 0, 0, 0) = Inr (seed, b)"
  using bounce_start_ok [of W H "(0, 0, 0, 0)" 0 0 0 0 "(0, 0, 0)"] by auto

text \<open>A round of a thread that has seen its old cell: what it reads fills both variables, so that the comparison
  does not fault, and the move keeps them.\<close>

lemma reads_fill:
  assumes "seen W H b" "r = read_char W H g (old_at b)" "a \<in> {read_char W H g (old_at b), read_attr W H g (old_at b)}"
    and "b1 = b\<lparr>old_cell := after_read r (old_cell b), old_attr := after_read a (old_attr b)\<rparr>"
  shows "\<exists>there. still_there b1 = Inr there" "seen W H (fst (bounce_move W H b1))"
proof -
  have b1: "old_cell b1 \<noteq> None" "old_attr b1 \<noteq> None"
    using assms by (auto simp: after_read_def read_char_def read_attr_def seen_def)
  then show "\<exists>there. still_there b1 = Inr there"
    by (cases "old_cell b1 = Some (my_cell b1)") (auto simp: still_there_def)
  show "seen W H (fst (bounce_move W H b1))" using b1 by (simp add: seen_def)
qed

lemma move_beeps: "filter (\<lambda>c. \<not> is_beep c) (snd (bounce_move W H b)) = []"
  by (simp add: bounce_move_def Let_def)

lemma BounceProc_on_seen:
  assumes "seen W H b"
  shows "\<exists>b' calls. BounceProc_on W H g b = Inr (b', calls) \<and> seen W H b' \<and> length (filter (\<lambda>c. \<not> is_beep c) calls) \<le> 3"
proof -
  define b1 where "b1 = b\<lparr>old_cell := after_read (read_char W H g (old_at b)) (old_cell b),
    old_attr := after_read (read_attr W H g (old_at b)) (old_attr b)\<rparr>"
  note f = reads_fill [OF assms refl _ b1_def]
  obtain there where t: "still_there b1 = Inr there" using f(1) by blast
  obtain b2 beeps where m: "bounce_move W H b1 = (b2, beeps)" by (cases "bounce_move W H b1")
  have "filter (\<lambda>c. \<not> is_beep c) beeps = []" "seen W H b2" using move_beeps [of W H b1] f(2) m by simp_all
  then show ?thesis unfolding BounceProc_on_def BounceProc_round_def Let_def b1_def [symmetric] t m by auto
qed

lemma bounceProc_main_on_seen:
  assumes "seen W H b"
  shows "\<exists>b' calls. bounceProc_main_on W H g b = Inr (b', calls) \<and> seen W H b' \<and> length (filter (\<lambda>c. \<not> is_beep c) calls) \<le> 3"
proof -
  define b1 where "b1 = b\<lparr>old_cell := after_read (read_char W H g (old_at b)) (old_cell b),
    old_attr := after_read (read_char W H g (old_at b)) (old_attr b)\<rparr>"
  note f = reads_fill [OF assms refl _ b1_def]
  obtain there where t: "still_there b1 = Inr there" using f(1) by blast
  obtain b2 beeps where m: "bounce_move W H b1 = (b2, beeps)" by (cases "bounce_move W H b1")
  have "filter (\<lambda>c. \<not> is_beep c) beeps = []" "seen W H b2" using move_beeps [of W H b1] f(2) m by simp_all
  then show ?thesis unfolding bounceProc_main_on_def bounceProc_char_round_def Let_def b1_def [symmetric] t m by auto
qed

text \<open>A key starts at most one thread.\<close>

lemma started_threads:
  assumes "(if c then start_bouncer title started S else Inr S) = Inr S1"
  shows "\<exists>n. threads S1 = threads S @ replicate n Drawing"
proof -
  have "threads S1 = threads S @ [] \<or> threads S1 = threads S @ [Drawing]"
    using assms by (auto split: if_splits dest: start_bouncer_cases)
  then show ?thesis using replicate_0 [of Drawing] replicate_Suc [of 0 Drawing] by metis
qed

lemma KbdFunc_key_threads:
  "KbdFunc_key api started k S = Inr S' \<Longrightarrow> \<exists>n. threads S' = threads S @ replicate n Drawing"
  unfolding KbdFunc_key_def and_then_Inr_iff
  by (elim exE conjE, drule started_threads) (auto simp: ShutDown_def split: if_splits)

lemma stopThread_loop_threads: "threads (stopThread_loop api S) = threads S"
proof (induction api S rule: stopThread_loop.induct)
  case (1 api S)
  then show ?case by (subst stopThread_loop.simps) simp
qed

lemma readInput_main_key_threads:
  "readInput_main_key api started k S = Inr S' \<Longrightarrow> \<exists>n. threads S' = threads S @ replicate n Drawing"
  unfolding readInput_main_key_def and_then_Inr_iff Let_def
  by (elim exE conjE, drule started_threads) (auto simp: ShutDown_def stopThread_loop_threads split: if_splits)

text \<open>The steps of a thread.\<close>

lemma unchanged: "xs ! i = p \<Longrightarrow> xs = xs[i := p]"
  by auto

lemma act01_frame:
  "act01 api i S = Inr S' \<Longrightarrow> i < length (threads S) \<Longrightarrow>
     threads S' = (threads S)[i := threads S' ! i] \<and> quitting S' = quitting S"
  by (auto intro!: unchanged simp: act01_def wait_run_def end_thread_def split: phase.splits prod.splits)

lemma act01_thread: "act01 api i S = Inr S' \<Longrightarrow> i < length (threads S) \<Longrightarrow> S' = S \<or> thread_step api S S'"
  by (auto simp: act01_def split: phase.splits intro: thread_step.intros)

lemma act02_frame:
  "act02 api i S = Inr S' \<Longrightarrow> i < length (threads S) \<Longrightarrow>
     threads S' = (threads S)[i := threads S' ! i] \<and> quitting S' = quitting S"
  by (auto intro!: unchanged simp: act02_def wait_run2_def check_delete_def clear_delete_def read_nr_def lower_nr_def
    read_title_def set_title_def end_thread_def and_then_Inr_iff
    split: phase.splits)

lemma readInput_key_threads:
  "readInput_key api started k S = Inr S' \<Longrightarrow> \<exists>n. threads S' = threads S @ replicate n Drawing"
  unfolding readInput_key_def and_then_Inr_iff Let_def
  by (elim exE conjE, drule started_threads) (auto simp: ShutDown_def stopThread_def split: if_splits)

lemma bounceProc_on_three:
  assumes "bounceProc_on W H g b = Inr (b', calls)"
  shows "length (filter (\<lambda>c. \<not> is_beep c) calls) \<le> 3"
proof -
  define b1 where "b1 = b\<lparr>old_cell := after_read (read_char W H g (old_at b)) (old_cell b)\<rparr>"
  obtain b2 beeps where m: "bounce_move W H b1 = (b2, beeps)" by (cases "bounce_move W H b1")
  have "filter (\<lambda>c. \<not> is_beep c) beeps = []" using move_beeps [of W H b1] m by simp
  with assms show ?thesis
    unfolding bounceProc_on_def bounceProc_round_def Let_def b1_def [symmetric] m and_then_Inr_iff by auto
qed

interpretation m1: console_program "mthread01 api" "bounce01 api" seen api for api
proof unfold_locales
  show "\<And>S started k S'. bounce01 api S \<Longrightarrow> \<not> quitting S \<Longrightarrow> op_key (mthread01 api) started k S = Inr S' \<Longrightarrow> bounce01 api S'"
    by (simp add: mthread01_def bounce01.key)
  show "\<And>S i S'. bounce01 api S \<Longrightarrow> op_act (mthread01 api) i S = Inr S' \<Longrightarrow> i < length (threads S) \<Longrightarrow> bounce01 api S'"
    using act01_thread bounce01.thread unfolding mthread01_def by fastforce
  show "\<And>S. mutex_ok api \<Longrightarrow> bounce01 api S \<Longrightarrow> quitting S \<Longrightarrow> threads S = [] \<or> chain_ok api S"
    using bounce01_inv by fastforce
  show "\<And>W H b g b' calls. seen W H b \<Longrightarrow> op_round (mthread01 api) W H g b = Inr (b', calls) \<Longrightarrow>
      seen W H b' \<and> length (filter (\<lambda>c. \<not> is_beep c) calls) \<le> 3"
    by (simp add: mthread01_def) (metis BounceProc_on_seen Inr_inject prod.inject)
  show "\<And>S i S'. bounce01 api S \<Longrightarrow> op_act (mthread01 api) i S = Inr S' \<Longrightarrow> i < length (threads S) \<Longrightarrow>
      threads S' = (threads S)[i := threads S' ! i] \<and> quitting S' = quitting S"
    using act01_frame unfolding mthread01_def by fastforce
  show "\<And>W H b g. seen W H b \<Longrightarrow> \<exists>b' calls. op_round (mthread01 api) W H g b = Inr (b', calls)"
    using BounceProc_on_seen unfolding mthread01_def by fastforce
qed (auto simp: mthread01_def BounceProc_start_def ClearScreen_def intro: KbdFunc_key_threads bounce_start_seen
  bounce_start_runs fill_blank simp del: show_call.simps)

interpretation m2: console_program "main01 api" "bounce_main01 api" seen api for api
proof unfold_locales
  show "\<And>S started k S'. bounce_main01 api S \<Longrightarrow> \<not> quitting S \<Longrightarrow> op_key (main01 api) started k S = Inr S' \<Longrightarrow>
      bounce_main01 api S'"
    by (simp add: main01_def bounce_main01.key)
  show "\<And>S i S'. bounce_main01 api S \<Longrightarrow> op_act (main01 api) i S = Inr S' \<Longrightarrow> i < length (threads S) \<Longrightarrow> bounce_main01 api S'"
    using act01_thread bounce_main01.thread unfolding main01_def by fastforce
  show "\<And>S. mutex_ok api \<Longrightarrow> bounce_main01 api S \<Longrightarrow> quitting S \<Longrightarrow> threads S = [] \<or> chain_ok api S"
    using bounce_main01_inv by fastforce
  show "\<And>W H b g b' calls. seen W H b \<Longrightarrow> op_round (main01 api) W H g b = Inr (b', calls) \<Longrightarrow>
      seen W H b' \<and> length (filter (\<lambda>c. \<not> is_beep c) calls) \<le> 3"
    by (simp add: main01_def) (metis bounceProc_main_on_seen Inr_inject prod.inject)
  show "\<And>S i S'. bounce_main01 api S \<Longrightarrow> op_act (main01 api) i S = Inr S' \<Longrightarrow> i < length (threads S) \<Longrightarrow>
      threads S' = (threads S)[i := threads S' ! i] \<and> quitting S' = quitting S"
    using act01_frame unfolding main01_def by fastforce
  show "\<And>W H b g. seen W H b \<Longrightarrow> \<exists>b' calls. op_round (main01 api) W H g b = Inr (b', calls)"
    using bounceProc_main_on_seen unfolding main01_def by fastforce
qed (auto simp: main01_def bounceProc_main_start_def clearScreen_main_def intro: readInput_main_key_threads bounce_start_seen
  bounce_start_runs fill_blank simp del: show_call.simps)

text \<open>The rounds of MThread02 may fault, and its threads do not end by the run mutex: only the first contract.\<close>

interpretation m3: console_screen "mthread02 api" "bounce02 api" "\<lambda>W H b. True" for api
proof unfold_locales
  show "\<And>S started k S'. bounce02 api S \<Longrightarrow> \<not> quitting S \<Longrightarrow> op_key (mthread02 api) started k S = Inr S' \<Longrightarrow> bounce02 api S'"
    using bounce02.step step02.key unfolding mthread02_def by fastforce
  show "\<And>S i S'. bounce02 api S \<Longrightarrow> op_act (mthread02 api) i S = Inr S' \<Longrightarrow> i < length (threads S) \<Longrightarrow> bounce02 api S'"
    using act02_step bounce02_steps unfolding mthread02_def by fastforce
  show "\<And>S i S'. bounce02 api S \<Longrightarrow> op_act (mthread02 api) i S = Inr S' \<Longrightarrow> i < length (threads S) \<Longrightarrow>
      threads S' = (threads S)[i := threads S' ! i] \<and> quitting S' = quitting S"
    using act02_frame unfolding mthread02_def by fastforce
  show "\<And>W H b g b' calls. True \<Longrightarrow> op_round (mthread02 api) W H g b = Inr (b', calls) \<Longrightarrow>
      True \<and> length (filter (\<lambda>c. \<not> is_beep c) calls) \<le> 3"
    using bounceProc_on_three unfolding mthread02_def by fastforce
qed (auto simp: mthread02_def clearScreen_def intro: readInput_key_threads fill_blank simp del: show_call.simps)

section \<open>Reachable states of the programs\<close>

type_synonym 'm console_prog = "('m mutex_api \<Rightarrow> int \<Rightarrow> int \<Rightarrow> grid \<Rightarrow> fault + 'm bounce_prog) \<times> 'm console_ops"

definition programs :: "'m mutex_api \<Rightarrow> 'm console_prog set" where
  "programs api = {(MThread01_main, mthread01 api), (Main01_main, main01 api)}"

definition all_programs :: "'m mutex_api \<Rightarrow> 'm console_prog set" where
  "all_programs api = {(MThread01_main, mthread01 api), (Main01_main, main01 api), (MThread02_main, mthread02 api)}"

lemma bounce_main_start:
  assumes "bounce_main api title = Inr S"
  shows "threads S = []" "\<not> quitting S"
  using assms by (auto simp: bounce_main_def bounce_init_def and_then_Inr_iff)

lemma console_main_inv:
  assumes "ok S" "bounce_main api title = Inr S"
  shows "prog_inv ok fit W H (console_main clear S W H g)"
  using assms(1) bounce_main_start [OF assms(2)]
  by (simp add: console_main_def prog_inv_def threads_fit_def main_fits_def stages)

lemma starts_inv:
  "MThread01_main api W H g = Inr G \<Longrightarrow> prog_inv (bounce01 api) fit W H G"
  "Main01_main api W H g = Inr G \<Longrightarrow> prog_inv (bounce_main01 api) fit W H G"
  "MThread02_main api W H g = Inr G \<Longrightarrow> prog_inv (bounce02 api) fit W H G"
  by (auto simp: MThread01_main_def Main01_main_def MThread02_main_def and_then_Inr_iff
    intro: console_main_inv bounce01.start bounce_main01.start bounce02.start)

lemma reach_inv:
  assumes "console_screen ops ok fit" "\<And>g G. main api W H g = Inr G \<Longrightarrow> prog_inv ok fit W H G"
    and "0 < W" "0 < H" "console_reach main ops api W H G"
  shows "prog_inv ok fit W H G"
  using assms(5)
  by (induction rule: console_reach.induct) (auto intro: assms(2) console_screen.step_inv [OF assms(1,3,4)])

lemma programs_inv:
  assumes p: "(main, ops) \<in> programs api" and W: "0 < W" "0 < H" and r: "console_reach main ops api W H G"
  shows "\<exists>ok. console_program ops ok seen api \<and> prog_inv ok seen W H G"
  using p unfolding programs_def
proof (elim insertE emptyE)
  assume "(main, ops) = (MThread01_main, mthread01 api)"
  then show ?thesis
    using reach_inv [OF m1.console_screen_axioms, of main api W H] starts_inv(1) [of api W H] W r m1.console_program_axioms by blast
next
  assume "(main, ops) = (Main01_main, main01 api)"
  then show ?thesis
    using reach_inv [OF m2.console_screen_axioms, of main api W H] starts_inv(2) [of api W H] W r m2.console_program_axioms by blast
qed

lemma all_programs_inv:
  assumes p: "(main, ops) \<in> all_programs api" and W: "0 < W" "0 < H" and r: "console_reach main ops api W H G"
  shows "\<exists>ok fit. console_screen ops ok fit \<and> prog_inv ok fit W H G"
proof (cases "(main, ops) \<in> programs api")
  case True
  with programs_inv [OF _ W r] show ?thesis using console_program.axioms(1) by blast
next
  case False
  with p have "main = MThread02_main" "ops = mthread02 api" by (auto simp: all_programs_def programs_def)
  then show ?thesis
    using reach_inv [OF m3.console_screen_axioms, of main api W H] starts_inv(3) [of api W H] W r m3.console_screen_axioms by blast
qed

section \<open>A run for the witnesses\<close>

text \<open>Two threads are started, Q is pressed, and main takes the screen before either of them.\<close>

lemma key_reach:
  assumes "console_reach main ops api W H G" "main_at G = AtKeys" "op_key ops started k (sys G) = Inr S'"
    "length (threads S') = length (threads (sys G)) + n"
  shows "\<exists>G'. console_reach main ops api W H G' \<and> sys G' = S' \<and> places G' = places G @ replicate n Fresh \<and>
    screen_owner G' = screen_owner G \<and>
    main_at G' = (if quitting S' then WantScreen else if op_clears ops k then WantClear else AtKeys)"
  using console_reach.step [OF assms(1) console_step.key [OF assms(2,3)]] assms(4)
  by (intro exI conjI) (assumption, simp_all)

definition reached01 :: "(nat \<times> nat) option bounce_prog \<Rightarrow> bool" where
  "reached01 G \<longleftrightarrow> console_reach MThread01_main (mthread01 simple_mutex) simple_mutex 80 25 G"

lemma key_reached01:
  assumes "reached01 G" "main_at G = AtKeys" "KbdFunc_key simple_mutex started k (sys G) = Inr S'"
    "length (threads S') = length (threads (sys G)) + n"
  shows "\<exists>G'. reached01 G' \<and> sys G' = S' \<and> places G' = places G @ replicate n Fresh \<and>
    screen_owner G' = screen_owner G \<and> main_at G' = (if quitting S' then WantScreen else AtKeys)"
proof -
  have "op_key (mthread01 simple_mutex) started k (sys G) = Inr S'" "\<not> op_clears (mthread01 simple_mutex) k"
    using assms(3) by (simp_all add: mthread01_def)
  from key_reach [OF assms(1) [unfolded reached01_def] assms(2) this(1) assms(4)] this(2) show ?thesis
    by (simp only: reached01_def if_False)
qed

lemma quit_reach:
  "\<exists>G. reached01 G \<and> sys G = quit01 \<and> places G = [Fresh, Fresh] \<and> screen_owner G = None \<and>
     main_at G = WantScreen"
proof -
  define S1 where "S1 = projr (KbdFunc_key simple_mutex True 65 start01)"
  define S2 where "S2 = projr (KbdFunc_key simple_mutex True 97 S1)"
  have n: "\<not> isl (bounce_main simple_mutex WriteTitle)" "\<not> isl (KbdFunc_key simple_mutex True 65 start01)"
    "\<not> isl (KbdFunc_key simple_mutex True 97 S1)" "\<not> isl (KbdFunc_key simple_mutex True 113 S2)"
    unfolding S2_def S1_def by code_simp+
  have q: "\<not> quitting start01" "\<not> quitting S1" "\<not> quitting S2" "quitting quit01"
    "threads start01 = []" "threads S1 = [Drawing]" "threads S2 = [Drawing, Drawing]" "threads quit01 = [Drawing, Drawing]"
    unfolding S2_def S1_def by code_simp+
  have k: "KbdFunc_key simple_mutex True 65 start01 = Inr S1" "KbdFunc_key simple_mutex True 97 S1 = Inr S2"
      "KbdFunc_key simple_mutex True 113 S2 = Inr quit01"
    using n(2-4) Inr_projr unfolding S1_def S2_def quit01_def by blast+
  have "bounce_main simple_mutex WriteTitle = Inr start01" using Inr_projr [OF n(1)] by (simp add: start01_def)
  then obtain G0 where G0: "reached01 G0" "sys G0 = start01" "places G0 = []" "screen_owner G0 = None"
      "main_at G0 = AtKeys"
    using console_reach.start [of MThread01_main simple_mutex 80 25 "\<lambda>_. (65, 7)" _ "mthread01 simple_mutex"]
    by (fastforce simp: MThread01_main_def console_main_def reached01_def)
  obtain G1 where G1: "reached01 G1" "sys G1 = S1" "places G1 = [Fresh]" "screen_owner G1 = None"
      "main_at G1 = AtKeys"
    using key_reached01 [OF G0(1,5), of True 65 S1 1] G0 k(1) q by auto
  obtain G2 where G2: "reached01 G2" "sys G2 = S2" "places G2 = [Fresh, Fresh]" "screen_owner G2 = None"
      "main_at G2 = AtKeys"
    using key_reached01 [OF G1(1,5), of True 97 S2 1] G1 k(2) q by auto
  show ?thesis using key_reached01 [OF G2(1,5), of True 113 quit01 0] G2 k(3) q by auto
qed

lemma taken_reach: "\<exists>G. reached01 G \<and> main_at G = HasScreen \<and> places G = [Fresh, Fresh]"
proof -
  obtain G where "reached01 G" "places G = [Fresh, Fresh]" "screen_owner G = None" "main_at G = WantScreen"
    using quit_reach by blast
  from console_reach.step [OF this(1) [unfolded reached01_def] console_step.take_screen [OF this(4,3)]] this(2)
  show ?thesis unfolding reached01_def by fastforce
qed

lemma every_program01: "(MThread01_main, mthread01 simple_mutex) \<in> all_programs simple_mutex"
  by (simp add: all_programs_def)

lemma program01: "(MThread01_main, mthread01 simple_mutex) \<in> programs simple_mutex"
  by (simp add: programs_def)

section \<open>Properties\<close>

text \<open>
  C30. The screen mutex guards the console: in the three programs and in every interleaving at most one thread is
  between locking and releasing the screen, none while main holds it, and while main holds the screen after it has
  cleared it, in MThread02 by the key C or in all three after Q, the screen is blank whatever the threads do.\<close>

theorem screen_guarded:
  assumes "(main, ops) \<in> all_programs api" "console_reach main ops api W H G" "0 < W" "0 < H"
  shows "(\<forall>i < length (places G). inside (places G ! i) \<longrightarrow> \<not> holds_screen (main_at G) \<and>
       (\<forall>j < length (places G). inside (places G ! j) \<longrightarrow> j = i)) \<and>
    (has_cleared (main_at G) \<longrightarrow> (\<forall>p. on_screen W H p \<longrightarrow> fst (cells G p) = blank_cell))"
  using all_programs_inv [OF assms(1,3,4,2)] by (auto simp: prog_inv_def threads_fit_def main_fits_def blank_def)

lemma screen_guarded_witness: "\<exists>G. reached01 G \<and> main_at G = Cleared \<and> fst (cells G (3, 4)) = blank_cell"
proof -
  obtain G where G: "reached01 G" "main_at G = HasScreen" using taken_reach by blast
  define G' where "G' = G\<lparr>cells := show_call 80 25 (ClearScreen 80 25) (cells G), main_at := Cleared\<rparr>"
  have r: "reached01 G'"
    using console_reach.step [OF G(1) [unfolded reached01_def] console_step.clear_screen [OF G(2)]]
    by (simp add: G'_def reached01_def mthread01_def)
  have "main_at G' = Cleared" by (simp add: G'_def)
  with screen_guarded [OF every_program01 r [unfolded reached01_def]] r show ?thesis
    by (intro exI [of _ G']) (simp add: on_screen_def stages)
qed

text \<open>
  C31. Ending in time: in both programs, in every reachable state in which Q was pressed and main has not yet
  taken the screen (hScreenMutex), there is a schedule by which every thread leaves its loop and ends,
  after which main can take it; no thread is stuck on either mutex and no call faults on the way.\<close>

theorem threads_can_end:
  assumes "mutex_ok api" "0 < W" "W < 2 ^ 15 - 4" "0 < H" "H < 2 ^ 15 - 4"
    and "(main, ops) \<in> programs api" "console_reach main ops api W H G" "main_at G = WantScreen"
  shows "\<exists>G'. (console_step ops W H)\<^sup>*\<^sup>* G G' \<and> set (places G') \<subseteq> {Exited} \<and> main_at G' = WantScreen \<and>
    screen_owner G' = None"
proof -
  obtain ok where ok: "console_program ops ok seen api" "prog_inv ok seen W H G"
    using programs_inv [OF assms(6,2,4,7)] by blast
  obtain G' where G': "(console_step ops W H)\<^sup>*\<^sup>* G G'" "set (places G') \<subseteq> {Exited}" "main_at G' = WantScreen"
      "prog_inv ok seen W H G'"
    using console_program.all_can_exit [OF ok(1) assms(1-5) ok(2) assms(8)] by blast
  have "screen_owner G' = None"
  proof (cases "screen_owner G'")
    case (Some n)
    then obtain k where k: "n = Suc k" "k < length (places G')"
      using G'(3,4) by (cases n) (auto simp: prog_inv_def main_fits_def stages)
    have "places G' ! k = Exited" using G'(2) nth_mem [OF k(2)] by blast
    then show ?thesis using places_threads(4) [OF G'(4) k(2)] Some k(1) by simp
  qed
  with G'(1-3) show ?thesis by blast
qed

lemma threads_can_end_witness:
  "\<exists>G G'. reached01 G \<and> places G = [Fresh, Fresh] \<and> (console_step (mthread01 simple_mutex) 80 25)\<^sup>*\<^sup>* G G' \<and>
     set (places G') \<subseteq> {Exited}"
proof -
  obtain G where G: "reached01 G" "places G = [Fresh, Fresh]" "main_at G = WantScreen"
    using quit_reach by blast
  from threads_can_end [OF simple_mutex_ok _ _ _ _ program01 G(1) [unfolded reached01_def] G(3)] G(1,2)
  show ?thesis by fastforce
qed

text \<open>Ending too late: in none of the programs does main give the screen back after Q, so a thread that has not
  passed its wait for the screen when main takes it waits there in every later state and never ends by itself,
  although the program counts it as ended and closes the handles.\<close>

theorem shut_out_for_ever:
  assumes "(main, ops) \<in> all_programs api" "console_reach main ops api W H G" "0 < W" "0 < H"
    and "main_at G \<in> {HasScreen, Cleared}" "i < length (places G)" "waiting (places G ! i)"
    and "(console_step ops W H)\<^sup>*\<^sup>* G G'"
  shows "waiting (places G' ! i) \<and> main_at G' \<in> {HasScreen, Cleared}"
proof -
  obtain ok fit where ok: "console_screen ops ok fit" "prog_inv ok fit W H G"
    using all_programs_inv [OF assms(1,3,4,2)] by blast
  then have "shut_out G i" using assms(5-7) by (auto simp: shut_out_def prog_inv_def main_fits_def stages)
  from console_screen.shut_out_steps [OF ok(1) assms(8) ok(2) this assms(3,4)] show ?thesis by (simp add: shut_out_def)
qed

lemma shut_out_for_ever_witness: "\<exists>G. reached01 G \<and> main_at G = HasScreen \<and> waiting (places G ! 1)"
proof -
  obtain G where G: "reached01 G" "main_at G = HasScreen" "places G = [Fresh, Fresh]"
    using taken_reach by blast
  from shut_out_for_ever [OF every_program01 G(1) [unfolded reached01_def], of 1 G] G show ?thesis by (auto simp: waiting_def)
qed


text \<open>A step of MThread02 moves its counters and its run mutex as their own step relation says, or leaves them.\<close>

lemma mthread02_sys:
  assumes inv: "prog_inv ok fit W H G" and s: "console_step (mthread02 api) W H G G'"
  shows "(step02 api)\<^sup>*\<^sup>* (sys G) (sys G')"
  using s
proof (cases rule: console_step.cases)
  case (key started k S')
  have "\<not> quitting (sys G)" using inv key(2) by (auto simp: prog_inv_def main_fits_def)
  then have "step02 api (sys G) (sys G')" using key(1,3) step02.key by (fastforce simp: mthread02_def)
  then show ?thesis ..
next
  case (acts i b S')
  then have "act02 api i (sys G) = Inr (sys G')" by (simp add: mthread02_def)
  then show ?thesis by (rule act02_step)
qed simp_all

lemma mthread02_steps_sys:
  assumes "(console_step (mthread02 api) W H)\<^sup>*\<^sup>* G G'" "prog_inv (bounce02 api) (\<lambda>W H b. True) W H G" "0 < W" "0 < H"
  shows "(step02 api)\<^sup>*\<^sup>* (sys G) (sys G') \<and> prog_inv (bounce02 api) (\<lambda>W H b. True) W H G'"
  using assms(1,2)
proof (induction rule: rtranclp_induct)
  case (step G1 G2)
  then have i: "prog_inv (bounce02 api) (\<lambda>W H b. True) W H G1" "(step02 api)\<^sup>*\<^sup>* (sys G) (sys G1)" by simp_all
  with mthread02_sys [OF i(1) step.hyps(2)] m3.step_inv [OF assms(3,4) step.hyps(2) i(1)] show ?case by auto
qed simp

text \<open>
  C38. In the program MThread02 a delete request that was overtaken blocks deletion: from every reachable state in
  which a request (key D) for n is pending, the counter has since grown beyond n (key A), and no thread has accepted the
  request or is ending, in every later state in which main still reads keys (Q has not been pressed) the same request is
  pending, and every thread that had not ended is drawing or looking at the request: none takes it and none
  ends, whatever keys but Q are pressed, D included, and whatever the threads and the run mutex do. The handling of a key,
  but for the clearing of C, is one step.\<close>

theorem delete_request_blocks:
  assumes "console_reach MThread02_main (mthread02 api) api W H G" "0 < W" "0 < H"
    and "0 < threadDeleteNr (sys G)" "threadDeleteNr (sys G) < threadNr (sys G)"
    and "\<forall>p \<in> set (places G). phase_of p \<in> {Drawing, Checking, Ended}"
    and "(console_step (mthread02 api) W H)\<^sup>*\<^sup>* G G'" "main_at G' \<in> {AtKeys, WantClear, Clearing, GiveBack}"
  shows "threadDeleteNr (sys G') = threadDeleteNr (sys G) \<and> length (places G) \<le> length (places G') \<and>
    (\<forall>i < length (places G). places G ! i \<noteq> Exited \<longrightarrow> phase_of (places G' ! i) \<in> {Drawing, Checking})"
proof -
  have inv: "prog_inv (bounce02 api) (\<lambda>W H b. True) W H G"
    using reach_inv [OF m3.console_screen_axioms starts_inv(3) assms(2,3,1)] .
  have "nr_le (sys G)" using inv bounce02_nr_le by (auto simp: prog_inv_def)
  moreover have "set (threads (sys G)) = phase_of ` set (places G)"
    using inv by (metis prog_inv_def threads_fit_def set_map)
  ultimately have st: "stuck (sys G)" using assms(4-6) by (auto simp: stuck_def nr_le_def)
  note r = mthread02_steps_sys [OF assms(7) inv assms(2,3)]
  have "\<not> quitting (sys G')" using r assms(8) by (auto simp: prog_inv_def main_fits_def)
  from stuck_steps [OF conjunct1 [OF r] st this] have b: "blocked_from (sys G) (sys G')" .
  have len: "length (places G) \<le> length (places G')"
    using b inv r by (auto simp: blocked_from_def prog_inv_def threads_fit_def dest!: arg_cong [where f = length])
  have "phase_of (places G' ! i) \<in> {Drawing, Checking}"
    if i: "i < length (places G)" "places G ! i \<noteq> Exited" for i
  proof -
    note t = places_threads(1,2) [OF inv i(1)]
    have "i < length (places G')" using i(1) len by simp
    note t' = places_threads(1,2) [OF conjunct2 [OF r] this]
    have "phase_of (places G ! i) \<noteq> Ended" using i(2) by (cases "places G ! i") auto
    then have "threads (sys G') ! i \<noteq> Ended" using b t by (simp add: blocked_from_def)
    moreover have "threads (sys G') ! i \<in> {Drawing, Checking, Ended}"
      using b nth_mem [OF t'(1)] by (auto simp: blocked_from_def stuck_def)
    ultimately show ?thesis using t' by auto
  qed
  with b len show ?thesis by (simp add: blocked_from_def)
qed

definition reached02 :: "(nat \<times> nat) option bounce_prog \<Rightarrow> bool" where
  "reached02 G \<longleftrightarrow> console_reach MThread02_main (mthread02 simple_mutex) simple_mutex 80 25 G"

text \<open>Pressing keys other than C one after the other, while no thread moves.\<close>

lemma key_reached02:
  assumes "reached02 G" "main_at G = AtKeys" "readInput_key simple_mutex True k (sys G) = Inr S'"
    "length (threads S') = length (threads (sys G)) + n" "\<not> quitting S'" "to_lower k \<noteq> 99"
  shows "\<exists>G'. reached02 G' \<and> console_step (mthread02 simple_mutex) 80 25 G G' \<and> sys G' = S' \<and>
    places G' = places G @ replicate n Fresh \<and> main_at G' = AtKeys"
proof -
  have "op_key (mthread02 simple_mutex) True k (sys G) = Inr S'" "\<not> op_clears (mthread02 simple_mutex) k"
    using assms(3,6) by (simp_all add: mthread02_def key_c_def)
  from console_step.key [OF assms(2) this(1), of 80 25] this(2) assms(4,5)
  have s: "console_step (mthread02 simple_mutex) 80 25 G
      (G\<lparr>sys := S', places := places G @ replicate n Fresh, main_at := AtKeys\<rparr>)" by simp
  with console_reach.step [OF assms(1) [unfolded reached02_def] s]
  show ?thesis unfolding reached02_def by (intro exI conjI) (assumption, assumption, simp_all)
qed

lemma overtaken_reach:
  "\<exists>G. reached02 G \<and> sys G = played02 stuck_schedule \<and> places G = [Fresh, Fresh, Fresh] \<and> main_at G = AtKeys"
proof -
  define S1 where "S1 = projr (readInput_key simple_mutex True 97 start02)"
  define S2 where "S2 = projr (readInput_key simple_mutex True 97 S1)"
  define S3 where "S3 = projr (readInput_key simple_mutex True 100 S2)"
  define S4 where "S4 = projr (readInput_key simple_mutex True 97 S3)"
  have n: "\<not> isl (bounce_main simple_mutex writeTitle)" "\<not> isl (readInput_key simple_mutex True 97 start02)"
    "\<not> isl (readInput_key simple_mutex True 97 S1)" "\<not> isl (readInput_key simple_mutex True 100 S2)"
    "\<not> isl (readInput_key simple_mutex True 97 S3)"
    unfolding S3_def S2_def S1_def by code_simp+
  have q: "\<not> quitting S1" "\<not> quitting S2" "\<not> quitting S3" "\<not> quitting S4" "\<not> quitting start02"
    "threads start02 = []" "threads S1 = [Drawing]" "threads S2 = [Drawing, Drawing]"
    "threads S3 = [Drawing, Drawing]" "threads S4 = [Drawing, Drawing, Drawing]"
    unfolding S4_def S3_def S2_def S1_def by code_simp+
  note k = Inr_projr [OF n(2), folded S1_def] Inr_projr [OF n(3), folded S2_def]
    Inr_projr [OF n(4), folded S3_def] Inr_projr [OF n(5), folded S4_def]
  have e: "S4 = played02 stuck_schedule"
    using q by (simp add: played02_def stuck_schedule_def k)
  have "bounce_main simple_mutex writeTitle = Inr start02" using Inr_projr [OF n(1)] by (simp add: start02_def)
  then obtain G0 where G0: "reached02 G0" "sys G0 = start02" "places G0 = []" "main_at G0 = AtKeys"
    using console_reach.start [of MThread02_main simple_mutex 80 25 "\<lambda>_. (65, 7)" _ "mthread02 simple_mutex"]
    by (fastforce simp: MThread02_main_def console_main_def reached02_def)
  obtain G1 where G1: "reached02 G1" "sys G1 = S1" "places G1 = [Fresh]" "main_at G1 = AtKeys"
    using key_reached02 [OF G0(1,4), of 97 S1 1] G0(2,3) k(1) q by (auto simp: to_lower_def)
  obtain G2 where G2: "reached02 G2" "sys G2 = S2" "places G2 = [Fresh, Fresh]" "main_at G2 = AtKeys"
    using key_reached02 [OF G1(1,4), of 97 S2 1] G1(2,3) k(2) q by (auto simp: to_lower_def)
  obtain G3 where G3: "reached02 G3" "sys G3 = S3" "places G3 = [Fresh, Fresh]" "main_at G3 = AtKeys"
    using key_reached02 [OF G2(1,4), of 100 S3 0] G2(2,3) k(3) q by (auto simp: to_lower_def)
  show ?thesis
    using key_reached02 [OF G3(1,4), of 97 S4 1] G3(2,3) k(4) q by (auto simp: to_lower_def e)
qed

lemma delete_request_blocks_witness:
  "\<exists>G G'. reached02 G \<and> console_step (mthread02 simple_mutex) 80 25 G G' \<and> threadNr (sys G) = 3 \<and>
     threadDeleteNr (sys G') = 2 \<and> phase_of (places G' ! 1) \<in> {Drawing, Checking}"
proof -
  define S where "S = played02 stuck_schedule"
  define T where "T = projr (readInput_key simple_mutex True 100 S)"
  have n: "\<not> isl (readInput_key simple_mutex True 100 S)" unfolding S_def by code_simp
  have q: "\<not> quitting T" "threads S = [Drawing, Drawing, Drawing]" "threads T = [Drawing, Drawing, Drawing]"
    "threadDeleteNr S = 2" "threadNr S = 3" unfolding T_def S_def by code_simp+
  note k = Inr_projr [OF n, folded T_def]
  obtain G where G: "reached02 G" "sys G = S" "places G = [Fresh, Fresh, Fresh]" "main_at G = AtKeys"
    using overtaken_reach unfolding S_def by blast
  obtain G' where G': "console_step (mthread02 simple_mutex) 80 25 G G'" "main_at G' = AtKeys"
    using key_reached02 [OF G(1,4), of 100 T 0] G(2) k q by (auto simp: to_lower_def)
  from delete_request_blocks [OF G(1) [unfolded reached02_def] _ _ _ _ _ r_into_rtranclp [where r = "console_step (mthread02 simple_mutex) 80 25", OF G'(1)]]
    G G' q show ?thesis by (intro exI [of _ G] exI [of _ G']) simp
qed

end
