(* ===== verification/Queue_Menu.thy ===== *)
theory Queue_Menu
  imports Circle_Queue
begin

text \<open>
  Project1/MyCirQue.c: the menu program over a queue whose header, CircleQueue.h, is not in the
  repository. Its five operations and displayMenu are therefore arguments. The theory shows
  when two queues are the same to the program, that the queue of MyUtil is to it a list of at most
  hundred elements, and that over this queue it is the program of MyUtil/TestCircle.c.
\<close>

section \<open>The program\<close>

text \<open>The function pointers main stores in the object; delete also gives the value it wrote, if any.\<close>

record 'q cirque_ops =
  op_init :: "'q \<Rightarrow> int \<Rightarrow> fault + int \<times> 'q"
  op_dispose :: "'q \<Rightarrow> fault + int"
  op_insert :: "'q \<Rightarrow> int \<Rightarrow> fault + int \<times> 'q"
  op_delete :: "'q \<Rightarrow> fault + int \<times> int option \<times> 'q"
  op_print :: "'q \<Rightarrow> fault + int \<times> string"

text \<open>The input is the list of numbers scanf reads; displayMenu returns its output, the choice and the rest.\<close>

type_synonym menu_fn = "int list \<Rightarrow> fault + string \<times> int \<times> int list"

text \<open>Case 2: \<open>d\<close> has no value before the first removal that writes one.\<close>

fun delete_rounds :: "'q cirque_ops \<Rightarrow> nat \<Rightarrow> nat \<Rightarrow> int option \<Rightarrow> 'q \<Rightarrow> fault + string \<times> 'q" where
  "delete_rounds ops i 0 d q = Inr ([], q)"
| "delete_rounds ops i (Suc n) d q =
     and_then (op_delete ops q) (\<lambda>(_, v, q1).
       case (case v of None \<Rightarrow> d | Some x \<Rightarrow> Some x) of
         None \<Rightarrow> Inl Uninitialised
       | Some x \<Rightarrow>
           and_then (delete_rounds ops (Suc i) n (Some x) q1) (\<lambda>(out, q2).
             Inr (''Removed data['' @ dec_nat i @ '']='' @ dec_int x @ [CHR 0x0A] @ out, q2)))"

text \<open>One round of the loop: the output, \<open>run\<close>, the rest of the input and the queue.\<close>

definition menu_round ::
  "'q cirque_ops \<Rightarrow> menu_fn \<Rightarrow> int list \<Rightarrow> 'q \<Rightarrow> fault + string \<times> bool \<times> int list \<times> 'q"
where
  "menu_round ops menu_of inp q =
     and_then (menu_of inp) (\<lambda>(out0, choice, rest).
       if choice = 1
       then (case rest of
               [] \<Rightarrow> Inl Uninitialised
             | i # rest1 \<Rightarrow>
                 and_then (op_insert ops q i) (\<lambda>(_, q1).
                   Inr (out0 @ ''Enter number to insert'' @ [CHR 0x0A], True, rest1, q1)))
       else if choice = 2
       then (case rest of
               [] \<Rightarrow> Inl Uninitialised
             | n # rest1 \<Rightarrow>
                 and_then (delete_rounds ops 0 (nat n) None q) (\<lambda>(out1, q1).
                   Inr (out0 @ ''Enter number to delete'' @ [CHR 0x0A] @ out1, True, rest1, q1)))
       else if choice = 3
       then and_then (op_print ops q) (\<lambda>(_, out1). Inr (out0 @ out1, True, rest, q))
       else if choice = 4
       then Inr (out0, False, rest, q)
       else Inr (out0 @ CHR 0x0A # ''Invalid Choice. Please enter again.'' @ [CHR 0x0A], True, rest, q))"

text \<open>The loop for at most so many rounds; \<open>None\<close> when they do not suffice.\<close>

fun menu_rounds ::
  "nat \<Rightarrow> 'q cirque_ops \<Rightarrow> menu_fn \<Rightarrow> int list \<Rightarrow> 'q \<Rightarrow> (fault + string \<times> 'q) option"
where
  "menu_rounds 0 ops menu_of inp q = None"
| "menu_rounds (Suc k) ops menu_of inp q =
     (case menu_round ops menu_of inp q of
        Inl e \<Rightarrow> Some (Inl e)
      | Inr (out, run, inp1, q1) \<Rightarrow>
          if run
          then map_option (\<lambda>r. and_then r (\<lambda>(out1, q2). Inr (out @ out1, q2))) (menu_rounds k ops menu_of inp1 q1)
          else Some (Inr (out, q1)))"

definition cirque_main ::
  "'q cirque_ops \<Rightarrow> menu_fn \<Rightarrow> nat \<Rightarrow> 'q \<Rightarrow> int list \<Rightarrow> (fault + string) option"
where
  "cirque_main ops menu_of k q0 inp =
     (case op_init ops q0 100 of
        Inl e \<Rightarrow> Some (Inl e)
      | Inr (_, q) \<Rightarrow>
          map_option (\<lambda>r. and_then r (\<lambda>(out, q1). and_then (op_dispose ops q1) (\<lambda>_. Inr out)))
            (menu_rounds k ops menu_of inp q))"

section \<open>Queues the program cannot tell apart\<close>

text \<open>Faults agree, and results are related.\<close>

abbreviation alike :: "('a \<Rightarrow> 'b \<Rightarrow> bool) \<Rightarrow> fault + 'a \<Rightarrow> fault + 'b \<Rightarrow> bool" where
  "alike A \<equiv> rel_sum (=) A"

lemma alike_then:
  assumes "alike A r s" "\<And>x y. A x y \<Longrightarrow> alike B (f x) (g y)"
  shows "alike B (and_then r f) (and_then s g)"
  using assms by (cases r; cases s) auto

text \<open>Two queues related by \<open>R\<close> refuse, remove and print alike, and stay related.\<close>

locale same_queue =
  fixes ops :: "'q cirque_ops" and ops' :: "'p cirque_ops" and R :: "'q \<Rightarrow> 'p \<Rightarrow> bool"
  assumes insert_alike: "R q p \<Longrightarrow> alike (rel_prod (=) R) (op_insert ops q x) (op_insert ops' p x)"
    and delete_alike: "R q p \<Longrightarrow> alike (rel_prod (=) (rel_prod (=) R)) (op_delete ops q) (op_delete ops' p)"
    and print_alike: "R q p \<Longrightarrow> op_print ops q = op_print ops' p"
    and dispose_alike: "R q p \<Longrightarrow> op_dispose ops q = op_dispose ops' p"
begin

lemma delete_rounds_alike:
  "R q p \<Longrightarrow> alike (rel_prod (=) R) (delete_rounds ops i n d q) (delete_rounds ops' i n d p)"
proof (induction n arbitrary: i d q p)
  case (Suc n)
  show ?case unfolding delete_rounds.simps
    by (rule alike_then [OF delete_alike [OF Suc.prems]])
      (auto split: option.splits intro!: alike_then [OF Suc.IH])
qed simp

lemma round_alike:
  assumes "R q p"
  shows "alike (rel_prod (=) (rel_prod (=) (rel_prod (=) R))) (menu_round ops menu_of inp q) (menu_round ops' menu_of inp p)"
proof (cases "menu_of inp")
  case (Inr r)
  obtain out0 choice rest where r: "r = (out0, choice, rest)" by (cases r)
  consider "choice = 1" | "choice = 2" | "choice \<noteq> 1" "choice \<noteq> 2" by blast
  then show ?thesis
  proof cases
    case 1
    then show ?thesis using Inr r
      by (cases rest) (auto simp: menu_round_def intro!: alike_then [OF insert_alike [OF assms]])
  next
    case 2
    then show ?thesis using Inr r
      by (cases rest) (auto simp: menu_round_def intro!: alike_then [OF delete_rounds_alike [OF assms]])
  next
    case 3
    then show ?thesis using Inr r assms print_alike [OF assms]
      by (cases "op_print ops' p") (auto simp: menu_round_def)
  qed
qed (simp add: menu_round_def)

lemma rounds_alike:
  "R q p \<Longrightarrow> rel_option (alike (rel_prod (=) R)) (menu_rounds k ops menu_of inp q) (menu_rounds k ops' menu_of inp p)"
proof (induction k arbitrary: inp q p)
  case (Suc k)
  from round_alike [OF Suc.prems, of menu_of inp] show ?case
  proof (cases rule: rel_sum.cases)
    case (2 a b)
    then obtain out run inp1 q1 p1 where
      ab: "a = (out, run, inp1, q1)" "b = (out, run, inp1, p1)" "R q1 p1"
      by (cases a; cases b) auto
    from Suc.IH [OF ab(3), of inp1] show ?thesis
      using 2 ab by (auto simp: option.rel_map intro!: alike_then elim!: option.rel_mono_strong)
  qed simp
qed simp

text \<open>A value related by equality is the same value.\<close>

lemma main_alike:
  assumes "alike (rel_prod (=) R) (op_init ops q0 100) (op_init ops' p0 100)"
  shows "cirque_main ops menu_of k q0 inp = cirque_main ops' menu_of k p0 inp"
proof -
  have "rel_option (alike (=)) (cirque_main ops menu_of k q0 inp) (cirque_main ops' menu_of k p0 inp)"
    using assms
  proof (cases rule: rel_sum.cases)
    case (2 a b)
    then obtain rc q p where ab: "a = (rc, q)" "b = (rc, p)" "R q p" by (cases a; cases b) auto
    from rounds_alike [OF ab(3), of k menu_of inp] show ?thesis
      using 2 ab
      by (auto simp: cirque_main_def option.rel_map dispose_alike sum.rel_refl
          intro!: alike_then elim!: option.rel_mono_strong)
  qed (simp add: cirque_main_def)
  then show ?thesis by (simp add: sum.rel_eq option.rel_eq)
qed

end

section \<open>Enough rounds\<close>

text \<open>A menu that reads at least one number a time ends the loop.\<close>

lemma round_consumes:
  assumes "\<And>inp out c rest. menu_of inp = Inr (out, c, rest) \<Longrightarrow> length rest < length inp"
    and "menu_round ops menu_of inp q = Inr (out, run, inp1, q1)"
  shows "length inp1 < length inp"
proof -
  obtain out0 c rest where m: "menu_of inp = Inr (out0, c, rest)"
    and r: "(if c = 1 then \<exists>i. rest = i # inp1 else if c = 2 then \<exists>n. rest = n # inp1 else rest = inp1)"
    using assms(2) by (auto simp: menu_round_def and_then_Inr_iff split: if_splits list.splits)
  show ?thesis using assms(1) [OF m] r by (auto split: if_splits)
qed

lemma rounds_enough:
  assumes "\<And>inp out c rest. menu_of inp = Inr (out, c, rest) \<Longrightarrow> length rest < length inp"
  shows "length inp < k \<Longrightarrow> menu_rounds k ops menu_of inp q \<noteq> None"
proof (induction k arbitrary: inp q)
  case (Suc k)
  show ?case
  proof (cases "menu_round ops menu_of inp q")
    case (Inr r)
    obtain out run inp1 q1 where r: "r = (out, run, inp1, q1)" by (cases r)
    then have "length inp1 < k" using round_consumes [of menu_of ops inp q out run inp1 q1] assms Inr Suc.prems by auto
    from Suc.IH [OF this, of q1] show ?thesis using Inr r by auto
  qed simp
qed simp

section \<open>Over the queue of MyUtil\<close>

definition circle_ops :: "int list option \<Rightarrow> cirque cirque_ops" where
  "circle_ops block =
     \<lparr>op_init = (\<lambda>q cap. Inr (initCirQue block q cap)), op_dispose = (\<lambda>q. disposeCirQue (Some (Automatic, q))),
      op_insert = insertCirQue, op_delete = removeCirQue, op_print = printCirQue\<rparr>"

lemma circle_ops_sel [simp]:
  "op_init (circle_ops block) q cap = Inr (initCirQue block q cap)" "op_insert (circle_ops block) = insertCirQue"
  "op_delete (circle_ops block) = removeCirQue" "op_print (circle_ops block) = printCirQue"
  "op_dispose (circle_ops block) q = disposeCirQue (Some (Automatic, q))"
  by (simp_all add: circle_ops_def)

lemma delete_rounds_circle: "delete_rounds (circle_ops block) i n d q = delete_loop i n d q"
proof (induction n arbitrary: i d q)
  case (Suc n)
  show ?case unfolding delete_rounds.simps delete_loop.simps circle_ops_sel
    by (rule and_then_cong) (auto simp: Suc.IH split: option.splits)
qed simp

lemma displayMenu_consumes: "displayMenu inp = Inr (out, c, rest) \<Longrightarrow> length rest < length inp"
  by (auto simp: displayMenu_def split: list.splits)

text \<open>A round and the rest of the loop are the loop of the other program.\<close>

lemma menu_round_circle:
  "menu_loop inp q = and_then (menu_round (circle_ops block) displayMenu inp q) (\<lambda>(out, run, inp1, q1).
     with_output out (if run then menu_loop inp1 q1 else Inr ([], q1)))"
proof (cases inp)
  case (Cons choice rest)
  consider "choice = 1" | "choice = 2" | "choice \<noteq> 1" "choice \<noteq> 2" by blast
  then show ?thesis
  proof cases
    case 1
    then show ?thesis unfolding Cons
      by (subst menu_loop.simps, cases rest; cases "insertCirQue q (hd rest)")
        (simp_all add: menu_round_def displayMenu_def and_then_assoc split_beta with_output_def)
  next
    case 2
    then show ?thesis unfolding Cons
      by (subst menu_loop.simps, cases rest; cases "delete_loop 0 (nat (hd rest)) None q")
        (simp_all add: menu_round_def displayMenu_def and_then_assoc split_beta with_output_def delete_rounds_circle)
  next
    case 3
    then show ?thesis unfolding Cons
      by (subst menu_loop.simps, cases "printCirQue q")
        (simp_all add: menu_round_def displayMenu_def and_then_assoc split_beta with_output_def)
  qed
qed (simp add: menu_loop.simps menu_round_def displayMenu_def)

lemma menu_rounds_circle:
  "length inp < k \<Longrightarrow> menu_rounds k (circle_ops block) displayMenu inp q = Some (menu_loop inp q)"
proof (induction k arbitrary: inp q)
  case (Suc k)
  note m = menu_round_circle [of inp q block]
  show ?case
  proof (cases "menu_round (circle_ops block) displayMenu inp q")
    case (Inr r)
    obtain out run inp1 q1 where r: "r = (out, run, inp1, q1)" by (cases r)
    then have "length inp1 < k"
      using round_consumes [of displayMenu "circle_ops block" inp q out run inp1 q1] displayMenu_consumes Inr Suc.prems by auto
    from Suc.IH [OF this] show ?thesis using Inr r m by (simp add: with_output_def)
  qed (use m in simp)
qed simp

text \<open>A list of at most hundred numbers that prints as the queue does: its size and its first element so many
  times. Disposing of it faults like disposing of the local object.\<close>

definition list_ops :: "int list cirque_ops" where
  "list_ops =
     \<lparr>op_init = (\<lambda>xs cap. Inr (0, [])), op_dispose = (\<lambda>xs. Inl BadFree),
      op_insert = (\<lambda>xs x. Inr (if length xs < 100 then (0, xs @ [x]) else (-1, xs))),
      op_delete = (\<lambda>xs. Inr (case xs of [] \<Rightarrow> (-1, None, []) | x # ys \<Rightarrow> (0, Some x, ys))),
      op_print = (\<lambda>xs. Inr (case xs of
         [] \<Rightarrow> (-1, ''queue size=0'' @ [CHR 0x0A])
       | x # ys \<Rightarrow> (0, ''queue size='' @ dec_nat (length xs) @ [CHR 0x0A] @
           concat (map (\<lambda>j. dec_int x @ (if j > 1 then '', '' else [])) (rev [1..<length xs + 1])) @ [CHR 0x0A])))\<rparr>"

lemma circle_print:
  assumes "cq_holds n q xs"
  shows "printCirQue q = op_print list_ops xs"
proof (cases xs)
  case Nil
  moreover have "dec_nat 0 = ''0''" by code_simp
  ultimately show ?thesis using assms by (auto simp: cq_holds_def printCirQue_def list_ops_def dec_int_def)
next
  case (Cons x ys)
  obtain d f where q: "cq_data q = Some d" "length d = n" "f < n" "front q = int f"
    "cq_count q = int (Suc (length ys))" "x # ys = cq_elems d f (Suc (length ys))"
    using assms Cons by (auto simp: cq_holds_def)
  have "x = d ! f" using q(6) cq_elems_remove [of f d "length ys"] q(2,3) by simp
  then have "cirque_data q (int f) = Inr x" using q by (simp add: cirque_data_def)
  from print_loop_result [OF this, of "Suc (length ys)"] q(1-5) show ?thesis
    by (simp add: Cons printCirQue_def list_ops_def dec_int_def nat_add_distrib del: upt_Suc print_loop.simps)
qed

interpretation circle_list: same_queue "circle_ops block" list_ops "cq_holds 100" for block
proof unfold_locales
  fix q xs x assume h: "cq_holds 100 q xs"
  show "alike (rel_prod (=) (cq_holds 100)) (op_insert (circle_ops block) q x) (op_insert list_ops xs x)"
  proof (cases "length xs < 100")
    case True
    from cq.ins_room [OF h True, of x] True show ?thesis by (auto simp: list_ops_def)
  next
    case False
    with cq.bound [OF h] have "length xs = 100" by simp
    from cq.ins_full [OF h this, of x] h this show ?thesis by (simp add: list_ops_def)
  qed
next
  fix q xs assume h: "cq_holds 100 q xs"
  show "alike (rel_prod (=) (rel_prod (=) (cq_holds 100))) (op_delete (circle_ops block) q) (op_delete list_ops xs)"
  proof (cases xs)
    case Nil
    then show ?thesis using cq.rem_none [of 100 q] h by (simp add: list_ops_def)
  next
    case (Cons y ys)
    then show ?thesis using cq.rem_some [of 100 q y ys] h by (auto simp: list_ops_def)
  qed
qed (simp_all add: circle_print, simp add: list_ops_def disposeCirQue_def)

section \<open>The dialogue with a list\<close>

text \<open>What is printed when a first-in first-out list of at most hundred numbers is in the place of the queue, up to
  the choice 4; \<open>None\<close> when the rounds or the input do not suffice, or a number is to be removed from the
  empty list. Once the list is empty the number removed last is shown again.\<close>

definition removed_lines :: "nat \<Rightarrow> int list \<Rightarrow> string" where
  "removed_lines n xs = concat (map (\<lambda>i. ''Removed data['' @ dec_nat i @ '']='' @
     dec_int (xs ! min i (length xs - 1)) @ [CHR 0x0A]) [0..<n])"

definition held_lines :: "int list \<Rightarrow> string" where
  "held_lines xs = ''queue size='' @ dec_nat (length xs) @ [CHR 0x0A] @
     (if xs = [] then []
      else concat (map (\<lambda>j. dec_int (hd xs) @ (if j > 1 then '', '' else [])) (rev [1..<length xs + 1])) @ [CHR 0x0A])"

fun dialogue :: "menu_fn \<Rightarrow> nat \<Rightarrow> int list \<Rightarrow> int list \<Rightarrow> string option" where
  "dialogue menu_of 0 inp xs = None"
| "dialogue menu_of (Suc k) inp xs =
     (case menu_of inp of Inl _ \<Rightarrow> None
      | Inr (out0, choice, rest) \<Rightarrow>
          if choice = 4 then Some out0
          else if choice = 1
          then (case rest of [] \<Rightarrow> None
                | i # rest1 \<Rightarrow> map_option (\<lambda>out. out0 @ ''Enter number to insert'' @ [CHR 0x0A] @ out)
                    (dialogue menu_of k rest1 (if length xs < 100 then xs @ [i] else xs)))
          else if choice = 2
          then (case rest of [] \<Rightarrow> None
                | n # rest1 \<Rightarrow> if 0 < n \<and> xs = [] then None
                    else map_option (\<lambda>out. out0 @ ''Enter number to delete'' @ [CHR 0x0A] @ removed_lines (nat n) xs @ out)
                      (dialogue menu_of k rest1 (drop (nat n) xs)))
          else if choice = 3
          then map_option (\<lambda>out. out0 @ held_lines xs @ out) (dialogue menu_of k rest xs)
          else map_option (\<lambda>out. out0 @ CHR 0x0A # ''Invalid Choice. Please enter again.'' @ [CHR 0x0A] @ out)
                 (dialogue menu_of k rest xs))"

definition printed_out :: "(fault + string \<times> 'q) option \<Rightarrow> string option" where
  "printed_out r = (case r of Some (Inr (out, _)) \<Rightarrow> Some out | _ \<Rightarrow> None)"

lemma printed_out_after:
  "printed_out (map_option (\<lambda>r. and_then r (\<lambda>(out1, q2). Inr (out @ out1, q2))) m) = map_option ((@) out) (printed_out m)"
  by (cases m; cases "the m") (auto simp: printed_out_def split: sum.splits)

lemma list_ops_sel [simp]:
  "op_insert list_ops xs x = Inr (if length xs < 100 then (0, xs @ [x]) else (-1, xs))"
  "op_delete list_ops xs = Inr (case xs of [] \<Rightarrow> (-1, None, []) | x # ys \<Rightarrow> (0, Some x, ys))"
  "op_print list_ops xs = Inr (if xs = [] then -1 else 0, held_lines xs)"
proof -
  have "dec_nat 0 = ''0''" by code_simp
  then show "op_print list_ops xs = Inr (if xs = [] then -1 else 0, held_lines xs)"
    by (cases xs) (simp_all add: list_ops_def held_lines_def)
qed (simp_all add: list_ops_def)

text \<open>Removals, with the number removed before them.\<close>

definition nth_from :: "int option \<Rightarrow> int list \<Rightarrow> nat \<Rightarrow> int" where
  "nth_from d xs j = (if xs = [] then the d else xs ! min j (length xs - 1))"

lemma nth_from_Cons: "nth_from d (x # xs) (Suc j) = nth_from (Some x) xs j"
  by (cases xs) (simp_all add: nth_from_def)

lemma delete_rounds_list:
  "delete_rounds list_ops i n d xs =
     (if 0 < n \<and> xs = [] \<and> d = None then Inl Uninitialised
      else Inr (concat (map (\<lambda>j. ''Removed data['' @ dec_nat (i + j) @ '']='' @ dec_int (nth_from d xs j) @ [CHR 0x0A]) [0..<n]),
                drop n xs))"
proof (induction n arbitrary: i d xs)
  case (Suc n)
  have up: "[0..<Suc n] = 0 # map Suc [0..<n]" by (simp only: upt_conv_Cons map_Suc_upt zero_less_Suc)
  show ?case
  proof (cases xs)
    case Nil
    then show ?thesis unfolding up by (cases d) (simp_all add: Suc.IH nth_from_def o_def)
  next
    case (Cons x ys)
    then show ?thesis unfolding up
      by (simp add: Suc.IH nth_from_Cons o_def) (simp add: nth_from_def)
  qed
qed simp

text \<open>The list plays its part of the dialogue.\<close>

lemma dialogue_list: "printed_out (menu_rounds k list_ops menu_of inp xs) = dialogue menu_of k inp xs"
proof (induction k arbitrary: inp xs)
  case 0
  show ?case by (simp add: printed_out_def)
next
  case (Suc k)
  have go: "printed_out (menu_rounds (Suc k) list_ops menu_of inp xs) = map_option ((@) out) (dialogue menu_of k rest ys)"
    if "menu_round list_ops menu_of inp xs = Inr (out, True, rest, ys)" for out rest ys
    using that Suc.IH by (simp add: printed_out_after)
  have bad: "printed_out (menu_rounds (Suc k) list_ops menu_of inp xs) = None"
    if "menu_round list_ops menu_of inp xs = Inl e" for e
    using that by (simp add: printed_out_def)
  show ?case
  proof (cases "menu_of inp")
    case (Inl e)
    then show ?thesis using bad [of e] by (simp add: menu_round_def)
  next
    case (Inr r)
    obtain out0 c rest where r: "r = (out0, c, rest)" by (cases r)
    consider (ins) "c = 1" | (del) "c = 2" | (shw) "c = 3" | (fin) "c = 4"
      | (other) "c \<noteq> 1" "c \<noteq> 2" "c \<noteq> 3" "c \<noteq> 4" by blast
    then show ?thesis
    proof cases
      case ins
      show ?thesis
      proof (cases rest)
        case Nil
        then show ?thesis using ins Inr r bad [of Uninitialised] by (simp add: menu_round_def)
      next
        case (Cons i rest1)
        define ys where "ys = (if length xs < 100 then xs @ [i] else xs)"
        have "menu_round list_ops menu_of inp xs =
            Inr (out0 @ ''Enter number to insert'' @ [CHR 0x0A], True, rest1, ys)"
          using ins Inr r Cons by (simp add: menu_round_def ys_def)
        from go [OF this] show ?thesis using ins Inr r Cons
          by (cases "dialogue menu_of k rest1 ys") (simp_all add: ys_def)
      qed
    next
      case del
      show ?thesis
      proof (cases rest)
        case Nil
        then show ?thesis using del Inr r bad [of Uninitialised] by (simp add: menu_round_def)
      next
        case (Cons n rest1)
        note dr = delete_rounds_list [of 0 "nat n" None xs]
        have "removed_lines (nat n) xs = concat (map (\<lambda>j. ''Removed data['' @ dec_nat (0 + j) @ '']='' @
            dec_int (nth_from None xs j) @ [CHR 0x0A]) [0..<nat n])" if "xs \<noteq> [] \<or> n \<le> 0"
          using that by (auto simp: removed_lines_def nth_from_def)
        then have line: "delete_rounds list_ops 0 (nat n) None xs = Inr (removed_lines (nat n) xs, drop (nat n) xs)"
          if "xs \<noteq> [] \<or> n \<le> 0" using that dr by auto
        show ?thesis
        proof (cases "0 < n \<and> xs = []")
          case True
          then show ?thesis using Cons del Inr r bad [of Uninitialised] dr by (simp add: menu_round_def)
        next
          case False
          then have "delete_rounds list_ops 0 (nat n) None xs = Inr (removed_lines (nat n) xs, drop (nat n) xs)"
            by (intro line) linarith
          then have "menu_round list_ops menu_of inp xs =
              Inr (out0 @ ''Enter number to delete'' @ [CHR 0x0A] @ removed_lines (nat n) xs, True, rest1, drop (nat n) xs)"
            using del Inr r Cons by (simp add: menu_round_def)
          from go [OF this] show ?thesis using del Inr r Cons False
            by (cases "dialogue menu_of k rest1 (drop (nat n) xs)") auto
        qed
      qed
    next
      case shw
      then have "menu_round list_ops menu_of inp xs = Inr (out0 @ held_lines xs, True, rest, xs)"
        using Inr r by (simp add: menu_round_def)
      from go [OF this] show ?thesis using shw Inr r by (cases "dialogue menu_of k rest xs") simp_all
    next
      case fin
      then show ?thesis using Inr r by (simp add: menu_round_def printed_out_def)
    next
      case other
      then have "menu_round list_ops menu_of inp xs =
          Inr (out0 @ CHR 0x0A # ''Invalid Choice. Please enter again.'' @ [CHR 0x0A], True, rest, xs)"
        using Inr r by (simp add: menu_round_def)
      from go [OF this] show ?thesis using other Inr r by (cases "dialogue menu_of k rest xs") simp_all
    qed
  qed
qed

section \<open>Properties\<close>

text \<open>Over the queue of MyUtil the program of MyCirQue.c is the program of TestCircle.c: for every input they
  print the same or end in the same fault, and one round more than there are numbers is enough.\<close>

theorem menu_programs_agree:
  assumes "length inp < k"
  shows "cirque_main (circle_ops block) displayMenu k que0 inp = Some (queue_main que0 block inp)"
  using menu_rounds_circle [OF assms, of block]
  by (cases "initCirQue block que0 100") (simp add: cirque_main_def queue_main_def)

lemma menu_programs_agree_witness:
  "cirque_main (circle_ops (Some (replicate 100 0))) displayMenu 5 (cleared (replicate 100 0)) [1, 7, 2, 1] =
     Some (queue_main (cleared (replicate 100 0)) (Some (replicate 100 0)) [1, 7, 2, 1])"
  by (rule menu_programs_agree) simp

text \<open>
  C24. What the program of MyCirQue.c prints over the queue of MyUtil, when the bytes of the local object happen to
  describe an empty queue of hundred places: for every menu and input and every number of rounds the loop
  comes to its end exactly when the dialogue with a first-in first-out list of at most hundred numbers does, and
  then it has printed that dialogue, numbers removed and shown included. The program itself prints no
  more: it then frees its local object, which is a fault.\<close>

theorem queue_menu_fifo:
  assumes "length d = 100" "capacity que0 = 100" "cq_count que0 = 0" "front que0 = int f" "rear que0 = int f" "f < 100"
  shows "(case menu_rounds k (circle_ops (Some d)) menu_of inp (snd (initCirQue (Some d) que0 100)) of
            Some (Inr (out, _)) \<Rightarrow> Some out | _ \<Rightarrow> None) = dialogue menu_of k inp [] \<and>
    (dialogue menu_of k inp [] \<noteq> None \<longrightarrow> cirque_main (circle_ops (Some d)) menu_of k que0 inp = Some (Inl BadFree))"
proof -
  define q where "q = snd (initCirQue (Some d) que0 100)"
  have h: "cq_holds 100 q []"
    using assms by (auto simp: initCirQue_def cq_holds_def cq_elems_def Let_def q_def)
  have rc: "initCirQue (Some d) que0 100 = (0, q)" by (simp add: initCirQue_def Let_def q_def)
  from circle_list.rounds_alike [OF h, of k "Some d" menu_of inp]
  have out: "printed_out (menu_rounds k (circle_ops (Some d)) menu_of inp q) = printed_out (menu_rounds k list_ops menu_of inp [])"
    by (cases rule: option.rel_cases) (auto simp: printed_out_def elim!: rel_sum.cases)
  then have eq: "printed_out (menu_rounds k (circle_ops (Some d)) menu_of inp q) = dialogue menu_of k inp []"
    by (simp add: dialogue_list)
  moreover have "cirque_main (circle_ops (Some d)) menu_of k que0 inp = Some (Inl BadFree)" if some: "dialogue menu_of k inp [] \<noteq> None"
  proof -
    obtain o1 q1 where "menu_rounds k (circle_ops (Some d)) menu_of inp q = Some (Inr (o1, q1))"
      using some unfolding eq [symmetric]
      by (cases "menu_rounds k (circle_ops (Some d)) menu_of inp q"; cases "the (menu_rounds k (circle_ops (Some d)) menu_of inp q)")
        (auto simp: printed_out_def)
    then show ?thesis by (simp add: cirque_main_def rc disposeCirQue_def)
  qed
  ultimately show ?thesis unfolding printed_out_def q_def by blast
qed

lemma queue_menu_fifo_witness:
  "(case menu_rounds 9 (circle_ops (Some (replicate 100 3))) displayMenu [1, 7, 1, 8, 2, 2, 3, 4]
        (snd (initCirQue (Some (replicate 100 3)) (cleared (replicate 100 0)) 100)) of
      Some (Inr (out, _)) \<Rightarrow> Some out | _ \<Rightarrow> None) =
     Some (menu @ ''Enter number to insert'' @ [CHR 0x0A] @ menu @ ''Enter number to insert'' @ [CHR 0x0A] @
       menu @ ''Enter number to delete'' @ [CHR 0x0A] @ ''Removed data[0]=7'' @ [CHR 0x0A] @ ''Removed data[1]=8'' @ [CHR 0x0A] @
       menu @ ''queue size=0'' @ [CHR 0x0A] @ menu)"
proof -
  have r: "dialogue displayMenu 9 [1, 7, 1, 8, 2, 2, 3, 4] [] =
     Some (menu @ ''Enter number to insert'' @ [CHR 0x0A] @ menu @ ''Enter number to insert'' @ [CHR 0x0A] @
       menu @ ''Enter number to delete'' @ [CHR 0x0A] @ ''Removed data[0]=7'' @ [CHR 0x0A] @ ''Removed data[1]=8'' @ [CHR 0x0A] @
       menu @ ''queue size=0'' @ [CHR 0x0A] @ menu)"
    by code_simp
  have a: "length (replicate 100 (3 :: int)) = 100" "capacity (cleared (replicate 100 0)) = 100"
    "cq_count (cleared (replicate 100 0)) = 0" "front (cleared (replicate 100 0)) = int 0"
    "rear (cleared (replicate 100 0)) = int 0" "(0 :: nat) < 100"
    by (simp_all add: cleared_def)
  show ?thesis by (rule trans [OF conjunct1 [OF queue_menu_fifo [OF a]] r])
qed

end
