(* ===== verification/Demo_Mains.thy ===== *)
theory Demo_Mains
  imports Complex_Main Text_Input Small_Programs
begin

text \<open>
  Demonstration programs of Project1 and MyUtil: the formatted input of Exec01.c, the stream objects of
  IndentStream.cpp, the set of books in the main of Books.cpp, the clocks of ChronoMain.cpp, and the array of zeros in the main of
  FileTransMain.cpp.
\<close>

section \<open>Formatted input\<close>

text \<open>The conversion \<open>%d\<close>: blanks, a sign, digits. \<open>None\<close> is a matching failure; otherwise the number and
  the rest of the input.\<close>

definition scan_d :: "string \<Rightarrow> (int \<times> string) option" where
  "scan_d s =
     (let t = dropWhile is_space s;
          u = (if t \<noteq> [] \<and> hd t \<in> {CHR ''-'', CHR ''+''} then tl t else t);
          ds = takeWhile is_digit u; n = int (read_digits 0 ds)
      in if ds = [] then None
         else Some (if t \<noteq> [] \<and> hd t = CHR ''-'' then - n else n, dropWhile is_digit u))"

text \<open>A format: a conversion that assigns or not, blanks, a character.\<close>

datatype directive = Conv bool | Blanks | Lit char

text \<open>The values assigned, up to the first failure. A number that does not fit the int assigned is undefined.\<close>

fun scanf_d :: "directive list \<Rightarrow> string \<Rightarrow> fault + int list" where
  "scanf_d [] s = Inr []"
| "scanf_d (Conv assign # fs) s =
     (case scan_d s of
        None \<Rightarrow> Inr []
      | Some (v, rest) \<Rightarrow>
          if \<not> assign then scanf_d fs rest
          else if v < - (2 ^ 31) \<or> v \<ge> 2 ^ 31 then Inl SignedOverflow
          else and_then (scanf_d fs rest) (\<lambda>vs. Inr (v # vs)))"
| "scanf_d (Blanks # fs) s = scanf_d fs (dropWhile is_space s)"
| "scanf_d (Lit c # fs) s = (if s \<noteq> [] \<and> hd s = c then scanf_d fs (tl s) else Inr [])"

text \<open>The format \<open>%d %*d,%d %d\<close>.\<close>

definition exec01_format :: "directive list" where
  "exec01_format = [Conv True, Blanks, Conv False, Lit (CHR '',''), Conv True, Blanks, Conv True]"

definition exec01_main :: "string \<Rightarrow> fault + string" where
  "exec01_main inp =
     and_then (scanf_d exec01_format inp) (\<lambda>vs.
       let a = (if length vs > 0 then vs ! 0 else 1); b = (if length vs > 1 then vs ! 1 else 2);
           c = (if length vs > 2 then vs ! 2 else 3)
       in Inr (dec_int a @ '' '' @ dec_int b @ '' '' @ dec_int c @ '' '' @ dec_int 4 @ [newline]))"

section \<open>Indenting streams\<close>

text \<open>A stream that writes through an indenting buffer, or another one.\<close>

datatype ostream = Plain string | Indenting indentbuf

definition make_IndentStream :: "string \<Rightarrow> ostream" where
  "make_IndentStream sink = Indenting (new_indentbuf sink)"

text \<open>The member \<open>indent\<close> of an object changes its own buffer and returns the stream it is given.\<close>

definition IndentStream_indent :: "indentbuf \<Rightarrow> 'a \<Rightarrow> indentbuf \<times> 'a" where
  "IndentStream_indent ib stream = (buf_indent ib, stream)"

text \<open>The manipulator changes an indenting stream and leaves any other alone.\<close>

definition deindent_stream :: "ostream \<Rightarrow> ostream" where
  "deindent_stream stream =
     (case stream of Plain s \<Rightarrow> Plain s | Indenting ib \<Rightarrow> Indenting (buf_deindent ib))"

section \<open>The set of books\<close>

text \<open>An unordered set with a given hash: an element is in it when one of equal hash equals it.\<close>

definition set_find :: "(int \<Rightarrow> nat) \<Rightarrow> book list \<Rightarrow> book \<Rightarrow> book option" where
  "set_find h bs b = find (\<lambda>x. book_hash h x = book_hash h b \<and> book_eq x b) bs"

definition set_insert :: "(int \<Rightarrow> nat) \<Rightarrow> book list \<Rightarrow> book \<Rightarrow> book list" where
  "set_insert h bs b = (if set_find h bs b = None then b # bs else bs)"

definition new_book :: "int \<Rightarrow> string \<Rightarrow> string \<Rightarrow> book" where
  "new_book i a t = \<lparr>book_id = i, author = a, title = t\<rparr>"

text \<open>Shown through a pointer.\<close>

definition show_book_at :: "book option \<Rightarrow> fault + string" where
  "show_book_at p = (case p of None \<Rightarrow> Inl NullDeref | Some b \<Rightarrow> Inr (show_book b))"

text \<open>A failed assertion ends the program.\<close>

definition assert_that :: "bool \<Rightarrow> fault + unit" where
  "assert_that c = (if c then Inr () else Inl Thrown)"

definition books_main :: "(int \<Rightarrow> nat) \<Rightarrow> fault + string" where
  "books_main h =
     (let knife = new_book 3458 ''Zane Grey'' ''The Hash Knife Outfit'';
          dandelion = new_book 1354 ''Paul J. Shanley'' ''Hash & Dandelion Greens'';
          books = set_insert h [] knife;
          books = set_insert h books (new_book 2443 ''Lindgren, Torgny'' ''Hash'');
          books = set_insert h books (new_book 1953 ''Snyder, Bernadette M.''
                    (''Heavenly Hash: A Tasty Mix of a Mother'' @ [CHR 0x27] @ ''s Meditations''))
      in and_then (assert_that (set_find h books knife \<noteq> None)) (\<lambda>_.
         and_then (assert_that (set_find h books dandelion = None)) (\<lambda>_.
         and_then (show_book_at (set_find h books knife)) (\<lambda>s. Inr (s @ [newline])))))"

section \<open>Clocks\<close>

text \<open>A timer keeps the reading of its clock at the start.\<close>

record chrono_timer =
  start_point :: int

definition make_timer :: "int \<Rightarrow> chrono_timer" where
  "make_timer now = \<lparr>start_point = now\<rparr>"

definition timer_elapsed :: "int \<Rightarrow> chrono_timer \<Rightarrow> int" where
  "timer_elapsed now t = now - start_point t"

text \<open>The seconds, for a clock whose ticks last \<open>num / den\<close> seconds; the program computes them in a double.\<close>

definition timer_seconds :: "int \<times> int \<Rightarrow> int \<Rightarrow> chrono_timer \<Rightarrow> rat" where
  "timer_seconds period now t = of_int (timer_elapsed now t) * (of_int (fst period) / of_int (snd period))"

text \<open>A clock in the program: its period and its readings at the start, after the key, and twice in a row.\<close>

record clock_run =
  period :: "int \<times> int"
  at_start :: int
  after_key :: int
  first_now :: int
  second_now :: int

definition show_seconds :: "(rat \<Rightarrow> string) \<Rightarrow> string \<Rightarrow> clock_run \<Rightarrow> string" where
  "show_seconds fixed9 name c =
     name @ fixed9 (timer_seconds (period c) (after_key c) (make_timer (at_start c))) @ '' seconds'' @ [newline]"

definition show_latency :: "string \<Rightarrow> clock_run \<Rightarrow> string" where
  "show_latency name c = name @ dec_int (second_now c - first_now c) @ [newline]"

text \<open>\<open>fixed9\<close> is the text of a number with nine decimals, \<open>utc\<close> the line asctime makes of the time the system
  clock gives last.\<close>

definition chrono_main :: "(rat \<Rightarrow> string) \<Rightarrow> string \<Rightarrow> clock_run \<Rightarrow> clock_run \<Rightarrow> clock_run \<Rightarrow> string" where
  "chrono_main fixed9 utc system steady high =
     ''Type the Enter key: '' @
     show_seconds fixed9 ''system_clock-----------: '' system @
     show_seconds fixed9 ''steady_clock--------: '' steady @
     show_seconds fixed9 ''high_resolution_clock--: '' high @
     newline # show_latency ''system_clock latency-----------: '' system @
     show_latency ''steady_clock latency--------: '' steady @
     show_latency ''high_resolution_clock latency--: '' high @
     newline # ''system_clock::now() reports UTC is '' @ utc @ [newline]"

section \<open>Reading back what was written\<close>

lemma digit_no_space: "is_digit c \<Longrightarrow> \<not> is_space c"
  by (auto simp: is_digit_def is_space_def)

lemma digits_split:
  assumes "rest = [] \<or> \<not> is_digit (hd rest)"
  shows "takeWhile is_digit (dec_nat n @ rest) = dec_nat n" "dropWhile is_digit (dec_nat n @ rest) = rest"
  using assms dec_nat_digits [of n] by (cases rest; simp)+

text \<open>A number followed by no digit is read back, from behind any blanks.\<close>

lemma scan_dec_int:
  assumes "rest = [] \<or> \<not> is_digit (hd rest)"
  shows "scan_d (dec_int x @ rest) = Some (x, rest)" "scan_d (CHR '' '' # dec_int x @ rest) = Some (x, rest)"
proof -
  have b: "is_space (CHR '' '')" "\<not> is_space (CHR ''-'')" by code_simp+
  have d: "\<And>n. is_digit (hd (dec_nat n))" using dec_nat_digits hd_in_set [OF dec_nat_not_empty] by blast
  have "\<not> is_digit (CHR ''-'')" "\<not> is_digit (CHR ''+'')" by code_simp+
  then have sg: "\<And>n. hd (dec_nat n) \<noteq> CHR ''-'' \<and> hd (dec_nat n) \<noteq> CHR ''+''" using d by metis
  show one: "scan_d (dec_int x @ rest) = Some (x, rest)"
  proof (cases "x < 0")
    case True
    then show ?thesis using b digits_split [OF assms, of "nat (- x)"] by (simp add: scan_d_def dec_int_def)
  next
    case False
    have "dropWhile is_space (dec_nat (nat x) @ rest) = dec_nat (nat x) @ rest"
      using digit_no_space [OF d [of "nat x"]] by (cases "dec_nat (nat x)") simp_all
    then show ?thesis using False sg [of "nat x"] digits_split [OF assms, of "nat x"]
      by (simp add: scan_d_def dec_int_def)
  qed
  have "scan_d (CHR '' '' # s) = scan_d s" for s using b(1) by (simp add: scan_d_def)
  then show "scan_d (CHR '' '' # dec_int x @ rest) = Some (x, rest)" using one by simp
qed

lemma drop_blank: "dropWhile is_space (CHR '' '' # s) = dropWhile is_space s"
proof -
  have "is_space (CHR '' '')" by code_simp
  then show ?thesis by simp
qed

lemma drop_blank_int: "dropWhile is_space (dec_int x @ rest) = dec_int x @ rest"
proof -
  have d: "\<not> is_space (hd (dec_nat n))" for n
    using digit_no_space dec_nat_digits hd_in_set [OF dec_nat_not_empty] by blast
  have "\<not> is_space (CHR ''-'')" by code_simp
  then show ?thesis
    using d [of "nat x"] by (cases "dec_nat (nat x)") (simp_all add: dec_int_def)
qed

definition is_int :: "int \<Rightarrow> bool" where
  "is_int x \<longleftrightarrow> - (2 ^ 31) \<le> x \<and> x < 2 ^ 31"

section \<open>Properties\<close>

text \<open>The formatted input of Exec01.c takes the first, third and fourth of four numbers written with blanks and
  one comma, and leaves its fourth variable alone; the second number may have any size.\<close>

theorem exec01_reads:
  assumes "is_int x" "is_int z" "is_int w"
  shows "exec01_main (dec_int x @ '' '' @ dec_int y @ '','' @ dec_int z @ '' '' @ dec_int w) =
    Inr (dec_int x @ '' '' @ dec_int z @ '' '' @ dec_int w @ '' 4'' @ [newline])"
proof -
  have n: "\<not> is_digit (CHR '' '')" "\<not> is_digit (CHR '','')" "is_space (CHR '' '')" by code_simp+
  have four: "dec_int 4 = ''4''" by code_simp
  note scan = scan_dec_int(1) [where rest = "CHR '' '' # r" for r] scan_dec_int(1) [where rest = "CHR '','' # r" for r]
    scan_dec_int(1) [where rest = "[]", simplified]
  have "scanf_d exec01_format (dec_int x @ '' '' @ dec_int y @ '','' @ dec_int z @ '' '' @ dec_int w) = Inr [x, z, w]"
    using assms n by (simp add: exec01_format_def scan drop_blank drop_blank_int drop_blank_int [where rest = "[]", simplified]
      is_int_def)
  then show ?thesis unfolding exec01_main_def by (simp add: four)
qed

lemma exec01_reads_witness: "exec01_main ''10 -3,7 20'' = Inr (''10 7 20 4'' @ [newline])"
proof -
  have "dec_int 10 = ''10''" "dec_int (- 3) = ''-3''" "dec_int 7 = ''7''" "dec_int 20 = ''20''" by code_simp+
  then show ?thesis using exec01_reads [of 10 7 20 "- 3"] by (simp add: is_int_def)
qed

text \<open>Without the comma only the first number is taken.\<close>

theorem exec01_no_comma:
  assumes "is_int x"
  shows "exec01_main (dec_int x @ '' '' @ dec_int y @ '' '' @ rest) = Inr (dec_int x @ '' 2 3 4'' @ [newline])"
proof -
  have n: "\<not> is_digit (CHR '' '')" "is_space (CHR '' '')" by code_simp+
  have d: "dec_int 2 = ''2''" "dec_int 3 = ''3''" "dec_int 4 = ''4''" by code_simp+
  have "scanf_d exec01_format (dec_int x @ '' '' @ dec_int y @ '' '' @ rest) = Inr [x]"
    using assms n scan_dec_int(1) [where rest = "CHR '' '' # r" for r]
    by (simp add: exec01_format_def drop_blank drop_blank_int is_int_def)
  then show ?thesis unfolding exec01_main_def by (simp add: d)
qed

lemma exec01_no_comma_witness: "exec01_main ''1 2 3 4'' = Inr (''1 2 3 4'' @ [newline])"
proof -
  have "dec_int 1 = ''1''" "dec_int 2 = ''2''" by code_simp+
  then show ?thesis using exec01_no_comma [of 1 2 "''3 4''"] by (simp add: is_int_def)
qed

text \<open>The program prints its first book whatever the hash function is, collisions included, and no assertion fails.\<close>

theorem books_main_prints:
  "books_main h = Inr (''ID=3458, Author=Zane Grey, Title=The Hash Knife Outfit'' @ [newline, newline])"
proof -
  have "dec_int 3458 = ''3458''" by code_simp
  then show ?thesis
    by (simp add: books_main_def Let_def set_insert_def set_find_def new_book_def book_eq_def book_hash_def
        assert_that_def show_book_at_def show_book_def)
qed

text \<open>The main of IndentStream.cpp on stream objects.\<close>

theorem indent_main_streams:
  "indent_main acc sink =
    (case make_IndentStream sink of Indenting b0 \<Rightarrow>
       (case deindent_stream (Indenting (put_text acc hex_line (put_text acc (hex_line @ [newline]) b0))) of
          Indenting b1 \<Rightarrow> put_text acc (hex_line @ [newline]) (put_text acc [newline] b1)))"
  by (simp add: indent_main_def make_IndentStream_def deindent_stream_def Let_def)

text \<open>Deindenting takes back what indenting added, and stops at the margin.\<close>

theorem deindent_indent:
  "deindent_stream (Indenting (fst (IndentStream_indent b s))) = Indenting b \<longleftrightarrow> m_indent b \<ge> 0"
  by (cases b) (auto simp: deindent_stream_def IndentStream_indent_def buf_indent_def buf_deindent_def)

text \<open>With a clock that never goes back no time shown is negative, and times add up.\<close>

theorem seconds_add:
  "timer_seconds p t2 (make_timer t0) = timer_seconds p t1 (make_timer t0) + timer_seconds p t2 (make_timer t1)"
  by (simp add: timer_seconds_def timer_elapsed_def make_timer_def algebra_simps add_divide_distrib diff_divide_distrib)

theorem seconds_nonneg:
  assumes "t0 \<le> t1" "0 \<le> fst p" "0 < snd p"
  shows "0 \<le> timer_seconds p t1 (make_timer t0)"
  using assms by (simp add: timer_seconds_def timer_elapsed_def make_timer_def)


section \<open>An array of zeros\<close>

text \<open>The first switched off part of the main of FileTransMain.cpp: ten numbers set to 0 by memset and printed twice
  each. \<open>ar\<close> is what malloc returned, a block of any length with what its cells held, or NULL.\<close>

definition AR_SIZE :: int where "AR_SIZE = 10"

text \<open>The conversion \<open>% 10d\<close>.\<close>

definition space_10d :: "int \<Rightarrow> string" where
  "space_10d i =
     (let t = (if i < 0 then dec_int i else CHR '' '' # dec_int i) in replicate (10 - length t) CHR '' '' @ t)"

definition zeros_line :: "int \<Rightarrow> int \<Rightarrow> string" where
  "zeros_line i v = space_10d i @ '' : ar['' @ dec_int i @ ''] = '' @ dec_int v @ [newline]"

definition zeros_fill :: "int list \<Rightarrow> fault + int list" where
  "zeros_fill ar =
     (if int (length ar) < AR_SIZE then Inl OutOfBounds
      else Inr (replicate (nat AR_SIZE) 0 @ drop (nat AR_SIZE) ar))"

function zeros_loop :: "int list \<Rightarrow> int \<Rightarrow> fault + string" where
  "zeros_loop ar i =
     (if i < AR_SIZE
      then and_then (rd ar i) (\<lambda>v1. and_then (rd ar i) (\<lambda>v2. and_then (zeros_loop ar (i + 1)) (\<lambda>out.
             Inr (zeros_line i v1 @ zeros_line i v2 @ out))))
      else Inr [])"
  by pat_completeness auto
termination
  by (relation "measure (\<lambda>(ar, i). nat (AR_SIZE - i))") auto

declare zeros_loop.simps [simp del]

definition zeros_main :: "int list option \<Rightarrow> fault + string" where
  "zeros_main ar = (case ar of None \<Rightarrow> Inl NullDeref | Some a \<Rightarrow> and_then (zeros_fill a) (\<lambda>a1. zeros_loop a1 0))"

lemma zeros_loop_out:
  assumes "nat AR_SIZE \<le> length a" "\<forall>k < nat AR_SIZE. a ! k = 0" "0 \<le> i" "i \<le> AR_SIZE"
  shows "zeros_loop a i = Inr (concat (map (\<lambda>j. zeros_line j 0 @ zeros_line j 0) [i..AR_SIZE - 1]))"
  using assms
proof (induction a i rule: zeros_loop.induct)
  case (1 a i)
  show ?case
  proof (cases "i < AR_SIZE")
    case True
    then have "a ! nat i = 0" "i < int (length a)" using "1.prems"(1,2,3) by (simp_all add: AR_SIZE_def)
    then have r: "rd a i = Inr 0" using "1.prems"(3) by simp
    have "zeros_loop a (i + 1) = Inr (concat (map (\<lambda>j. zeros_line j 0 @ zeros_line j 0) [i + 1..AR_SIZE - 1]))"
      using "1.IH" [OF True r r] "1.prems" True by simp
    then show ?thesis using True r upto_rec1 [of i "AR_SIZE - 1"] by (subst zeros_loop.simps) simp
  next
    case False
    then show ?thesis by (subst zeros_loop.simps) simp
  qed
qed

text \<open>Whatever the block held, the program prints every index twice with 0; without a block it faults.\<close>

theorem zeros_main_prints:
  assumes "\<And>a. ar = Some a \<Longrightarrow> AR_SIZE \<le> int (length a)"
  shows "zeros_main ar = (if ar = None then Inl NullDeref
    else Inr (concat (map (\<lambda>j. zeros_line j 0 @ zeros_line j 0) [0..9])))"
proof (cases ar)
  case None
  then show ?thesis by (simp add: zeros_main_def)
next
  case (Some a)
  define b :: "int list" where "b = replicate (nat AR_SIZE) 0 @ drop (nat AR_SIZE) a"
  have f: "zeros_fill a = Inr b" using assms [OF Some] by (simp add: zeros_fill_def b_def)
  have "zeros_loop b 0 = Inr (concat (map (\<lambda>j. zeros_line j 0 @ zeros_line j 0) [0..AR_SIZE - 1]))"
    by (rule zeros_loop_out) (simp_all add: b_def nth_append AR_SIZE_def)
  then show ?thesis by (simp add: zeros_main_def Some f AR_SIZE_def)
qed

lemma zeros_main_prints_witness: "zeros_main (Some [7, 7, 7, 7, 7, 7, 7, 7, 7, 7]) =
  Inr (concat (map (\<lambda>j. zeros_line j 0 @ zeros_line j 0) [0..9]))"
  using zeros_main_prints [of "Some [7, 7, 7, 7, 7, 7, 7, 7, 7, 7]"] by (simp add: AR_SIZE_def)

end
