(* ===== verification/Array_Queue.thy ===== *)
theory Array_Queue
  imports Prelude
begin

text \<open>
  struct Queue of Project1/MyTestMain01.cpp (in the source between #if 0 and #endif): a queue meant to be an array
  of nodes that are also linked. The definitions follow the functions as they read; two slips that a
  compiler rejects do not matter for them (\<open>ss.str\<close> without its parentheses in texts of exceptions,
  and \<open>Node\<close> without a default constructor: what the nodes of a new array hold behind the first is an argument).
\<close>

section \<open>State\<close>

text \<open>A pointer to a node: into an array, or to the local variable of an earlier call.\<close>

datatype node_ptr = Null | Cell nat nat | Expired

record qnode =
  q_data :: int
  q_prev :: node_ptr
  q_next :: node_ptr

definition new_qnode :: "int \<Rightarrow> qnode" where
  "new_qnode d = \<lparr>q_data = d, q_prev = Null, q_next = Null\<rparr>"

record array_queue =
  aq_capacity :: int
  aq_size :: "int option"            \<comment> \<open>no value after the second constructor\<close>
  aq_ar :: nat
  aq_front :: node_ptr
  aq_rear :: node_ptr
  aq_frontIdx :: "int option"
  aq_rearIdx :: "int option"
  aq_count :: int

type_synonym qheap = "nat \<Rightarrow> qnode list option"

section \<open>Operations\<close>

text \<open>\<open>new Node[n]\<close> with one initialiser at the address \<open>a\<close>: it throws when there is no room for the initialiser or
  the size, as a size_t, is too great. \<open>fill\<close> is what the other nodes hold.\<close>

definition alloc_nodes :: "qnode \<Rightarrow> nat \<Rightarrow> int \<Rightarrow> qheap \<Rightarrow> fault + qheap" where
  "alloc_nodes fill a n h =
     (if n < 1 \<or> n \<ge> 2 ^ 31 then Inl Thrown
      else Inr (h(a \<mapsto> new_qnode 0 # replicate (nat n - 1) fill)))"

definition new_queue512 :: "qnode \<Rightarrow> nat \<Rightarrow> qheap \<Rightarrow> fault + array_queue \<times> qheap" where
  "new_queue512 fill a h =
     and_then (alloc_nodes fill a 512 h) (\<lambda>h1.
       Inr (\<lparr>aq_capacity = 512, aq_size = Some 0, aq_ar = a, aq_front = Null, aq_rear = Null,
             aq_frontIdx = Some 0, aq_rearIdx = Some 0, aq_count = 0\<rparr>, h1))"

definition new_queue :: "qnode \<Rightarrow> nat \<Rightarrow> int \<Rightarrow> qheap \<Rightarrow> fault + array_queue \<times> qheap" where
  "new_queue fill a cap h =
     and_then (alloc_nodes fill a cap h) (\<lambda>h1.
       Inr (\<lparr>aq_capacity = cap, aq_size = None, aq_ar = a, aq_front = Null, aq_rear = Null,
             aq_frontIdx = None, aq_rearIdx = None, aq_count = 0\<rparr>, h1))"

definition aq_isEmpty :: "array_queue \<Rightarrow> bool" where
  "aq_isEmpty q \<longleftrightarrow> aq_front q = Null"

text \<open>The address of an element; an index one behind the end is still an address.\<close>

definition cell_at :: "nat \<Rightarrow> int option \<Rightarrow> int \<Rightarrow> fault + node_ptr" where
  "cell_at a i n =
     (case i of None \<Rightarrow> Inl Uninitialised
      | Some k \<Rightarrow> if 0 \<le> k \<and> k \<le> n then Inr (Cell a (nat k)) else Inl OutOfBounds)"

text \<open>resize copies the old array over the start of the new one, at the fresh address \<open>a\<close>; alloc sets the count to 0.\<close>

definition aq_resize :: "qnode \<Rightarrow> nat \<Rightarrow> int \<Rightarrow> array_queue \<times> qheap \<Rightarrow> fault + array_queue \<times> qheap" where
  "aq_resize fill a newCapacity qh =
     (let (q, h) = qh; oldAr = aq_ar q; oldCapacity = aq_capacity q
      in and_then (alloc_nodes fill a newCapacity h) (\<lambda>h1.
           case (h1 oldAr, h1 a) of
             (Some old, Some new) \<Rightarrow>
               if nat oldCapacity > length old \<or> nat oldCapacity > length new then Inl OutOfBounds
               else
                 let h2 = h1(a \<mapsto> take (nat oldCapacity) old @ drop (nat oldCapacity) new)
                 in and_then (cell_at a (aq_frontIdx q) newCapacity) (\<lambda>f.
                    and_then (cell_at a (aq_rearIdx q) newCapacity) (\<lambda>r.
                      Inr (q\<lparr>aq_count := 0, aq_ar := a, aq_capacity := newCapacity, aq_front := f, aq_rear := r\<rparr>,
                           h2(oldAr := None))))
           | _ \<Rightarrow> Inl Dangling))"

text \<open>Writing a member of the node behind a pointer.\<close>

definition node_update :: "node_ptr \<Rightarrow> (qnode \<Rightarrow> qnode) \<Rightarrow> qheap \<Rightarrow> fault + qheap" where
  "node_update p f h =
     (case p of Null \<Rightarrow> Inl NullDeref | Expired \<Rightarrow> Inl Dangling
      | Cell a i \<Rightarrow>
          (case h a of None \<Rightarrow> Inl Dangling
           | Some ns \<Rightarrow> if i < length ns then Inr (h(a \<mapsto> ns[i := f (ns ! i)])) else Inl OutOfBounds))"

text \<open>enqueue behind its loop. The node is a copy of the element, so that the pointers stored to it expire on return.\<close>

definition aq_link :: "int \<Rightarrow> array_queue \<times> qheap \<Rightarrow> fault + array_queue \<times> qheap" where
  "aq_link d qh =
     (let (q, h) = qh; c = aq_count q + 1
      in case h (aq_ar q) of None \<Rightarrow> Inl Dangling
         | Some ns \<Rightarrow>
             if \<not> (0 \<le> c \<and> c < int (length ns)) then Inl OutOfBounds
             else
               and_then (node_update (aq_rear q) (\<lambda>n. n\<lparr>q_next := Expired\<rparr>) h) (\<lambda>h1.
               and_then (node_update (aq_front q) (\<lambda>n. n\<lparr>q_prev := Expired\<rparr>) h1) (\<lambda>h2.
                 Inr (q\<lparr>aq_count := c, aq_rear := Expired\<rparr>, h2))))"

lemma resize_room:
  "aq_resize fill a n qh = Inr (q', h') \<Longrightarrow> aq_count q' = 0 \<and> aq_capacity q' = n \<and> 1 \<le> n"
  by (auto simp: aq_resize_def alloc_nodes_def and_then_Inr_iff Let_def split: if_splits prod.splits option.splits)

text \<open>The loop that makes room; \<open>as\<close> gives the addresses of the new arrays. An exception of resize passes through
  unchanged, because it is none of the class that is caught.\<close>

function aq_grow :: "qnode \<Rightarrow> (nat \<Rightarrow> nat) \<Rightarrow> nat \<Rightarrow> array_queue \<times> qheap \<Rightarrow> fault + array_queue \<times> qheap" where
  "aq_grow fill as k qh =
     (if aq_count (fst qh) < aq_capacity (fst qh) then Inr qh
      else if aq_capacity (fst qh) * 2 \<ge> 2 ^ 31 \<or> aq_capacity (fst qh) * 2 < - (2 ^ 31) then Inl SignedOverflow
      else and_then (aq_resize fill (as k) (aq_capacity (fst qh) * 2) qh) (\<lambda>qh1. aq_grow fill as (Suc k) qh1))"
  by pat_completeness auto
termination
  by (relation "measure (\<lambda>(fill, as, k, qh). if aq_count (fst qh) < aq_capacity (fst qh) then 0 else 1)")
    (auto dest: resize_room split: prod.splits)

declare aq_grow.simps [simp del]

definition aq_enqueue :: "qnode \<Rightarrow> (nat \<Rightarrow> nat) \<Rightarrow> int \<Rightarrow> array_queue \<times> qheap \<Rightarrow> fault + array_queue \<times> qheap" where
  "aq_enqueue fill as d qh = and_then (aq_grow fill as 0 qh) (aq_link d)"

text \<open>dequeue: the text on the error stream, the value and the queue. \<open>front - front->next\<close> computes a value that is
  not used; free gets the address of an element of an array that new made.\<close>

definition aq_dequeue :: "array_queue \<times> qheap \<Rightarrow> fault + string \<times> int \<times> array_queue \<times> qheap" where
  "aq_dequeue qh =
     (let (q, h) = qh
      in if aq_isEmpty q then Inr (''Queue is empty'', 0, q, h)
         else
           case aq_front q of
             Cell a i \<Rightarrow>
               (case h a of None \<Rightarrow> Inl Dangling
                | Some ns \<Rightarrow> if i < length ns then Inl BadFree else Inl OutOfBounds)
           | _ \<Rightarrow> Inl Dangling)"

datatype aq_op = Enq int | Deq

fun aq_run :: "qnode \<Rightarrow> (nat \<Rightarrow> nat) \<Rightarrow> aq_op list \<Rightarrow> array_queue \<times> qheap \<Rightarrow> fault + int list" where
  "aq_run fill as [] qh = Inr []"
| "aq_run fill as (Enq d # ops) qh = and_then (aq_enqueue fill as d qh) (aq_run fill as ops)"
| "aq_run fill as (Deq # ops) qh =
     and_then (aq_dequeue qh) (\<lambda>(_, v, qh1). and_then (aq_run fill as ops qh1) (\<lambda>vs. Inr (v # vs)))"

section \<open>A new queue\<close>

definition fresh_queue :: "array_queue \<times> qheap \<Rightarrow> bool" where
  "fresh_queue qh \<longleftrightarrow> aq_count (fst qh) = 0 \<and> aq_front (fst qh) = Null \<and> aq_rear (fst qh) = Null \<and>
     1 \<le> aq_capacity (fst qh) \<and> (\<exists>ns. snd qh (aq_ar (fst qh)) = Some ns \<and> int (length ns) = aq_capacity (fst qh))"

lemma new_queue512_fresh: "new_queue512 fill a h = Inr qh \<Longrightarrow> fresh_queue qh \<and> aq_capacity (fst qh) = 512"
  by (auto simp: new_queue512_def and_then_Inr_iff alloc_nodes_def fresh_queue_def split: if_splits)

lemma new_queue_fresh: "new_queue fill a cap h = Inr qh \<Longrightarrow> fresh_queue qh \<and> aq_capacity (fst qh) = cap"
  by (auto simp: new_queue_def and_then_Inr_iff alloc_nodes_def fresh_queue_def split: if_splits)

lemma fresh_enqueue:
  assumes "fresh_queue qh"
  shows "aq_enqueue fill as d qh = Inl (if aq_capacity (fst qh) = 1 then OutOfBounds else NullDeref)"
  using assms
  by (cases qh) (auto simp: fresh_queue_def aq_enqueue_def aq_grow.simps aq_link_def node_update_def)

lemma fresh_dequeue: "fresh_queue qh \<Longrightarrow> aq_dequeue qh = Inr (''Queue is empty'', 0, qh)"
  by (cases qh) (simp add: fresh_queue_def aq_dequeue_def aq_isEmpty_def)

lemma fresh_run:
  "fresh_queue qh \<Longrightarrow> aq_run fill as ops qh =
    (if \<exists>d. Enq d \<in> set ops then Inl (if aq_capacity (fst qh) = 1 then OutOfBounds else NullDeref)
     else Inr (replicate (length ops) 0))"
proof (induction ops)
  case (Cons op ops)
  then show ?case
    by (cases op) (simp_all add: fresh_enqueue fresh_dequeue ex_disj_distrib)
qed simp

section \<open>Properties\<close>

text \<open>A queue with room for at least two never takes an element: the first enqueue, wherever it stands among the
  calls, writes through the null pointer rear; without one every dequeue reports the empty queue with 0.\<close>

theorem array_queue_useless:
  assumes "new_queue fill a cap h = Inr qh" "cap \<noteq> 1"
  shows "aq_run fill as ops qh =
    (if \<exists>d. Enq d \<in> set ops then Inl NullDeref else Inr (replicate (length ops) 0))"
  using new_queue_fresh [OF assms(1)] assms(2) by (simp add: fresh_run)

lemma array_queue_useless_witness:
  "\<exists>qh. new_queue (new_qnode 5) 0 4 (\<lambda>_. None) = Inr qh \<and>
     aq_run (new_qnode 5) id [Deq, Enq 7, Deq] qh = Inl NullDeref \<and> aq_run (new_qnode 5) id [Deq, Deq] qh = Inr [0, 0]"
proof -
  obtain qh where qh: "new_queue (new_qnode 5) 0 4 (\<lambda>_. None) = Inr qh"
    by (simp add: new_queue_def alloc_nodes_def)
  have "aq_run (new_qnode 5) id [Deq, Enq 7, Deq] qh = Inl NullDeref" "aq_run (new_qnode 5) id [Deq, Deq] qh = Inr [0, 0]"
    using array_queue_useless [OF qh, of id "[Deq, Enq 7, Deq]"] array_queue_useless [OF qh, of id "[Deq, Deq]"]
    by (simp_all add: numeral_2_eq_2 ex_disj_distrib del: aq_run.simps)
  with qh show ?thesis by blast
qed

text \<open>The default queue behaves so too, and a queue for no element cannot be made.\<close>

lemma queue512_useless:
  "new_queue512 fill a h = Inr qh \<Longrightarrow>
   aq_run fill as ops qh = (if \<exists>d. Enq d \<in> set ops then Inl NullDeref else Inr (replicate (length ops) 0))"
  using new_queue512_fresh [of fill a h qh] by (simp add: fresh_run)

lemma no_empty_capacity: "cap < 1 \<Longrightarrow> new_queue fill a cap h = Inl Thrown"
  by (simp add: new_queue_def alloc_nodes_def)

end
