(* ===== verification/Poll_Threads.thy ===== *)
theory Poll_Threads
  imports Poll_Server
begin

text \<open>
  The threads of the transfer server in Project1/FileTransMain.cpp, step by step: how main starts them,
  with the mutex MutexLock and the condition SyncCond, and how the workers share the iterator
  ProcessingFunci. The theory Poll_Server takes a start and a round as one step; here every access to
  shared data is one.
\<close>

section \<open>Starting the threads\<close>

text \<open>Where main is in its loop, and where a thread is before its own loop. A thread that has read its number carries
  it.\<close>

datatype main_pc = Locking | Creating | Waiting | Blocked | Woken | Recording | Unlocking | Joining

datatype thread_pc = Born | Numbered int | Ready int | Holding int | Signalled int | Serving int

text \<open>\<open>su_lock\<close> is the owner of MutexLock: main is 0, the thread created i-th is \<open>Suc i\<close>.\<close>

record startup =
  su_loopi :: nat
  su_pc :: main_pc
  su_lock :: "nat option"
  su_threads :: "thread_pc list"
  su_gpid :: int
  su_pool :: poll_map

definition su_loopj :: "startup \<Rightarrow> int" where
  "su_loopj S = int (su_loopi S) + 1"

definition startup_begin :: startup where
  "startup_begin = \<lparr>su_loopi = 0, su_pc = Locking, su_lock = None, su_threads = [], su_gpid = 0, su_pool = []\<rparr>"

definition pool_entry :: "int \<Rightarrow> int \<Rightarrow> fd_per_signum" where
  "pool_entry signum pid = \<lparr>fs_signum = signum, fs_pid = pid, fs_uid = None\<rparr>"

text \<open>What main does with the new thread once it is awake.\<close>

definition record_thread :: "startup \<Rightarrow> startup" where
  "record_thread S =
     (let f = pool_entry (su_loopj S) (su_gpid S)
      in S\<lparr>su_pool := (if su_loopi S \<noteq> 0 then mm_insert 0 f (su_pool S) else su_pool S), su_pc := Unlocking\<rparr>)"

definition next_lap :: "startup \<Rightarrow> startup" where
  "next_lap S = S\<lparr>su_lock := None, su_loopi := Suc (su_loopi S),
     su_pc := (if Suc (su_loopi S) < length thread_list then Locking else Joining)\<rparr>"

definition thread_to :: "nat \<Rightarrow> thread_pc \<Rightarrow> startup \<Rightarrow> startup" where
  "thread_to i p S = S\<lparr>su_threads := (su_threads S)[i := p]\<rparr>"

text \<open>pthread_create stores the id of the new thread in the element \<open>su_loopi\<close> of the vector threadident.\<close>

definition create_thread :: "startup \<Rightarrow> fault + startup" where
  "create_thread S =
     (if thread_num \<le> su_loopi S then Inl OutOfBounds
      else Inr (S\<lparr>su_threads := su_threads S @ [Born], su_pc := Waiting\<rparr>))"

text \<open>pthread_cond_signal, which has no effect when main does not wait.\<close>

definition signal_main :: "startup \<Rightarrow> startup" where
  "signal_main S = S\<lparr>su_pc := (if su_pc S = Blocked then Woken else su_pc S)\<rparr>"

text \<open>\<open>pid i\<close> is what getpid yields in the i-th thread; \<open>spurious\<close> says whether pthread_cond_wait may return without
  a signal, as POSIX allows.\<close>

inductive startup_step :: "bool \<Rightarrow> (nat \<Rightarrow> int) \<Rightarrow> startup \<Rightarrow> startup \<Rightarrow> bool" for spurious pid where
  lock: "su_pc S = Locking \<Longrightarrow> su_lock S = None \<Longrightarrow>
    startup_step spurious pid S (S\<lparr>su_lock := Some 0, su_pc := Creating\<rparr>)"
| create: "su_pc S = Creating \<Longrightarrow> create_thread S = Inr S' \<Longrightarrow> startup_step spurious pid S S'"
| block: "su_pc S = Waiting \<Longrightarrow> startup_step spurious pid S (S\<lparr>su_lock := None, su_pc := Blocked\<rparr>)"
| wake: "spurious \<Longrightarrow> su_pc S = Blocked \<Longrightarrow> startup_step spurious pid S (S\<lparr>su_pc := Woken\<rparr>)"
| relock: "su_pc S = Woken \<Longrightarrow> su_lock S = None \<Longrightarrow>
    startup_step spurious pid S (S\<lparr>su_lock := Some 0, su_pc := Recording\<rparr>)"
| records: "su_pc S = Recording \<Longrightarrow> startup_step spurious pid S (record_thread S)"
| unlock: "su_pc S = Unlocking \<Longrightarrow> startup_step spurious pid S (next_lap S)"
| reads: "i < length (su_threads S) \<Longrightarrow> su_threads S ! i = Born \<Longrightarrow>
    startup_step spurious pid S (thread_to i (Numbered (su_loopj S)) S)"
| sets_pid: "i < length (su_threads S) \<Longrightarrow> su_threads S ! i = Numbered n \<Longrightarrow>
    startup_step spurious pid S (thread_to i (Ready n) (S\<lparr>su_gpid := pid i\<rparr>))"
| locks: "i < length (su_threads S) \<Longrightarrow> su_threads S ! i = Ready n \<Longrightarrow> su_lock S = None \<Longrightarrow>
    startup_step spurious pid S (thread_to i (Holding n) (S\<lparr>su_lock := Some (Suc i)\<rparr>))"
| signals: "i < length (su_threads S) \<Longrightarrow> su_threads S ! i = Holding n \<Longrightarrow>
    startup_step spurious pid S (thread_to i (Signalled n) (signal_main S))"
| unlocks: "i < length (su_threads S) \<Longrightarrow> su_threads S ! i = Signalled n \<Longrightarrow>
    startup_step spurious pid S (thread_to i (Serving n) (S\<lparr>su_lock := None\<rparr>))"

inductive startup_reach :: "bool \<Rightarrow> (nat \<Rightarrow> int) \<Rightarrow> startup \<Rightarrow> bool" for spurious pid where
  start: "startup_reach spurious pid startup_begin"
| step: "startup_reach spurious pid S \<Longrightarrow> startup_step spurious pid S S' \<Longrightarrow> startup_reach spurious pid S'"

lemma thread_to_sel [simp]:
  "su_loopi (thread_to i p S) = su_loopi S" "su_pc (thread_to i p S) = su_pc S" "su_lock (thread_to i p S) = su_lock S"
  "su_threads (thread_to i p S) = (su_threads S)[i := p]" "su_gpid (thread_to i p S) = su_gpid S"
  "su_pool (thread_to i p S) = su_pool S"
  by (simp_all add: thread_to_def)

lemma signal_main_sel [simp]:
  "su_loopi (signal_main S) = su_loopi S" "su_lock (signal_main S) = su_lock S" "su_threads (signal_main S) = su_threads S"
  "su_gpid (signal_main S) = su_gpid S" "su_pool (signal_main S) = su_pool S"
  "su_pc (signal_main S) = (if su_pc S = Blocked then Woken else su_pc S)"
  by (simp_all add: signal_main_def)

section \<open>The invariant without spurious wake-ups\<close>

text \<open>The threads of the finished laps, and the pool they leave.\<close>

definition serving :: "nat \<Rightarrow> thread_pc list" where
  "serving n = map (\<lambda>i. Serving (int i + 1)) [0..<n]"

fun pool_for :: "(nat \<Rightarrow> int) \<Rightarrow> nat \<Rightarrow> poll_map" where
  "pool_for pid 0 = []"
| "pool_for pid (Suc k) =
     (if k \<noteq> 0 then mm_insert 0 (pool_entry (int k + 1) (pid k)) (pool_for pid k) else pool_for pid k)"

lemma length_serving [simp]: "length (serving n) = n"
  by (simp add: serving_def)

lemma serving_Suc: "serving (Suc n) = serving n @ [Serving (int n + 1)]"
  by (simp add: serving_def)

lemma nth_serving: "i < n \<Longrightarrow> serving n ! i = Serving (int i + 1)"
  by (simp add: serving_def)

text \<open>Lap by lap: what the newest thread may have done, and who holds the lock.\<close>

definition lap_ok :: "(nat \<Rightarrow> int) \<Rightarrow> startup \<Rightarrow> main_pc \<Rightarrow> thread_pc \<Rightarrow> bool" where
  "lap_ok pid S pc c \<longleftrightarrow>
     (let n = su_loopi S; k = int n + 1
      in (case pc of
            Waiting \<Rightarrow> c \<in> {Born, Numbered k, Ready k} \<and> su_lock S = Some 0
          | Blocked \<Rightarrow> c \<in> {Born, Numbered k, Ready k, Holding k} \<and>
              su_lock S = (if c = Holding k then Some (Suc n) else None)
          | Woken \<Rightarrow> c \<in> {Signalled k, Serving k} \<and> su_lock S = (if c = Signalled k then Some (Suc n) else None)
          | _ \<Rightarrow> c = Serving k \<and> su_lock S = Some 0) \<and>
         (c \<in> {Ready k, Holding k, Signalled k, Serving k} \<longrightarrow> su_gpid S = pid n))"

definition startup_inv :: "(nat \<Rightarrow> int) \<Rightarrow> startup \<Rightarrow> bool" where
  "startup_inv pid S \<longleftrightarrow>
     (let n = su_loopi S
      in (case su_pc S of
            Locking \<Rightarrow> su_threads S = serving n \<and> su_lock S = None \<and> n \<le> thread_num \<and> su_pool S = pool_for pid n
          | Creating \<Rightarrow> su_threads S = serving n \<and> su_lock S = Some 0 \<and> n \<le> thread_num \<and> su_pool S = pool_for pid n
          | Joining \<Rightarrow> False
          | pc \<Rightarrow> (\<exists>c. su_threads S = serving n @ [c] \<and> lap_ok pid S pc c) \<and> n < thread_num \<and>
              su_pool S = pool_for pid (if pc = Unlocking then Suc n else n)))"

lemma startup_begin_inv: "startup_inv pid startup_begin"
  by (simp add: startup_inv_def startup_begin_def serving_def)

text \<open>Only the newest thread is not serving, so that a step of a thread is a step of the newest one.\<close>

lemma newest:
  assumes inv: "startup_inv pid S" and i: "i < length (su_threads S)" "su_threads S ! i = c" "\<And>k. c \<noteq> Serving k"
  shows "i = su_loopi S" "su_threads S = serving (su_loopi S) @ [c]" "su_pc S \<in> {Waiting, Blocked, Woken}"
    "lap_ok pid S (su_pc S) c" "su_loopi S < thread_num \<and> su_pool S = pool_for pid (su_loopi S)"
proof -
  let ?n = "su_loopi S"
  have ge: "\<not> i < ?n" if "su_threads S = serving ?n @ cs" for cs
    using i(2) i(3) [of "int i + 1"] nth_serving [of i ?n] that by (auto simp: nth_append)
  then have no: "su_threads S \<noteq> serving ?n" using i(1) by (metis append_Nil2 length_serving)
  then obtain c' where c': "su_threads S = serving ?n @ [c']" "lap_ok pid S (su_pc S) c'" "?n < thread_num"
      "su_pool S = pool_for pid (if su_pc S = Unlocking then Suc ?n else ?n)" "su_pc S \<notin> {Locking, Creating, Joining}"
    using inv by (auto simp: startup_inv_def Let_def split: main_pc.splits)
  show n: "i = ?n" using ge [OF c'(1)] i(1) c'(1) by simp
  then have c: "c' = c" using i(2) c'(1) by (simp add: nth_append)
  then show "su_threads S = serving ?n @ [c]" "lap_ok pid S (su_pc S) c" using c' by simp_all
  show pc: "su_pc S \<in> {Waiting, Blocked, Woken}"
    using c'(2,5) i(3) c by (cases "su_pc S") (auto simp: lap_ok_def Let_def)
  show "?n < thread_num \<and> su_pool S = pool_for pid ?n" using pc c'(3,4) by auto
qed

lemma lap_inv:
  assumes "su_threads S' = serving (su_loopi S') @ [c]" "su_pc S' \<in> {Waiting, Blocked, Woken}" "lap_ok pid S' (su_pc S') c"
    and "su_loopi S' < thread_num \<and> su_pool S' = pool_for pid (su_loopi S')"
  shows "startup_inv pid S'"
  using assms by (auto simp: startup_inv_def Let_def)

lemma startup_step_inv:
  assumes inv: "startup_inv pid S" and s: "startup_step False pid S S'"
  shows "startup_inv pid S'"
  using s
proof (cases rule: startup_step.cases)
  case lock
  with inv show ?thesis by (simp add: startup_inv_def Let_def)
next
  case create
  with inv show ?thesis by (auto simp: startup_inv_def lap_ok_def create_thread_def Let_def split: if_splits)
next
  case block
  with inv show ?thesis by (auto simp: startup_inv_def lap_ok_def Let_def)
next
  case relock
  with inv show ?thesis by (auto simp: startup_inv_def lap_ok_def Let_def split: if_splits)
next
  case records
  with inv show ?thesis by (auto simp: startup_inv_def lap_ok_def record_thread_def su_loopj_def Let_def)
next
  case unlock
  with inv show ?thesis
    by (auto simp: startup_inv_def lap_ok_def next_lap_def serving_Suc thread_list_def Let_def)
next
  case (reads i)
  note n = newest [OF inv reads(2,3) thread_pc.distinct(9)]
  show ?thesis
    by (rule lap_inv [of _ "Numbered (su_loopj S)"])
      (use n reads(1) in \<open>auto simp: lap_ok_def su_loopj_def Let_def list_update_append split: if_splits\<close>)
next
  case (sets_pid i k)
  note n = newest [OF inv sets_pid(2,3) thread_pc.distinct(17)]
  show ?thesis
    by (rule lap_inv [of _ "Ready k"])
      (use n sets_pid(1) in \<open>auto simp: lap_ok_def thread_to_def Let_def list_update_append split: if_splits\<close>)
next
  case (locks i k)
  note n = newest [OF inv locks(2,3) thread_pc.distinct(23)]
  show ?thesis
    by (rule lap_inv [of _ "Holding k"])
      (use n locks(1,4) in \<open>auto simp: lap_ok_def thread_to_def Let_def list_update_append split: if_splits\<close>)
next
  case (signals i k)
  note n = newest [OF inv signals(2,3) thread_pc.distinct(27)]
  show ?thesis
    by (rule lap_inv [of _ "Signalled k"])
      (use n signals(1) in \<open>auto simp: lap_ok_def thread_to_def Let_def list_update_append split: if_splits\<close>)
next
  case (unlocks i k)
  note n = newest [OF inv unlocks(2,3) thread_pc.distinct(29)]
  show ?thesis
    by (rule lap_inv [of _ "Serving k"])
      (use n unlocks(1) in \<open>auto simp: lap_ok_def thread_to_def Let_def list_update_append split: if_splits\<close>)
qed simp

lemma startup_reach_inv: "startup_reach False pid S \<Longrightarrow> startup_inv pid S"
  by (induction rule: startup_reach.induct) (auto intro: startup_begin_inv startup_step_inv)

section \<open>Every start-up ends\<close>

text \<open>What is left to do; each step, spurious or not, makes it less.\<close>

fun pc_rank :: "main_pc \<Rightarrow> nat" where
  "pc_rank Locking = 12" | "pc_rank Creating = 11" | "pc_rank Waiting = 5" | "pc_rank Blocked = 4"
| "pc_rank Woken = 3" | "pc_rank Recording = 2" | "pc_rank Unlocking = 1" | "pc_rank Joining = 0"

fun thread_rank :: "thread_pc \<Rightarrow> nat" where
  "thread_rank Born = 5" | "thread_rank (Numbered n) = 4" | "thread_rank (Ready n) = 3"
| "thread_rank (Holding n) = 2" | "thread_rank (Signalled n) = 1" | "thread_rank (Serving n) = 0"

definition startup_rank :: "startup \<Rightarrow> nat" where
  "startup_rank S = 12 * (thread_num - su_loopi S) + pc_rank (su_pc S) + sum_list (map thread_rank (su_threads S))"

text \<open>main gets past a creation only while an element of the vector is left, so it never joins.\<close>

lemma startup_laps:
  "startup_reach spurious pid S \<Longrightarrow> su_pc S \<noteq> Joining \<and>
    (if su_pc S = Locking \<or> su_pc S = Creating then su_loopi S \<le> thread_num else su_loopi S < thread_num)"
proof (induction rule: startup_reach.induct)
  case start
  show ?case by (simp add: startup_begin_def)
next
  case (step S S')
  from step.hyps(2) show ?case
    by (cases rule: startup_step.cases)
      (use step.IH in \<open>auto simp: record_thread_def next_lap_def create_thread_def thread_list_def Let_def split: if_splits\<close>)
qed

lemma thread_to_rank:
  "i < length (su_threads S) \<Longrightarrow> thread_rank p < thread_rank (su_threads S ! i) \<Longrightarrow>
    startup_rank (thread_to i p S) < startup_rank S"
  using sum_list_update_less [of i "su_threads S" thread_rank p] by (simp add: startup_rank_def)

lemma startup_step_rank:
  assumes "startup_reach spurious pid S" "startup_step spurious pid S S'"
  shows "startup_rank S' < startup_rank S"
  using assms(2)
proof (cases rule: startup_step.cases)
  case unlock
  then have l: "su_loopi S < thread_num" using startup_laps [OF assms(1)] by simp
  then have "12 * (thread_num - su_loopi S) = 12 + 12 * (thread_num - Suc (su_loopi S))" by linarith
  with unlock l show ?thesis by (simp add: startup_rank_def next_lap_def thread_list_def)
next
  case create
  then show ?thesis by (auto simp: startup_rank_def create_thread_def split: if_splits)
next
  case (signals i n)
  have "startup_rank S' \<le> startup_rank (thread_to i (Signalled n) S)"
    using signals(1) by (simp add: startup_rank_def)
  also have "\<dots> < startup_rank S" by (rule thread_to_rank [OF signals(2)]) (simp add: signals(3))
  finally show ?thesis .
next
  case (reads i)
  show ?thesis unfolding reads(1) by (rule thread_to_rank [OF reads(2)]) (simp add: reads(3))
next
  case (sets_pid i n)
  have "startup_rank S' = startup_rank (thread_to i (Ready n) S)" using sets_pid(1) by (simp add: startup_rank_def)
  also have "\<dots> < startup_rank S" by (rule thread_to_rank [OF sets_pid(2)]) (simp add: sets_pid(3))
  finally show ?thesis .
next
  case (locks i n)
  have "startup_rank S' = startup_rank (thread_to i (Holding n) S)" using locks(1) by (simp add: startup_rank_def)
  also have "\<dots> < startup_rank S" by (rule thread_to_rank [OF locks(2)]) (simp add: locks(3))
  finally show ?thesis .
next
  case (unlocks i n)
  have "startup_rank S' = startup_rank (thread_to i (Serving n) S)" using unlocks(1) by (simp add: startup_rank_def)
  also have "\<dots> < startup_rank S" by (rule thread_to_rank [OF unlocks(2)]) (simp add: unlocks(3))
  finally show ?thesis .
qed (simp_all add: startup_rank_def record_thread_def Let_def)

text \<open>Without spurious wake-ups no state is stuck but the creation that leaves the vector: main or the newest
  thread can go on.\<close>

lemma startup_progress:
  assumes "startup_inv pid S" "\<not> (su_pc S = Creating \<and> create_thread S = Inl OutOfBounds)"
  shows "\<exists>S'. startup_step False pid S S'"
proof -
  have nt: "i < length (su_threads S) \<and> su_threads S ! i = c" if "su_threads S = serving i @ [c]" for i c
    using that by (simp add: nth_append)
  have go: "\<exists>S'. startup_step False pid S S'"
    if l: "su_threads S = serving (su_loopi S) @ [c]" "lap_ok pid S (su_pc S) c" "su_pc S \<in> {Blocked, Woken}" for c
  proof (cases c)
    case Born
    then show ?thesis using startup_step.reads nt [OF l(1)] by blast
  next
    case (Numbered k)
    then show ?thesis using startup_step.sets_pid nt [OF l(1)] by blast
  next
    case (Ready k)
    then have "su_lock S = None" using l(2,3) by (auto simp: lap_ok_def Let_def)
    then show ?thesis using Ready startup_step.locks nt [OF l(1)] by blast
  next
    case (Holding k)
    then show ?thesis using startup_step.signals nt [OF l(1)] by blast
  next
    case (Signalled k)
    then show ?thesis using startup_step.unlocks nt [OF l(1)] by blast
  next
    case (Serving k)
    then have "su_pc S = Woken" "su_lock S = None" using l(2,3) by (auto simp: lap_ok_def Let_def)
    then show ?thesis using startup_step.relock by blast
  qed
  show ?thesis
  proof (cases "su_pc S")
    case Locking
    then have "su_lock S = None" using assms(1) by (simp add: startup_inv_def Let_def)
    with Locking show ?thesis using startup_step.lock by blast
  next
    case Blocked
    then show ?thesis using assms(1) go by (auto simp: startup_inv_def Let_def)
  next
    case Woken
    then show ?thesis using assms(1) go by (auto simp: startup_inv_def Let_def)
  next
    case Joining
    with assms(1) show ?thesis by (simp add: startup_inv_def Let_def)
  next
    case Creating
    with assms(2) show ?thesis using startup_step.create by (fastforce simp: create_thread_def split: if_splits)
  qed (use startup_step.block startup_step.records startup_step.unlock in blast)+
qed

lemma startup_power_reach: "(startup_step spurious pid ^^ n) startup_begin S \<Longrightarrow> startup_reach spurious pid S"
  by (induction n arbitrary: S) (auto intro: startup_reach.intros)

lemma startup_power_rank:
  "(startup_step spurious pid ^^ n) startup_begin S \<Longrightarrow> n + startup_rank S \<le> startup_rank startup_begin"
proof (induction n arbitrary: S)
  case (Suc n)
  then obtain T where T: "(startup_step spurious pid ^^ n) startup_begin T" "startup_step spurious pid T S" by auto
  from startup_step_rank [OF startup_power_reach [OF T(1)] T(2)] Suc.IH [OF T(1)] show ?case by simp
qed simp

lemma startup_rank_bounds:
  "startup_rank startup_begin = 36" "startup_reach spurious pid S \<Longrightarrow> 11 \<le> startup_rank S"
proof -
  show "startup_rank startup_begin = 36" by (simp add: startup_rank_def startup_begin_def thread_num_def)
  assume "startup_reach spurious pid S"
  from startup_laps [OF this] have "su_loopi S < thread_num \<or> su_pc S = Locking \<or> su_pc S = Creating"
    by (simp split: if_splits)
  then show "11 \<le> startup_rank S"
  proof (elim disjE)
    assume "su_loopi S < thread_num"
    then have "1 \<le> thread_num - su_loopi S" by simp
    then show ?thesis unfolding startup_rank_def by linarith
  qed (simp_all add: startup_rank_def)
qed

text \<open>Some run cannot go on: one to a state of least rank.\<close>

lemma startup_run_stops:
  "\<exists>n S. (startup_step spurious pid ^^ n) startup_begin S \<and> (\<nexists>S'. startup_step spurious pid S S')"
proof -
  let ?P = "\<lambda>S. \<exists>n. (startup_step spurious pid ^^ n) startup_begin S"
  have "?P startup_begin" by (rule exI [of _ 0]) simp
  then obtain S where S: "?P S" "\<And>T. ?P T \<Longrightarrow> startup_rank S \<le> startup_rank T"
    using ex_has_least_nat [of ?P startup_begin startup_rank] by blast
  have "\<not> startup_step spurious pid S T" for T
  proof
    assume t: "startup_step spurious pid S T"
    with S(1) have "?P T" by (meson relpowp_Suc_I)
    moreover have "startup_rank T < startup_rank S" using S(1) t startup_step_rank startup_power_reach by blast
    ultimately show False using S(2) by (metis leD)
  qed
  with S(1) show ?thesis by blast
qed

text \<open>The sample of what the operating system answers, for the witnesses.\<close>

definition sample_env :: "nat \<Rightarrow> thread_env" where
  "sample_env i = \<lparr>te_pid = 100 + int i, te_garbage = replicate 4 NUL, te_socket = 3, te_bind = 0,
     te_listen = 0, te_fcntl = (0, 0, 0)\<rparr>"

text \<open>A run that cannot go on, without spurious wake-ups.\<close>

lemma startup_stuck:
  assumes "startup_reach False pid S" "\<nexists>S'. startup_step False pid S S'"
  shows "startup_inv pid S \<and> su_pc S = Creating \<and> create_thread S = Inl OutOfBounds \<and>
    su_threads S = map Serving [1, 2] \<and> su_pool S = [(0, pool_entry 2 (pid 1))]"
proof -
  have inv: "startup_inv pid S" by (rule startup_reach_inv [OF assms(1)])
  then have c: "su_pc S = Creating" "create_thread S = Inl OutOfBounds" using startup_progress assms(2) by blast+
  then have "su_loopi S = 2" "su_threads S = serving (su_loopi S)" "su_pool S = pool_for pid (su_loopi S)"
    using inv by (auto simp: startup_inv_def create_thread_def thread_num_def Let_def split: if_splits)
  then show ?thesis using inv c by (simp add: serving_def numeral_2_eq_2)
qed

section \<open>A schedule with spurious wake-ups\<close>

text \<open>One action: main's next step, where a wait returns at once, or the next step of a thread.\<close>

definition startup_act :: "(nat \<Rightarrow> int) \<Rightarrow> nat option \<Rightarrow> startup \<Rightarrow> startup option" where
  "startup_act pid a S =
     (case a of
        None \<Rightarrow>
          (case su_pc S of
             Locking \<Rightarrow> if su_lock S = None then Some (S\<lparr>su_lock := Some 0, su_pc := Creating\<rparr>) else None
           | Creating \<Rightarrow> (case create_thread S of Inl _ \<Rightarrow> None | Inr S' \<Rightarrow> Some S')
           | Waiting \<Rightarrow> Some (S\<lparr>su_lock := None, su_pc := Blocked\<rparr>)
           | Blocked \<Rightarrow> Some (S\<lparr>su_pc := Woken\<rparr>)
           | Woken \<Rightarrow> if su_lock S = None then Some (S\<lparr>su_lock := Some 0, su_pc := Recording\<rparr>) else None
           | Recording \<Rightarrow> Some (record_thread S)
           | Unlocking \<Rightarrow> Some (next_lap S)
           | Joining \<Rightarrow> None)
      | Some i \<Rightarrow>
          if i < length (su_threads S)
          then (case su_threads S ! i of
                  Born \<Rightarrow> Some (thread_to i (Numbered (su_loopj S)) S)
                | Numbered n \<Rightarrow> Some (thread_to i (Ready n) (S\<lparr>su_gpid := pid i\<rparr>))
                | Ready n \<Rightarrow> if su_lock S = None then Some (thread_to i (Holding n) (S\<lparr>su_lock := Some (Suc i)\<rparr>)) else None
                | Holding n \<Rightarrow>
                    Some (thread_to i (Signalled n) (signal_main S))
                | Signalled n \<Rightarrow> Some (thread_to i (Serving n) (S\<lparr>su_lock := None\<rparr>))
                | Serving n \<Rightarrow> None)
          else None)"

lemma startup_act_step: "startup_act pid a S = Some S' \<Longrightarrow> startup_step True pid S S'"
  unfolding startup_act_def
  by (auto split: option.splits main_pc.splits thread_pc.splits if_splits sum.splits intro: startup_step.intros)

fun startup_run :: "(nat \<Rightarrow> int) \<Rightarrow> nat option list \<Rightarrow> startup \<Rightarrow> startup option" where
  "startup_run pid [] S = Some S"
| "startup_run pid (a # as) S = (case startup_act pid a S of None \<Rightarrow> None | Some S' \<Rightarrow> startup_run pid as S')"

lemma startup_run_reach: "startup_run pid as S = Some S' \<Longrightarrow> startup_reach True pid S \<Longrightarrow> startup_reach True pid S'"
proof (induction as arbitrary: S)
  case (Cons a as)
  then obtain S1 where "startup_act pid a S = Some S1" "startup_run pid as S1 = Some S'"
    by (auto split: option.splits)
  with Cons show ?case using startup_reach.step startup_act_step by blast
qed simp

section \<open>Properties of the start-up\<close>

text \<open>
  C25. The start-up of the transfer server with its mutex and condition. Every run, wake-ups without a signal
  included, has at most 25 steps. When no wait returns without a signal, a run that cannot go on stands at the
  third pthread_create, which writes behind the vector of thread ids; then the acceptor and one worker have
  started, each with its own number, and the pool is the one of the same laps run in sequence, which end in
  the same fault.\<close>

theorem startup_completes:
  assumes "(startup_step spurious (\<lambda>i. te_pid (env i)) ^^ n) startup_begin S"
  shows "n \<le> 25 \<and>
    (\<not> spurious \<and> (\<nexists>S'. startup_step spurious (\<lambda>i. te_pid (env i)) S S') \<longrightarrow>
       su_pc S = Creating \<and> create_thread S = Inl OutOfBounds \<and> su_threads S = map Serving [1, 2] \<and>
       (\<exists>S1. start_loop rtmin env (take thread_num thread_list) 0 registered_server = Inr S1 \<and>
          su_pool S = poll_map (glob S1)) \<and>
       transfer_main rtmin env = Inl OutOfBounds)"
proof (intro conjI impI, goal_cases)
  case 1
  show ?case using startup_power_rank [OF assms] startup_rank_bounds(1)
      startup_rank_bounds(2) [OF startup_power_reach [OF assms]] by linarith
next
  case 2
  then have "startup_inv (\<lambda>i. te_pid (env i)) S" "su_pc S = Creating" "create_thread S = Inl OutOfBounds"
    using startup_stuck [OF startup_power_reach] assms by auto
  then show ?case by blast
next
  case 3
  then show ?case using startup_stuck [OF startup_power_reach] assms by auto
next
  case 4
  then show ?case using startup_stuck [OF startup_power_reach] assms by auto
next
  case 5
  obtain S1 where "first_laps rtmin env = Inr S1"
      "poll_map (glob S1) = [(0, \<lparr>fs_signum = 2, fs_pid = te_pid (env 1), fs_uid = None\<rparr>)]"
    using first_laps_ok by blast
  with 5 show ?case using startup_stuck [OF startup_power_reach] assms
    by (auto simp: first_laps_def pool_entry_def)
next
  case 6
  show ?case by (rule transfer_main_overruns)
qed

lemma startup_completes_witness:
  "\<exists>n S. (startup_step False (\<lambda>i. te_pid (sample_env i)) ^^ n) startup_begin S \<and> n \<le> 25 \<and>
     su_threads S = map Serving [1, 2]"
proof -
  obtain n S where s: "(startup_step False (\<lambda>i. te_pid (sample_env i)) ^^ n) startup_begin S"
      "\<nexists>S'. startup_step False (\<lambda>i. te_pid (sample_env i)) S S'"
    using startup_run_stops [of False "\<lambda>i. te_pid (sample_env i)"] by blast
  from startup_completes [OF s(1), of 34] s show ?thesis by blast
qed

text \<open>Without that assumption it fails: when each wait returns at once, main passes its two laps before the threads
  have read their numbers through the pointer to its loop variable, and both serve the number 3; the worker
  of the pool, 2, does not exist.\<close>

theorem spurious_wakeups_misnumber:
  "\<exists>S. startup_reach True (\<lambda>i. 77) S \<and> su_pc S = Creating \<and> su_threads S = map Serving [3, 3] \<and>
     map (\<lambda>(k, f). (k, fs_signum f, fs_pid f)) (su_pool S) = [(0, 2, 0)]"
proof -
  define acts where "acts = replicate 14 None @ concat (map (\<lambda>i. replicate 5 (Some i)) [0, 1 :: nat]) @ [None]"
  have "case startup_run (\<lambda>i. 77) acts startup_begin of None \<Rightarrow> False
    | Some S \<Rightarrow> su_pc S = Creating \<and> su_threads S = map Serving [3, 3] \<and>
        map (\<lambda>(k, f). (k, fs_signum f, fs_pid f)) (su_pool S) = [(0, 2, 0)]"
    unfolding acts_def by code_simp
  then show ?thesis
    using startup_run_reach [OF _ startup_reach.start, of "\<lambda>i. 77" acts] by (auto split: option.splits)
qed

section \<open>Looking up a command with a shared iterator\<close>

text \<open>ProcessingFunci: not set yet, at the end of ProcessingMap, or at an element.\<close>

datatype proc_iter = Singular | At_end | At_elem string handler

text \<open>Where a worker is in lines 235 to 245, with the command in its buffer.\<close>

datatype lookup_pc =
    Idle | Finding string | Testing string | Fetching string | Calling string handler | Unknown string

record lookup =
  lk_map :: "string \<Rightarrow> handler option"
  lk_iter :: proc_iter
  lk_workers :: "lookup_pc list"

definition lookup_begin :: "nat \<Rightarrow> lookup" where
  "lookup_begin n = \<lparr>lk_map = processing_map (ProtocolFuncRegist (glob empty_server)), lk_iter = Singular,
     lk_workers = replicate n Idle\<rparr>"

definition worker_to :: "nat \<Rightarrow> lookup_pc \<Rightarrow> lookup \<Rightarrow> lookup" where
  "worker_to i p S = S\<lparr>lk_workers := (lk_workers S)[i := p]\<rparr>"

text \<open>The next access of a worker to the iterator; \<open>cmd\<close> is the next command when it is idle or has finished one.\<close>

definition lookup_act :: "nat \<Rightarrow> string \<Rightarrow> lookup \<Rightarrow> fault + lookup" where
  "lookup_act i cmd S =
     (case lk_workers S ! i of
        Finding c \<Rightarrow>
          Inr (worker_to i (Testing c)
            (S\<lparr>lk_iter := (case lk_map S c of None \<Rightarrow> At_end | Some h \<Rightarrow> At_elem c h)\<rparr>))
      | Testing c \<Rightarrow> Inr (worker_to i (if lk_iter S \<noteq> At_end then Fetching c else Unknown c) S)
      | Fetching c \<Rightarrow>
          (case lk_iter S of At_elem k h \<Rightarrow> Inr (worker_to i (Calling c h) S) | _ \<Rightarrow> Inl Dangling)
      | _ \<Rightarrow> Inr (worker_to i (Finding cmd) S))"

inductive lookup_reach :: "nat \<Rightarrow> lookup \<Rightarrow> bool" for n where
  start: "lookup_reach n (lookup_begin n)"
| act: "lookup_reach n S \<Longrightarrow> i < n \<Longrightarrow> lookup_act i cmd S = Inr S' \<Longrightarrow> lookup_reach n S'"

text \<open>A single worker finds its iterator as it left it.\<close>

fun lookup_fits :: "(string \<Rightarrow> handler option) \<Rightarrow> proc_iter \<Rightarrow> lookup_pc \<Rightarrow> bool" where
  "lookup_fits m it (Testing c) = (it = (case m c of None \<Rightarrow> At_end | Some h \<Rightarrow> At_elem c h))"
| "lookup_fits m it (Fetching c) = (\<exists>h. m c = Some h \<and> it = At_elem c h)"
| "lookup_fits m it (Calling c h) = (m c = Some h)"
| "lookup_fits m it (Unknown c) = (m c = None)"
| "lookup_fits m it _ = True"

lemma lookup_begin_sel:
  "lk_map (lookup_begin n) = command_table" "lk_workers (lookup_begin n) = replicate n Idle"
  by (simp_all add: lookup_begin_def ProtocolFuncRegist_def empty_server_def command_table_def)

lemma lookup_reach_map: "lookup_reach n S \<Longrightarrow> lk_map S = command_table"
proof (induction rule: lookup_reach.induct)
  case (act S i cmd S')
  then show ?case
    by (auto simp: lookup_act_def worker_to_def split: lookup_pc.splits proc_iter.splits)
qed (simp add: lookup_begin_sel)

lemma lookup_alone_inv:
  "lookup_reach 1 S \<Longrightarrow> \<exists>p. lk_workers S = [p] \<and> lookup_fits (lk_map S) (lk_iter S) p"
proof (induction rule: lookup_reach.induct)
  case start
  show ?case by (simp add: lookup_begin_def)
next
  case (act S i cmd S')
  then obtain p where p: "lk_workers S = [p]" "lookup_fits (lk_map S) (lk_iter S) p" "i = 0" by auto
  with act.hyps(3) show ?case
    by (cases p) (auto simp: lookup_act_def worker_to_def split: option.splits)
qed

fun lookup_run :: "(nat \<times> string) list \<Rightarrow> lookup \<Rightarrow> fault + lookup" where
  "lookup_run [] S = Inr S"
| "lookup_run ((i, cmd) # as) S = and_then (lookup_act i cmd S) (lookup_run as)"

lemma lookup_run_reach:
  "lookup_run as S = Inr S' \<Longrightarrow> lookup_reach n S \<Longrightarrow> \<forall>(i, cmd) \<in> set as. i < n \<Longrightarrow> lookup_reach n S'"
  by (induction as S rule: lookup_run.induct) (auto simp: and_then_Inr_iff intro: lookup_reach.act)

section \<open>Properties of the lookup\<close>

text \<open>
  C40. The workers share the iterator of the lookup without a lock. One worker alone gets the lookup right: it
  never faults, it calls the function the table of commands gives for its command, and calls a command
  unknown only if the table does not have it. With two workers every mix-up is possible: for every two
  registered commands a worker with the first can call the function of the second, and for every
  registered and every unregistered command a worker with the first can dereference the end of the map.\<close>

theorem lookup_race:
  "(\<forall>S cmd. lookup_reach 1 S \<longrightarrow> (\<exists>S'. lookup_act 0 cmd S = Inr S') \<and>
      (\<forall>c h. lk_workers S = [Calling c h] \<longrightarrow> command_table c = Some h) \<and>
      (\<forall>c. lk_workers S = [Unknown c] \<longrightarrow> command_table c = None)) \<and>
   (\<forall>c h d. command_table c = Some h \<longrightarrow>
      (case command_table d of
         Some h' \<Rightarrow> \<exists>S. lookup_reach 2 S \<and> lk_workers S ! 0 = Calling c h'
       | None \<Rightarrow> \<exists>S. lookup_reach 2 S \<and> lk_workers S ! 0 = Fetching c \<and> lookup_act 0 [] S = Inl Dangling))"
proof (intro conjI allI impI)
  fix S cmd assume r: "lookup_reach 1 S"
  from lookup_alone_inv [OF r] obtain p where p: "lk_workers S = [p]" "lookup_fits (lk_map S) (lk_iter S) p"
    by blast
  then show "\<exists>S'. lookup_act 0 cmd S = Inr S'" by (cases p) (auto simp: lookup_act_def)
  show "command_table c = Some h" if "lk_workers S = [Calling c h]" for c h
    using p lookup_reach_map [OF r] unfolding that by auto
  show "command_table c = None" if "lk_workers S = [Unknown c]" for c
    using p lookup_reach_map [OF r] unfolding that by auto
next
  fix c h d assume c: "command_table c = Some h"
  define as where "as = [(0 :: nat, c), (0, []), (0, []), (1, d), (1, [])]"
  have i: "\<forall>(i, cmd) \<in> set as. i < 2" by (simp add: as_def)
  obtain S where S: "lookup_run as (lookup_begin 2) = Inr S" "lk_workers S = [Fetching c, Testing d]"
      "lk_iter S = (case command_table d of None \<Rightarrow> At_end | Some h' \<Rightarrow> At_elem d h')"
    using c by (simp add: as_def lookup_act_def worker_to_def lookup_begin_sel numeral_2_eq_2)
  have r: "lookup_reach 2 S" by (rule lookup_run_reach [OF S(1) lookup_reach.start i])
  show "case command_table d of
      Some h' \<Rightarrow> \<exists>S. lookup_reach 2 S \<and> lk_workers S ! 0 = Calling c h'
    | None \<Rightarrow> \<exists>S. lookup_reach 2 S \<and> lk_workers S ! 0 = Fetching c \<and> lookup_act 0 [] S = Inl Dangling"
  proof (cases "command_table d")
    case None
    then have "lookup_act 0 [] S = Inl Dangling" using S by (simp add: lookup_act_def)
    with None r S(2) show ?thesis by auto
  next
    case (Some h')
    have "lookup_act 0 [] S = Inr (worker_to 0 (Calling c h') S)" using S Some by (simp add: lookup_act_def)
    from lookup_reach.act [OF r _ this] have "lookup_reach 2 (worker_to 0 (Calling c h') S)" by simp
    moreover have "lk_workers (worker_to 0 (Calling c h') S) ! 0 = Calling c h'" using S(2) by (simp add: worker_to_def)
    ultimately show ?thesis using Some by auto
  qed
qed

lemma lookup_race_witness:
  "(\<exists>S. lookup_reach 2 S \<and> lk_workers S ! 0 = Calling ''login'' ProcessQuit) \<and>
   (\<exists>S. lookup_reach 2 S \<and> lk_workers S ! 0 = Fetching ''login'' \<and> lookup_act 0 [] S = Inl Dangling)"
proof -
  have t: "command_table ''login'' = Some ProcessLogin" "command_table ''quit'' = Some ProcessQuit"
    "command_table ''what'' = None" by (simp_all add: command_table_def)
  note race = conjunct2 [OF lookup_race, rule_format, OF t(1)]
  from race [of "''quit''", unfolded t option.case] race [of "''what''", unfolded t option.case] show ?thesis
    by (rule conjI)
qed

end
