(* ===== verification/Logger_Threads.thy ===== *)
theory Logger_Threads
  imports Logger "HOL-Library.Multiset"
begin

text \<open>
  The threads around one log of Project1/MLogger.cpp: callers of log, pause and resume, and the writer, with
  the mutex mtx and the condition cv. The theory Logger takes a call and a round of the writer as one step; here
  taking the mutex, changing the log, notifying and giving the mutex back are steps of their own. A
  message is its address.
\<close>

section \<open>State and steps\<close>

text \<open>What a caller does under the mutex, and where it is in its call.\<close>

datatype log_call = LogMsg nat | SetPause bool

datatype caller = Away | AtMutex log_call | Inside log_call | Altered log_call | Notified log_call

text \<open>The writer: before the mutex, testing the condition of its wait, waiting, woken, about to take the top, and with the
  message shown and deleted.\<close>

datatype writer_at = AtTop | Testing | Sleeping | Roused | Taking | Done

record log_threads =
  lt_queue :: "nat list"
  lt_pause :: bool
  lt_mutex :: "nat option"             \<comment> \<open>the writer is 0, the i-th caller \<open>Suc i\<close>\<close>
  lt_callers :: "caller list"
  lt_writer :: writer_at
  lt_shown :: "nat list"
  lt_logged :: "nat list"              \<comment> \<open>all messages that entered the queue, in this order\<close>

definition log_threads_begin :: "nat \<Rightarrow> log_threads" where
  "log_threads_begin n = \<lparr>lt_queue = [], lt_pause = False, lt_mutex = None, lt_callers = replicate n Away,
     lt_writer = AtTop, lt_shown = [], lt_logged = []\<rparr>"

definition do_call :: "log_call \<Rightarrow> log_threads \<Rightarrow> log_threads" where
  "do_call c S =
     (case c of LogMsg a \<Rightarrow> S\<lparr>lt_queue := a # lt_queue S, lt_logged := lt_logged S @ [a]\<rparr>
      | SetPause b \<Rightarrow> S\<lparr>lt_pause := b\<rparr>)"

definition notify_all :: "log_threads \<Rightarrow> log_threads" where
  "notify_all S = S\<lparr>lt_writer := (if lt_writer S = Sleeping then Roused else lt_writer S)\<rparr>"

definition caller_to :: "nat \<Rightarrow> caller \<Rightarrow> log_threads \<Rightarrow> log_threads" where
  "caller_to i p S = S\<lparr>lt_callers := (lt_callers S)[i := p]\<rparr>"

text \<open>The steps that finish what has been begun.\<close>

inductive log_go :: "log_threads \<Rightarrow> log_threads \<Rightarrow> bool" where
  enter: "i < length (lt_callers S) \<Longrightarrow> lt_callers S ! i = AtMutex c \<Longrightarrow> lt_mutex S = None \<Longrightarrow>
    log_go S (caller_to i (Inside c) (S\<lparr>lt_mutex := Some (Suc i)\<rparr>))"
| alter: "i < length (lt_callers S) \<Longrightarrow> lt_callers S ! i = Inside c \<Longrightarrow> log_go S (caller_to i (Altered c) (do_call c S))"
| notify: "i < length (lt_callers S) \<Longrightarrow> lt_callers S ! i = Altered c \<Longrightarrow>
    log_go S (caller_to i (Notified c) (notify_all S))"
| leave: "i < length (lt_callers S) \<Longrightarrow> lt_callers S ! i = Notified c \<Longrightarrow>
    log_go S (caller_to i Away (S\<lparr>lt_mutex := None\<rparr>))"
| w_enter: "lt_writer S \<in> {AtTop, Roused} \<Longrightarrow> lt_mutex S = None \<Longrightarrow>
    log_go S (S\<lparr>lt_mutex := Some 0, lt_writer := Testing\<rparr>)"
| w_test: "lt_writer S = Testing \<Longrightarrow>
    log_go S (if lt_pause S \<or> lt_queue S = [] then S\<lparr>lt_mutex := None, lt_writer := Sleeping\<rparr>
      else S\<lparr>lt_writer := Taking\<rparr>)"
| w_take: "lt_writer S = Taking \<Longrightarrow> queue_top (lt_queue S) = Inr a \<Longrightarrow>
    log_go S (S\<lparr>lt_queue := remove1 a (lt_queue S), lt_shown := lt_shown S @ [a], lt_writer := Done\<rparr>)"
| w_leave: "lt_writer S = Done \<Longrightarrow> log_go S (S\<lparr>lt_mutex := None, lt_writer := AtTop\<rparr>)"

text \<open>Besides, a call may begin, and the wait may return without a notification.\<close>

inductive log_step :: "log_threads \<Rightarrow> log_threads \<Rightarrow> bool" where
  go: "log_go S S' \<Longrightarrow> log_step S S'"
| begins: "i < length (lt_callers S) \<Longrightarrow> lt_callers S ! i = Away \<Longrightarrow> log_step S (caller_to i (AtMutex c) S)"
| spurious: "lt_writer S = Sleeping \<Longrightarrow> log_step S (S\<lparr>lt_writer := Roused\<rparr>)"

inductive log_reach :: "nat \<Rightarrow> log_threads \<Rightarrow> bool" for n where
  start: "log_reach n (log_threads_begin n)"
| step: "log_reach n S \<Longrightarrow> log_step S S' \<Longrightarrow> log_reach n S'"

lemma caller_to_sel [simp]:
  "lt_queue (caller_to i p S) = lt_queue S" "lt_pause (caller_to i p S) = lt_pause S" "lt_mutex (caller_to i p S) = lt_mutex S"
  "lt_callers (caller_to i p S) = (lt_callers S)[i := p]" "lt_writer (caller_to i p S) = lt_writer S"
  "lt_shown (caller_to i p S) = lt_shown S" "lt_logged (caller_to i p S) = lt_logged S"
  by (simp_all add: caller_to_def)

lemma notify_all_sel [simp]:
  "lt_queue (notify_all S) = lt_queue S" "lt_pause (notify_all S) = lt_pause S" "lt_mutex (notify_all S) = lt_mutex S"
  "lt_callers (notify_all S) = lt_callers S" "lt_shown (notify_all S) = lt_shown S" "lt_logged (notify_all S) = lt_logged S"
  "lt_writer (notify_all S) = (if lt_writer S = Sleeping then Roused else lt_writer S)"
  by (simp_all add: notify_all_def)

lemma do_call_sel [simp]:
  "lt_mutex (do_call c S) = lt_mutex S" "lt_callers (do_call c S) = lt_callers S" "lt_writer (do_call c S) = lt_writer S"
  "lt_shown (do_call c S) = lt_shown S"
  by (simp_all add: do_call_def split: log_call.split)

section \<open>The invariant\<close>

fun has_mutex :: "caller \<Rightarrow> bool" where
  "has_mutex (Inside c) = True"
| "has_mutex (Altered c) = True"
| "has_mutex (Notified c) = True"
| "has_mutex _ = False"

text \<open>The mutex has one owner; the writer takes only what is there; it sleeps only while there is nothing to do or the
  caller that changed this has still to notify it; every logged message is queued or shown.\<close>

definition mutex_fits :: "log_threads \<Rightarrow> bool" where
  "mutex_fits S \<longleftrightarrow> (lt_mutex S = Some 0 \<longleftrightarrow> lt_writer S \<in> {Testing, Taking, Done}) \<and>
     (\<forall>i. lt_mutex S = Some (Suc i) \<longleftrightarrow> i < length (lt_callers S) \<and> has_mutex (lt_callers S ! i))"

definition idle_ok :: "log_threads \<Rightarrow> bool" where
  "idle_ok S \<longleftrightarrow> (lt_writer S = Taking \<longrightarrow> \<not> lt_pause S \<and> lt_queue S \<noteq> []) \<and>
     (lt_writer S = Sleeping \<longrightarrow> lt_pause S \<or> lt_queue S = [] \<or>
        (\<exists>i < length (lt_callers S). \<exists>c. lt_callers S ! i = Altered c))"

definition conserved :: "log_threads \<Rightarrow> bool" where
  "conserved S \<longleftrightarrow> mset (lt_logged S) = mset (lt_shown S) + mset (lt_queue S)"

definition log_inv :: "log_threads \<Rightarrow> bool" where
  "log_inv S \<longleftrightarrow> mutex_fits S \<and> idle_ok S \<and> conserved S"

lemma queue_top_in: "queue_top q = Inr a \<Longrightarrow> a \<in> set q"
  by (auto simp: queue_top_def split: if_splits)

lemma mutex_owner:
  "mutex_fits S \<Longrightarrow> lt_mutex S = Some (Suc i) \<longleftrightarrow> i < length (lt_callers S) \<and> has_mutex (lt_callers S ! i)"
  by (simp add: mutex_fits_def)

lemma mutex_writer_iff: "mutex_fits S \<Longrightarrow> lt_mutex S = Some 0 \<longleftrightarrow> lt_writer S \<in> {Testing, Taking, Done}"
  by (simp add: mutex_fits_def)

text \<open>A caller takes a step: with the mutex, onto it when it is free, or off it.\<close>

lemma mutex_caller:
  assumes m: "mutex_fits S" and i: "i < length (lt_callers S)" and cs: "lt_callers S' = (lt_callers S)[i := p]"
    and mx: "lt_mutex S' = (if has_mutex p then Some (Suc i) else if has_mutex (lt_callers S ! i) then None else lt_mutex S)"
    and take: "lt_mutex S = None \<or> has_mutex (lt_callers S ! i) \<or> \<not> has_mutex p"
    and w: "lt_writer S' \<in> {Testing, Taking, Done} \<longleftrightarrow> lt_writer S \<in> {Testing, Taking, Done}"
  shows "mutex_fits S'"
proof -
  have own: "has_mutex (lt_callers S ! i) \<longleftrightarrow> lt_mutex S = Some (Suc i)" using mutex_owner [OF m] i by simp
  have "lt_mutex S' = Some 0 \<longleftrightarrow> lt_mutex S = Some 0" using mx take own by auto
  then have "lt_mutex S' = Some 0 \<longleftrightarrow> lt_writer S' \<in> {Testing, Taking, Done}" using m w by (simp add: mutex_fits_def)
  moreover have "lt_mutex S' = Some (Suc j) \<longleftrightarrow> j < length (lt_callers S') \<and> has_mutex (lt_callers S' ! j)" for j
  proof (cases "j = i")
    case True
    then show ?thesis using mx cs i own by auto
  next
    case False
    then have "lt_mutex S' = Some (Suc j) \<longleftrightarrow> lt_mutex S = Some (Suc j)" using mx take own by auto
    then show ?thesis using False cs mutex_owner [OF m, of j] by simp
  qed
  ultimately show ?thesis by (simp add: mutex_fits_def)
qed

lemma mutex_writer:
  assumes "mutex_fits S" "lt_callers S' = lt_callers S" "lt_mutex S \<in> {None, Some 0}"
    and "lt_mutex S' = (if lt_writer S' \<in> {Testing, Taking, Done} then Some 0 else None)"
  shows "mutex_fits S'"
proof -
  have "\<not> (i < length (lt_callers S) \<and> has_mutex (lt_callers S ! i))" for i
    using mutex_owner [OF assms(1), of i] assms(3) by auto
  then show ?thesis unfolding mutex_fits_def assms(2,4) by simp
qed

lemma mutex_go:
  assumes m: "mutex_fits S" and s: "log_go S S'"
  shows "mutex_fits S'"
  using s
proof (cases rule: log_go.cases)
  case (enter i c)
  then show ?thesis by (intro mutex_caller [OF m, of i _ "Inside c"]) simp_all
next
  case (alter i c)
  then show ?thesis using mutex_owner [OF m, of i] by (intro mutex_caller [OF m, of i _ "Altered c"]) simp_all
next
  case (notify i c)
  then show ?thesis using mutex_owner [OF m, of i] by (intro mutex_caller [OF m, of i _ "Notified c"]) simp_all
next
  case (leave i c)
  then show ?thesis by (intro mutex_caller [OF m, of i _ Away]) simp_all
next
  case w_enter
  then show ?thesis by (intro mutex_writer [OF m]) simp_all
next
  case w_test
  with m show ?thesis by (intro mutex_writer [OF m]) (simp_all add: mutex_fits_def)
next
  case (w_take a)
  with m show ?thesis by (intro mutex_writer [OF m]) (simp_all add: mutex_fits_def)
next
  case w_leave
  with m show ?thesis by (intro mutex_writer [OF m]) (simp_all add: mutex_fits_def)
qed

lemma no_writer:
  assumes "mutex_fits S" "i < length (lt_callers S)" "has_mutex (lt_callers S ! i)"
  shows "lt_writer S \<notin> {Testing, Taking, Done}"
  using mutex_owner [OF assms(1), of i] mutex_writer_iff [OF assms(1)] assms(2,3) by simp

text \<open>A caller that takes a step without becoming or having been one that still has to notify.\<close>

lemma idle_caller:
  assumes "idle_ok S" "lt_writer S' = lt_writer S" "lt_queue S' = lt_queue S" "lt_pause S' = lt_pause S"
    and "lt_callers S' = (lt_callers S)[i := p]" "i < length (lt_callers S)" "\<And>c. lt_callers S ! i \<noteq> Altered c"
  shows "idle_ok S'"
  unfolding idle_ok_def
proof (intro conjI impI)
  assume "lt_writer S' = Taking"
  with assms show "\<not> lt_pause S'" "lt_queue S' \<noteq> []" by (simp_all add: idle_ok_def)
next
  assume w: "lt_writer S' = Sleeping"
  then consider "lt_pause S \<or> lt_queue S = []" | k c where "k < length (lt_callers S)" "lt_callers S ! k = Altered c"
    using assms(1,2) by (auto simp: idle_ok_def)
  then show "lt_pause S' \<or> lt_queue S' = [] \<or> (\<exists>k < length (lt_callers S'). \<exists>c. lt_callers S' ! k = Altered c)"
  proof cases
    case (2 k c)
    then have "k \<noteq> i" using assms(7) by auto
    with 2 assms(5) have "k < length (lt_callers S')" "lt_callers S' ! k = Altered c" by simp_all
    then show ?thesis by blast
  next
    case 1
    with assms(3,4) show ?thesis by auto
  qed
qed

lemma idle_go:
  assumes m: "mutex_fits S" and o: "idle_ok S" and s: "log_go S S'"
  shows "idle_ok S'"
  using s
proof (cases rule: log_go.cases)
  case (enter i c)
  then show ?thesis by (intro idle_caller [OF o, of _ i "Inside c"]) simp_all
next
  case (alter i c)
  then have "lt_writer S \<noteq> Taking" using no_writer [OF m alter(2)] by simp
  moreover have "i < length (lt_callers S') \<and> lt_callers S' ! i = Altered c" using alter by simp
  ultimately show ?thesis using alter(1) unfolding idle_ok_def by auto
next
  case (notify i c)
  then have "lt_writer S \<noteq> Taking" using no_writer [OF m notify(2)] by simp
  with notify(1) show ?thesis by (simp add: idle_ok_def)
next
  case (leave i c)
  then show ?thesis by (intro idle_caller [OF o, of _ i Away]) simp_all
qed (use o in \<open>auto simp: idle_ok_def\<close>)

lemma conserved_go: "conserved S \<Longrightarrow> log_go S S' \<Longrightarrow> conserved S'"
  by (erule log_go.cases) (auto simp: conserved_def do_call_def dest: queue_top_in split: log_call.split)

lemma log_go_inv: "log_inv S \<Longrightarrow> log_go S S' \<Longrightarrow> log_inv S'"
  using mutex_go idle_go conserved_go by (auto simp: log_inv_def)

lemma log_step_inv:
  assumes "log_inv S" "log_step S S'"
  shows "log_inv S'"
  using assms(2)
proof (cases rule: log_step.cases)
  case go
  with assms(1) show ?thesis by (rule log_go_inv)
next
  case (begins i c)
  have "mutex_fits S'"
    by (rule mutex_caller [of S i _ "AtMutex c"]) (use assms(1) begins in \<open>simp_all add: log_inv_def\<close>)
  moreover have "idle_ok S'"
    by (rule idle_caller [of S _ i "AtMutex c"]) (use assms(1) begins in \<open>simp_all add: log_inv_def\<close>)
  ultimately show ?thesis using assms(1) begins by (simp add: log_inv_def conserved_def)
next
  case spurious
  have "mutex_fits S'" using assms(1) spurious unfolding log_inv_def mutex_fits_def by simp
  with assms(1) spurious show ?thesis by (simp add: log_inv_def idle_ok_def conserved_def)
qed

lemma log_reach_inv: "log_reach n S \<Longrightarrow> log_inv S \<and> length (lt_callers S) = n"
proof (induction rule: log_reach.induct)
  case start
  have "has_mutex (replicate n Away ! i) \<Longrightarrow> \<not> i < n" for i by auto
  then show ?case
    by (auto simp: log_inv_def mutex_fits_def idle_ok_def conserved_def log_threads_begin_def)
next
  case (step S S')
  have "length (lt_callers S') = length (lt_callers S)"
    using step.hyps(2) by (auto elim!: log_step.cases log_go.cases)
  with step show ?case using log_step_inv by auto
qed

section \<open>Begun calls end and messages are shown\<close>

fun caller_rank :: "caller \<Rightarrow> nat" where
  "caller_rank Away = 0" | "caller_rank (AtMutex c) = 4" | "caller_rank (Inside c) = 3"
| "caller_rank (Altered c) = 2" | "caller_rank (Notified c) = 1"

fun writer_rank :: "writer_at \<Rightarrow> nat" where
  "writer_rank Sleeping = 0" | "writer_rank Taking = 1" | "writer_rank Testing = 2"
| "writer_rank AtTop = 3" | "writer_rank Roused = 3" | "writer_rank Done = 4"

definition log_work :: "log_threads \<Rightarrow> nat" where
  "log_work S = 10 * sum_list (map caller_rank (lt_callers S)) + 6 * length (lt_queue S) + writer_rank (lt_writer S)"

lemma caller_work:
  assumes "i < length (lt_callers S)" "caller_rank p < caller_rank (lt_callers S ! i)" "lt_callers S' = (lt_callers S)[i := p]"
    and "length (lt_queue S') \<le> Suc (length (lt_queue S))" "writer_rank (lt_writer S') \<le> writer_rank (lt_writer S) + 3"
  shows "log_work S' < log_work S"
proof -
  have "sum_list (map caller_rank (lt_callers S')) < sum_list (map caller_rank (lt_callers S))"
    unfolding assms(3) by (rule sum_list_update_less [OF assms(1,2)])
  with assms(4,5) show ?thesis unfolding log_work_def by linarith
qed

lemma log_go_work:
  assumes "log_go S S'"
  shows "log_work S' < log_work S"
  using assms
proof (cases rule: log_go.cases)
  case (enter i c)
  then show ?thesis by (intro caller_work [of i S "Inside c"]) simp_all
next
  case (alter i c)
  then show ?thesis
    by (intro caller_work [of i S "Altered c"]) (simp_all add: do_call_def split: log_call.split)
next
  case (notify i c)
  then show ?thesis by (intro caller_work [of i S "Notified c"]) simp_all
next
  case (leave i c)
  then show ?thesis by (intro caller_work [of i S Away]) simp_all
next
  case (w_take a)
  have "Suc (length (lt_queue S) - 1) = length (lt_queue S)"
    using length_pos_if_in_set [OF queue_top_in [OF w_take(3)]] by simp
  with queue_top_in [OF w_take(3)] w_take(1) have "length (lt_queue S) = Suc (length (lt_queue S'))"
    by (simp add: length_remove1)
  with w_take(1,2) show ?thesis by (simp add: log_work_def)
qed (auto simp: log_work_def)

text \<open>A state in which nothing begun can go on.\<close>

lemma log_stuck:
  assumes inv: "log_inv S" and st: "\<nexists>T. log_go S T"
  shows "set (lt_callers S) \<subseteq> {Away} \<and> (lt_pause S \<or> lt_queue S = [])"
proof -
  have m: "mutex_fits S" and o: "idle_ok S" using inv by (simp_all add: log_inv_def)
  have inside: "\<not> has_mutex (lt_callers S ! i)" if "i < length (lt_callers S)" for i
    using st that log_go.alter log_go.notify log_go.leave by (cases "lt_callers S ! i") (simp_all, blast+)
  have w: "lt_writer S \<notin> {Testing, Taking, Done}"
  proof
    assume "lt_writer S \<in> {Testing, Taking, Done}"
    then consider "lt_writer S = Testing" | "lt_writer S = Taking" | "lt_writer S = Done" by blast
    then show False
    proof cases
      case 2
      then have "lt_queue S \<noteq> []" using o by (simp add: idle_ok_def)
      then have "queue_top (lt_queue S) = Inr (Max (set (lt_queue S)))" by (simp add: queue_top_def)
      from log_go.w_take [OF 2 this] st show False by blast
    qed (use st log_go.w_test log_go.w_leave in blast)+
  qed
  have free: "lt_mutex S = None"
  proof (cases "lt_mutex S")
    case (Some k)
    then show ?thesis
      using w inside mutex_writer_iff [OF m] mutex_owner [OF m] by (cases k) auto
  qed
  have away: "lt_callers S ! i = Away" if "i < length (lt_callers S)" for i
    using inside [OF that] st that log_go.enter free by (cases "lt_callers S ! i") (simp_all, blast)
  then have "set (lt_callers S) \<subseteq> {Away}" by (auto simp: in_set_conv_nth)
  moreover have "lt_writer S = Sleeping"
    using w st log_go.w_enter free by (cases "lt_writer S") (simp_all, blast+)
  ultimately show ?thesis using o away by (auto simp: idle_ok_def)
qed

lemma log_go_power_inv: "(log_go ^^ k) S S' \<Longrightarrow> log_inv S \<Longrightarrow> log_inv S' \<and> k + log_work S' \<le> log_work S"
proof (induction k arbitrary: S')
  case (Suc k)
  then obtain T where "(log_go ^^ k) S T" "log_go T S'" by auto
  with Suc.IH [of T] Suc.prems(2) log_go_inv log_go_work [of T S'] show ?case by fastforce
qed simp

section \<open>Properties\<close>

text \<open>At most one thread is between taking and giving back the mutex, a sleeping writer with a free mutex has nothing to
  do, and each logged message is either queued or shown, once.\<close>

theorem logger_guarded:
  assumes "log_reach n S"
  shows "(\<forall>i < n. has_mutex (lt_callers S ! i) \<longrightarrow> lt_writer S \<notin> {Testing, Taking, Done} \<and>
       (\<forall>j < n. has_mutex (lt_callers S ! j) \<longrightarrow> j = i)) \<and>
    (lt_writer S = Sleeping \<and> lt_mutex S = None \<longrightarrow> lt_pause S \<or> lt_queue S = []) \<and>
    mset (lt_logged S) = mset (lt_shown S) + mset (lt_queue S)"
proof -
  have inv: "mutex_fits S" "idle_ok S" "conserved S" and l: "length (lt_callers S) = n"
    using log_reach_inv [OF assms] by (simp_all add: log_inv_def)
  note own = mutex_owner [OF inv(1), unfolded l]
  have "j = i" if "i < n" "has_mutex (lt_callers S ! i)" "j < n" "has_mutex (lt_callers S ! j)" for i j
    using own [of i] own [of j] that by simp
  moreover have "lt_writer S \<notin> {Testing, Taking, Done}" if "i < n" "has_mutex (lt_callers S ! i)" for i
    using no_writer [OF inv(1), of i] l that by simp
  moreover have "lt_pause S \<or> lt_queue S = []" if f: "lt_writer S = Sleeping" "lt_mutex S = None"
  proof -
    have "lt_callers S ! i \<noteq> Altered c" if "i < n" for i c using own [of i] that f(2) by auto
    then show ?thesis using inv(2) f(1) l by (auto simp: idle_ok_def)
  qed
  ultimately show ?thesis using inv(3) by (auto simp: conserved_def)
qed

text \<open>
  C26. In every interleaving of any number of callers with the writer, what has been begun ends: from a reachable state
  at most \<open>log_work\<close> steps are possible without new calls, and when none is, all calls have returned and the log is
  paused or has shown every message logged, each as often as it was logged; no wake-up is lost.\<close>

theorem logger_drains:
  assumes "log_reach n S" "(log_go ^^ k) S S'"
  shows "k \<le> log_work S \<and> ((\<nexists>T. log_go S' T) \<longrightarrow> set (lt_callers S') \<subseteq> {Away} \<and>
    (lt_pause S' \<or> lt_queue S' = [] \<and> mset (lt_shown S') = mset (lt_logged S')))"
proof (intro conjI impI)
  have inv: "log_inv S'" "k + log_work S' \<le> log_work S"
    using log_go_power_inv [OF assms(2)] log_reach_inv [OF assms(1)] by simp_all
  then show "k \<le> log_work S" by simp
  assume "\<nexists>T. log_go S' T"
  from log_stuck [OF inv(1) this]
  show "set (lt_callers S') \<subseteq> {Away}" "lt_pause S' \<or> lt_queue S' = [] \<and> mset (lt_shown S') = mset (lt_logged S')"
    using inv(1) by (auto simp: log_inv_def conserved_def)
qed

text \<open>A run for the witness, by a function for the steps: of the writer, or of a caller.\<close>

definition log_act :: "nat option \<Rightarrow> log_threads \<Rightarrow> log_threads option" where
  "log_act a S =
     (case a of
        None \<Rightarrow>
          (if lt_writer S \<in> {AtTop, Roused} \<and> lt_mutex S = None then Some (S\<lparr>lt_mutex := Some 0, lt_writer := Testing\<rparr>)
           else if lt_writer S = Testing
           then Some (if lt_pause S \<or> lt_queue S = [] then S\<lparr>lt_mutex := None, lt_writer := Sleeping\<rparr>
                  else S\<lparr>lt_writer := Taking\<rparr>)
           else if lt_writer S = Taking
           then (case queue_top (lt_queue S) of Inl e \<Rightarrow> None
                 | Inr x \<Rightarrow> Some (S\<lparr>lt_queue := remove1 x (lt_queue S), lt_shown := lt_shown S @ [x], lt_writer := Done\<rparr>))
           else if lt_writer S = Done then Some (S\<lparr>lt_mutex := None, lt_writer := AtTop\<rparr>) else None)
      | Some i \<Rightarrow>
          if i < length (lt_callers S)
          then (case lt_callers S ! i of
                  Away \<Rightarrow> None
                | AtMutex c \<Rightarrow>
                    if lt_mutex S = None then Some (caller_to i (Inside c) (S\<lparr>lt_mutex := Some (Suc i)\<rparr>)) else None
                | Inside c \<Rightarrow> Some (caller_to i (Altered c) (do_call c S))
                | Altered c \<Rightarrow> Some (caller_to i (Notified c) (notify_all S))
                | Notified c \<Rightarrow> Some (caller_to i Away (S\<lparr>lt_mutex := None\<rparr>)))
          else None)"

lemma log_act_go: "log_act a S = Some S' \<Longrightarrow> log_go S S'"
  using log_go.w_test [of S] unfolding log_act_def
  by (auto split: option.splits caller.splits if_splits sum.splits intro: log_go.intros)

fun log_acts :: "nat option list \<Rightarrow> log_threads \<Rightarrow> log_threads option" where
  "log_acts [] S = Some S"
| "log_acts (a # as) S = (case log_act a S of None \<Rightarrow> None | Some S1 \<Rightarrow> log_acts as S1)"

lemma log_acts_go: "log_acts as S = Some S' \<Longrightarrow> (log_go ^^ length as) S S'"
proof (induction as arbitrary: S)
  case (Cons a as)
  then obtain S1 where "log_act a S = Some S1" "log_acts as S1 = Some S'" by (auto split: option.splits)
  then have "(log_go ^^ Suc (length as)) S S'" by (intro relpowp_Suc_I2 [OF log_act_go Cons.IH])
  then show ?case by simp
qed simp

definition two_calls :: log_threads where
  "two_calls = caller_to 1 (AtMutex (LogMsg 7)) (caller_to 0 (AtMutex (LogMsg 5)) (log_threads_begin 2))"

lemma two_calls_reach: "log_reach 2 two_calls"
  unfolding two_calls_def
  by (rule log_reach.step [OF log_reach.step [OF log_reach.start]]; rule log_step.begins)
    (simp_all add: log_threads_begin_def)

lemma logger_drains_witness:
  "\<exists>S'. (log_go ^^ 18) two_calls S' \<and> (\<nexists>T. log_go S' T) \<and> lt_shown S' = [7, 5] \<and>
     mset (lt_shown S') = mset (lt_logged S')"
proof -
  define as where "as = replicate 4 (Some 0) @ replicate 4 (Some (1 :: nat)) @ replicate 10 None"
  have "case log_acts as two_calls of None \<Rightarrow> False
    | Some S \<Rightarrow> lt_shown S = [7, 5] \<and> lt_writer S = Sleeping \<and> lt_callers S = [Away, Away] \<and> \<not> lt_pause S"
    unfolding as_def by code_simp
  then obtain S where S: "log_acts as two_calls = Some S" "lt_shown S = [7, 5]"
    and q: "lt_writer S = Sleeping" "lt_callers S = [Away, Away]" "\<not> lt_pause S" by (auto split: option.splits)
  have go: "(log_go ^^ 18) two_calls S" using log_acts_go [OF S(1)] by (simp add: as_def)
  have "\<not> log_go S T" for T using q by (auto elim!: log_go.cases simp: less_Suc_eq)
  then show ?thesis using logger_drains [OF two_calls_reach go] go S(2) q(3) by blast
qed

end
