(* ===== verification/Boost_Demo.thy ===== *)
theory Boost_Demo
  imports Complex_Main Prelude
begin

text \<open>
  The first main of MyChat/MyTCPSrv01.cpp, which is switched off there: statistics of four numbers and text
  algorithms on a character array. The algorithms and the statistics are those of the boost libraries and are
  arguments; a range is a pair of positions. Numbers are rational where the program computes with doubles.
\<close>

section \<open>The program\<close>

record boost_ops =
  bo_mean :: "rat list \<Rightarrow> rat"
  bo_moment2 :: "rat list \<Rightarrow> rat"
  bo_find_first :: "string \<Rightarrow> string \<Rightarrow> nat \<times> nat"
  bo_find_last :: "string \<Rightarrow> string \<Rightarrow> nat \<times> nat"
  bo_to_upper :: "string \<Rightarrow> string"
  bo_ifind_all :: "string \<Rightarrow> string \<Rightarrow> (nat \<times> nat) list"
  bo_split :: "string \<Rightarrow> string \<Rightarrow> bool \<Rightarrow> string list"   \<comment> \<open>with token_compress_on or not\<close>

text \<open>A function applied to a range of a text in place.\<close>

definition over_range :: "nat \<times> nat \<Rightarrow> (string \<Rightarrow> string) \<Rightarrow> string \<Rightarrow> string" where
  "over_range r f s = take (fst r) s @ f (take (snd r - fst r) (drop (fst r) s)) @ drop (snd r) s"

text \<open>\<open>plus<char>\<close> with 1 as its second argument.\<close>

definition next_char :: "char \<Rightarrow> char" where
  "next_char c = char_of ((of_char c + 1) mod 256 :: nat)"

definition boost_text :: "boost_ops \<Rightarrow> string \<Rightarrow> string" where
  "boost_text ops text1 =
     (let result = bo_find_last ops text1 ''ll''
      in over_range result (bo_to_upper ops) (over_range result (map next_char) text1))"

definition dolly_line :: "boost_ops \<Rightarrow> string \<Rightarrow> string" where
  "dolly_line ops text1 =
     (let r = bo_find_first ops text1 ''dolly'' in if fst r \<noteq> snd r then ''Dolly is there'' @ [CHR 0x0A] else [])"

definition boost_main :: "boost_ops \<Rightarrow> (rat \<Rightarrow> string) \<Rightarrow> string \<times> (nat \<times> nat) list \<times> string list" where
  "boost_main ops shown =
     (let acc = [12 / 10, 23 / 10, 34 / 10, 45 / 10];
          out = ''mean:'' @ shown (bo_mean ops acc) @ [CHR 0x0A] @ ''moment:'' @ shown (bo_moment2 ops acc) @ [CHR 0x0A];
          str1 = ''hello abc-*-ABC-aBc hello''
      in (out @ dolly_line ops (boost_text ops ''hello dolly!''),
          bo_ifind_all ops str1 ''abc'', bo_split ops str1 ''-*'' True))"

section \<open>What the libraries promise\<close>

definition found_at :: "string \<Rightarrow> string \<Rightarrow> nat \<Rightarrow> bool" where
  "found_at s w k \<longleftrightarrow> k + length w \<le> length s \<and> take (length w) (drop k s) = w"

definition picks :: "(nat \<Rightarrow> nat \<Rightarrow> bool) \<Rightarrow> string \<Rightarrow> string \<Rightarrow> nat \<times> nat \<Rightarrow> bool" where
  "picks earlier s w r \<longleftrightarrow>
     (if fst r = snd r then \<forall>k. \<not> found_at s w k
      else snd r = fst r + length w \<and> found_at s w (fst r) \<and> (\<forall>k. earlier k (fst r) \<longrightarrow> \<not> found_at s w k))"

definition first_ok :: "(string \<Rightarrow> string \<Rightarrow> nat \<times> nat) \<Rightarrow> bool" where
  "first_ok f \<longleftrightarrow> (\<forall>s w. w \<noteq> [] \<longrightarrow> picks (<) s w (f s w))"

definition last_ok :: "(string \<Rightarrow> string \<Rightarrow> nat \<times> nat) \<Rightarrow> bool" where
  "last_ok f \<longleftrightarrow> (\<forall>s w. w \<noteq> [] \<longrightarrow> picks (>) s w (f s w))"

text \<open>Capitals for the letters of the C locale.\<close>

definition capital :: "char \<Rightarrow> char" where
  "capital c = (let n = (of_char c :: nat) in if 97 \<le> n \<and> n \<le> 122 then char_of (n - 32) else c)"

definition boost_ok :: "boost_ops \<Rightarrow> bool" where
  "boost_ok ops \<longleftrightarrow> first_ok (bo_find_first ops) \<and> last_ok (bo_find_last ops) \<and> bo_to_upper ops = map capital"

text \<open>Where a word is found, by a list.\<close>

definition spots :: "string \<Rightarrow> string \<Rightarrow> nat list" where
  "spots s w = filter (\<lambda>k. take (length w) (drop k s) = w) [0..<Suc (length s) - length w]"

lemma set_spots: "set (spots s w) = {k. found_at s w k}"
  by (auto simp: spots_def found_at_def)

lemma over_empty: "f [] = [] \<Longrightarrow> over_range (b, b) f s = s"
  by (simp add: over_range_def)

text \<open>In every text the last occurrence of "ll" is changed to "MM", or nothing is.\<close>

lemma boost_text_result:
  assumes "boost_ok ops"
  shows "if spots s ''ll'' = [] then boost_text ops s = s
    else boost_text ops s = take (Max (set (spots s ''ll''))) s @ ''MM'' @ drop (Max (set (spots s ''ll'')) + 2) s"
proof -
  obtain b e where r: "bo_find_last ops s ''ll'' = (b, e)" by (cases "bo_find_last ops s ''ll''")
  have "picks (>) s ''ll'' (bo_find_last ops s ''ll'')" using assms by (simp add: boost_ok_def last_ok_def)
  then have l: "if b = e then \<forall>k. \<not> found_at s ''ll'' k
      else e = b + 2 \<and> found_at s ''ll'' b \<and> (\<forall>k > b. \<not> found_at s ''ll'' k)"
    unfolding r picks_def by (cases "b = e") simp_all
  show ?thesis
  proof (cases "b = e")
    case True
    then have "set (spots s ''ll'') = {}" using l by (simp add: set_spots)
    moreover have "boost_text ops s = s" using assms True r by (simp add: boost_text_def over_empty boost_ok_def)
    ultimately show ?thesis by simp
  next
    case False
    then have f: "e = b + 2" "found_at s ''ll'' b" "\<And>k. found_at s ''ll'' k \<Longrightarrow> k \<le> b"
      using l by (auto simp: not_less [symmetric])
    then have m: "Max (set (spots s ''ll'')) = b"
      using finite_set [of "spots s ''ll''"] by (intro Max_eqI) (auto simp: set_spots)
    have ne: "spots s ''ll'' \<noteq> []" using f(2) set_spots [of s "''ll''"] by auto
    have b: "b + 2 \<le> length s" "take 2 (drop b s) = ''ll''" using f(2) by (simp_all add: found_at_def numeral_2_eq_2)
    have M: "map capital (map next_char ''ll'') = ''MM''" by code_simp
    have "length (map next_char ''ll'') = 2" by simp
    then have "boost_text ops s = take b s @ ''MM'' @ drop (b + 2) s"
      using assms r b M by (simp add: boost_text_def over_range_def boost_ok_def f(1))
    then show ?thesis using ne m by simp
  qed
qed

lemma no_dolly:
  assumes "boost_ok ops" "spots s ''dolly'' = []"
  shows "dolly_line ops s = []"
proof -
  have "picks (<) s ''dolly'' (bo_find_first ops s ''dolly'')" using assms(1) by (simp add: boost_ok_def first_ok_def)
  moreover have "\<not> found_at s ''dolly'' k" for k
    using assms(2) set_spots [of s "''dolly''"] by (metis empty_iff list.set(1) mem_Collect_eq)
  ultimately show ?thesis by (simp add: dolly_line_def picks_def Let_def split: if_splits)
qed

section \<open>Properties\<close>

text \<open>The program changes the text it then searches: with any library that keeps its promises it never
  finds Dolly, and prints the two statistics only.\<close>

theorem dolly_never_there:
  assumes "boost_ok ops"
  shows "boost_text ops ''hello dolly!'' = ''hello doMMy!'' \<and>
    fst (boost_main ops shown) = ''mean:'' @ shown (bo_mean ops [12 / 10, 23 / 10, 34 / 10, 45 / 10]) @ [CHR 0x0A] @
      ''moment:'' @ shown (bo_moment2 ops [12 / 10, 23 / 10, 34 / 10, 45 / 10]) @ [CHR 0x0A]"
proof -
  have "spots ''hello dolly!'' ''ll'' = [2, 8]" by code_simp
  moreover have "Max (set [2, 8]) = (8 :: nat)" by simp
  moreover have "take 8 ''hello dolly!'' @ ''MM'' @ drop (8 + 2) ''hello dolly!'' = ''hello doMMy!''" by code_simp
  ultimately have t: "boost_text ops ''hello dolly!'' = ''hello doMMy!''"
    using boost_text_result [OF assms, of "''hello dolly!''"] by (simp only: list.distinct(2) if_False)
  have "spots ''hello doMMy!'' ''dolly'' = []" by code_simp
  with assms have "dolly_line ops ''hello doMMy!'' = []" by (intro no_dolly)
  then show ?thesis unfolding boost_main_def Let_def t fst_conv by (simp only: append_assoc append_Nil2 simp_thms)
qed

definition plain_boost :: boost_ops where
  "plain_boost = \<lparr>bo_mean = (\<lambda>xs. sum_list xs / of_nat (length xs)),
     bo_moment2 = (\<lambda>xs. sum_list (map (\<lambda>x. x * x) xs) / of_nat (length xs)),
     bo_find_first = (\<lambda>s w. case spots s w of [] \<Rightarrow> (length s, length s) | k # _ \<Rightarrow> (k, k + length w)),
     bo_find_last = (\<lambda>s w. case rev (spots s w) of [] \<Rightarrow> (length s, length s) | k # _ \<Rightarrow> (k, k + length w)),
     bo_to_upper = map capital, bo_ifind_all = (\<lambda>_ _. []), bo_split = (\<lambda>_ _ _. [])\<rparr>"

lemma sorted_spots: "sorted_wrt (<) (spots s w)"
  unfolding spots_def by (rule sorted_wrt_filter) simp

lemma first_spot: "spots s w = k # ks \<Longrightarrow> found_at s w k \<and> (\<forall>j < k. \<not> found_at s w j)"
  using sorted_spots [of s w] set_spots [of s w] by fastforce

lemma last_spot: "rev (spots s w) = k # ks \<Longrightarrow> found_at s w k \<and> (\<forall>j > k. \<not> found_at s w j)"
proof -
  assume "rev (spots s w) = k # ks"
  then have "spots s w = rev ks @ [k]" by (metis rev.simps(2) rev_rev_ident)
  then show ?thesis using sorted_spots [of s w] set_spots [of s w] by (fastforce simp: sorted_wrt_append)
qed

lemma plain_boost_ok: "boost_ok plain_boost"
proof -
  have none: "\<not> found_at s w k" if "spots s w = []" for s w k using that set_spots [of s w] by auto
  have "picks (<) s w (bo_find_first plain_boost s w)" if "w \<noteq> []" for s w
    using that none first_spot by (auto simp: picks_def plain_boost_def split: list.splits)
  moreover have "picks (>) s w (bo_find_last plain_boost s w)" if "w \<noteq> []" for s w
    using that none last_spot by (auto simp: picks_def plain_boost_def split: list.splits)
  ultimately show ?thesis by (simp add: boost_ok_def first_ok_def last_ok_def) (simp add: plain_boost_def)
qed

theorem dolly_never_there_witness:
  "boost_text plain_boost ''hello dolly!'' = ''hello doMMy!'' \<and>
    fst (boost_main plain_boost (\<lambda>_. ''x'')) = ''mean:'' @ ''x'' @ [CHR 0x0A] @ ''moment:'' @ ''x'' @ [CHR 0x0A]"
  using dolly_never_there [OF plain_boost_ok, of "\<lambda>_. ''x''"] .

end
