(* ===== verification/Spec2Isabelle.thy ===== *)
theory Spec2Isabelle
  imports Containers Chat_Server Chat_Client Echo_Session Sorting Kmp Circle_Queue Text_Input
    Max_Heap Udp_Programs Word_Cli Poll_Server Hash Bounce_Threads
    Logger Producers Small_Programs Daytime Search_Program
    Thread_Demos Test_Mains Chat_System Chat_Network Chat_Mains Echo_System Udp_Session Bounce_Program
    Queue_Menu Demo_Mains Array_Queue Poll_Threads Logger_Threads Boost_Demo
begin

text \<open>
  A verification library for the Exec02 repository: a collection of C and C++ programs on
  Windows, a chat system over boost::asio (MyChat), a utility library (MyUtil) and a set of
  command line and network programs over shared containers (Project1).

  Parts and theories.

  Prelude: faults as values, sequencing (\<open>and_then\<close>, and \<open>run_then\<close> for code that may not end),
  checked array access by a signed index, C division, decimal digits, C strings in buffers.

  Linked_List: Project1/MyList.c and .h, every operation over an explicit node store, because
  insertion and removal mutate nodes reached from several pointers. Containers: MyStack, MyQueue
  (clients of the list) and MyEvents (a client of the queue), with the locales \<open>seq_container\<close>,
  \<open>fifo\<close> and \<open>lifo\<close> interpreted on the list; whole client programs refine abstract sequences.

  Chat_Message: MyChat/MyChatMessage.hpp, buffer, lengths, header encoding and decoding with the
  run-time constraints of the bounds-checked C functions. Outbox: the contract of a queue that
  keeps one write outstanding, a locale with two interpretations. Chat_Server:
  MyTCPChatSrv01.cpp, room, sessions, acceptor, and every completion handler; the state is a
  step relation in which boost::asio chooses the next outstanding handler and its result.
  Chat_Client: MyTCPChatCli01.cpp, the posted functions, the handlers and the input loop.
  Chat_System: server and client together, a message on its way through both. Chat_Network: the
  server with all its clients, each reading its connection in pieces; every display is a
  contiguous segment of the one sequence the room delivered, and can catch up. Chat_Mains: the main
  functions, with several rooms in one program (whether a port can be bound is an argument of which
  nothing is assumed) and the two threads of the client, whose
  leaving of the loop closes the socket before what was typed is sent.
  Echo_Session: MyTCPSrv01.cpp, the session driven by readiness notifications and the
  connection that keeps exactly one wait outstanding. Echo_System: the acceptor and any number of such
  connections, and the blocking client of MyTCPCli01.cpp on one of them, a state machine from its request to
  what it prints, whose writes and reads are those of its main.

  Sorting: MyUtil/MySort.c. \<open>issort\<close> is proved a stable sort for every comparison that satisfies
  the locale \<open>comparison\<close>; \<open>qksort\<close> is a partial function (\<open>None\<close> is a run that does not end)
  proved memory safe and permuting, total for draws of the first cell, and shown not to sort.
  Kmp: getPi, kmp, intslen and trim of Project1/FileTransMain.cpp; the search finds exactly all
  occurrences. Circle_Queue: MyUtil/MyCircleQueue.c and the menu of TestCircle.c, with the
  locale \<open>bounded_fifo\<close>. Queue_Menu: MyCirQue.c, the same menu over a queue whose header is missing and
  is therefore an argument; the locale \<open>same_queue\<close> says when the program cannot tell two queues
  apart, and is interpreted for the circular queue and a list of at most hundred numbers; what the program
  prints is compared with a dialogue over a list, up to the exit choice, which frees an automatic object. Array_Queue: the
  linked array of MyTestMain01.cpp, which never takes an element. Text_Input: library text functions, strsep of MyUtil/MyString.c, the
  tokenizer of Exec02.c and the vowel search of MyTestMain01.cpp. Max_Heap: struct Heap and its
  command interpreter in MyTestMain01.cpp, with the locale \<open>max_queue\<close>; its int arithmetic is checked, and the capacity can double up to \<open>2 ^ 30\<close>. Udp_Programs:
  UDPServer.c, udpclient.c, UPDEchoServer.c, NamedSocketServer.c and MyService.c, one round of
  each loop and the loops over a list of receive results. Udp_Session: client and server of the same
  port over any number of rounds, where the network hands each datagram over once and in order; the rounds stand
  behind the start-up of the client, which on Windows overruns the block it allocates for WSAStartup. Word_Cli: the command loops over the
  linked list in FileTransMain.cpp and MyTestMain01.cpp, which use the list, the tokenizer and
  the UDP service; a whole run of the program refines a specification over a list of words.

  Poll_Server: the signal driven transfer server in the first part of FileTransMain.cpp, its pool of
  workers (the locale \<open>least_loaded\<close>, interpreted as \<open>pool\<close>), acceptor, requests and command
  table. The start-up of its main is out of bounds at the third thread, for which the vector of thread numbers has
  no element: this is the result of \<open>start_loop\<close> and of \<open>create_thread\<close>, and the invariants of the pool
  hold from the first two threads on (\<open>registered_server\<close>). Poll_Threads: the start-up handshake of that server with
  MutexLock and SyncCond, step by step, spurious wake-ups included, and the iterator ProcessingFunci which its
  workers share. Hash: myhash.c over 32-bit words, and the polynomial hash of MyTestMain01.cpp. Bounce_Screen: the characters that the threads of
  MThread01.c, MThread02.c and Main01.c move over the screen; Bounce_Threads: their counters,
  keyboard loops and mutex protocol, where the mutex operations are a parameter (\<open>mutex_api\<close>) of
  which \<open>mutex_ok\<close> states the documented behaviour, and \<open>simple_mutex\<close> is an instance. The read and the write of
  \<open>threadNr--\<close> at the end of a thread of MThread02.c are two steps, so that an update can be lost and a thread can
  be stopped after Q by a request of before; handling a key is one step of main. Bounce_Program:
  the programs MThread01.c, MThread02.c and Main01.c as wholes, with every console call a step under the screen
  mutex. What all three have in common is the locale \<open>console_screen\<close>; \<open>console_program\<close> extends it by what the
  ending of the threads needs, which MThread02 does not promise; there a delete request that is overtaken by a new thread is taken by
  none as long as main reads keys.
  Time_Format: the time stamps of MyUtil.cpp and their copies. Logger: MLogger.cpp, messages that
  own blocks in a store, the log and its writer. Logger_Threads: callers and writer of one log,
  interleaved at every use of its mutex and its condition. Search_Program: the search program of
  FileTransMain.cpp, which composes time stamps, fgets, trim and the search; its first time stamp overflows a buffer of 20
  bytes, and what its parts compute is stated of the parts. Producers:
  LockFreeMain.cpp, producers and consumers with their atomic steps interleaved and counters of 32 bits; main can
  always come to its report. Daytime:
  server.cpp, the TCP and UDP day time servers and the lifetime of their connections.
  Thread_Demos: the threads of Main02.cpp under a lock and the race of Main03.cpp.
  Small_Programs: the indenting stream, the line log, the list of names and the books. Test_Mains: summation, greeting, name check, date and marks programs of
  MyTestMain01.cpp. Demo_Mains: formatted input, the main of Books.cpp, the clocks and an array
  of zeros. Boost_Demo: the
  text and statistics demonstration at the start of MyTCPSrv01.cpp, over the algorithms of boost as arguments.

  How code corresponds to definitions. A struct or class is a record, an enum a datatype. A
  function returns \<open>fault + result\<close>: undefined behaviour, out of bounds access, NULL and dangling
  pointers, division by zero and thrown exceptions are \<open>Inl\<close> values, so a theorem with \<open>Inr\<close> also
  says that none of them happens. Results of malloc, rand, scanf, sockets and the scheduler are
  arguments; what the library documents about them is a named hypothesis (\<open>malloc_ok\<close>, \<open>mem_ok\<close>,
  \<open>rands_ok\<close>, \<open>recv_ok\<close>, \<open>env_good\<close>, \<open>mutex_ok\<close>, \<open>tm_ok\<close>), each satisfied by a concrete instance in a witness. C ints
  that only count or index are mathematical integers, so that strings, lists and blocks are taken to have fewer than
  \<open>2 ^ 31\<close> elements (the length casts of kmp, the size of a list); the int arithmetic of the heap, whose capacity
  doubles, is checked with \<open>fit_int\<close>, and the atomic counters of LockFreeMain.cpp are 32-bit words. Conversions to
  size_t wrap at \<open>2 ^ 64\<close> where the code depends on it.

  Loops. Loops with a decreasing quantity are total functions; loops whose end depends on data
  (the fall back of kmp, quicksort, printing a list) are partial functions for which the
  theorems state that they return where they do. Fuel appears in \<open>vowel_loop\<close>, where 24 covers a
  string of 23 characters because the position grows in every round, and in \<open>strsep_calls\<close>, where
  any bound of at least the number of fields suffices, and in \<open>menu_rounds\<close>, where one round more than
  the numbers of the input is enough for a menu that reads one number a time.

  Concurrency. Threads and asynchronous operations are step relations in which any enabled thread or
  completed operation may be next; their invariants are proved by rule induction over reachable
  states. Every step is one access to shared state, except where a mutex of the code covers more, and in the
  moving characters where main handles a key or a thread tests a delete request, which are one step each.

  Not modelled: console, thread and socket calls themselves, which are arguments or steps; floating point
  arithmetic, regular expressions, clocks and the text of dates, which are arguments;
  printSocketErrorDetail of udpclient.c, which only asks the system for a text; the destructor of MLog,
  which does not compile. Memory exhaustion in C++ new is not modelled; it throws.

  Each property is a theorem of its component's theory, below a text that names it. Properties
  that state a defect (a fault that is always reached, a result that is wrong) are theorems about
  the code as it is.
\<close>

end
